(* ===== verification/Prelude.thy ===== *)
theory Prelude
  imports Main "HOL-Library.Word" "HOL-Library.Multiset"
begin

text \<open>
  What the component theories share: names for the C integer types, the outcome of a
  kernel routine that may panic, the search loops over fixed-size tables, and the
  generic lemmas on lists, options and words their proofs use.
\<close>

unbundle bit_operations_syntax

section \<open>Integer types\<close>

text \<open>\<open>uchar\<close>, \<open>ushort\<close>, \<open>uint\<close> and \<open>unsigned long long\<close> of \<open>include/types.h\<close> and \<open>kernel/udiv.c\<close>.\<close>

type_synonym u8 = "8 word"
type_synonym u16 = "16 word"
type_synonym u32 = "32 word"
type_synonym u64 = "64 word"

text \<open>A signed \<open>int\<close> is an integer in its range; arithmetic on it wraps around.\<close>

definition wrap32 :: "int \<Rightarrow> int" where
  "wrap32 x = signed_take_bit 31 x"

lemma wrap32_id: "- (2 ^ 31) \<le> x \<Longrightarrow> x < 2 ^ 31 \<Longrightarrow> wrap32 x = x"
  unfolding wrap32_def by (rule signed_take_bit_int_eq_self)

section \<open>Outcomes\<close>

text \<open>
  \<open>panic\<close> stops the machine: a routine that may panic returns \<open>Panic msg\<close> on those
  paths and \<open>Ret\<close> of its result on the others. \<open>bindO\<close> runs the next statement only
  when the previous one returned.
\<close>

datatype 'a outcome = Panic string | Ret 'a

fun bindO :: "'a outcome \<Rightarrow> ('a \<Rightarrow> 'b outcome) \<Rightarrow> 'b outcome" where
  "bindO (Panic msg) f = Panic msg"
| "bindO (Ret x) f = f x"

fun returns :: "'a outcome \<Rightarrow> bool" where
  "returns (Panic msg) = False"
| "returns (Ret x) = True"

lemma bindO_Ret_iff: "bindO m f = Ret y \<longleftrightarrow> (\<exists>x. m = Ret x \<and> f x = Ret y)"
  by (cases m) auto

lemma bindO_assoc: "bindO (bindO m f) g = bindO m (\<lambda>x. bindO (f x) g)"
  by (cases m) auto

lemma bindO_Ret_right [simp]: "bindO m Ret = m"
  by (cases m) auto

lemma returns_iff: "returns m \<longleftrightarrow> (\<exists>x. m = Ret x)"
  by (cases m) auto

section \<open>Lists\<close>

lemma find_map: "find P (map f xs) = map_option f (find (\<lambda>x. P (f x)) xs)"
  by (induction xs) auto

section \<open>Memory\<close>

text \<open>
  A memory maps addresses to bytes. A 32-bit value or pointer occupies four bytes, the low one
  first, as on the x86. Addresses are natural numbers: an object never wraps around the end
  of the address space.
\<close>

type_synonym mem = "nat \<Rightarrow> u8"

definition store32 :: "mem \<Rightarrow> nat \<Rightarrow> u32 \<Rightarrow> mem" where
  "store32 m a w = m(a := ucast w, a + 1 := ucast (drop_bit 8 w), a + 2 := ucast (drop_bit 16 w),
     a + 3 := ucast (drop_bit 24 w))"

definition load32 :: "mem \<Rightarrow> nat \<Rightarrow> u32" where
  "load32 m a = ucast (m a) OR push_bit 8 (ucast (m (a + 1))) OR push_bit 16 (ucast (m (a + 2)))
     OR push_bit 24 (ucast (m (a + 3)))"

lemma load32_store32 [simp]: "load32 (store32 m a w) a = w"
proof (rule bit_word_eqI)
  fix i assume "i < LENGTH(32)"
  then consider "i < 8" | "8 \<le> i" "i < 16" | "16 \<le> i" "i < 24" | "24 \<le> i" "i < 32" by fastforce
  then show "bit (load32 (store32 m a w) a) i = bit w i"
    by cases (auto simp: load32_def store32_def bit_or_iff bit_push_bit_iff bit_ucast_iff bit_drop_bit_eq
        dest: bit_imp_le_length)
qed

lemma store32_other [simp]: "x < a \<or> a + 4 \<le> x \<Longrightarrow> store32 m a w x = m x"
  by (auto simp: store32_def)

lemma load32_cong:
  assumes "\<And>k. k < 4 \<Longrightarrow> m (a + k) = m' (a + k)"
  shows "load32 m a = load32 m' a"
  using assms [of 0] assms [of 1] assms [of 2] assms [of 3] by (simp add: load32_def)

lemma load32_store32_other: "a + 4 \<le> b \<or> b + 4 \<le> a \<Longrightarrow> load32 (store32 m a w) b = load32 m b"
  by (rule load32_cong) auto

text \<open>\<open>ushort\<close> values occupy two bytes.\<close>

definition store16 :: "mem \<Rightarrow> nat \<Rightarrow> u16 \<Rightarrow> mem" where
  "store16 m a w = m(a := ucast w, a + 1 := ucast (drop_bit 8 w))"

definition load16 :: "mem \<Rightarrow> nat \<Rightarrow> u16" where
  "load16 m a = ucast (m a) OR push_bit 8 (ucast (m (a + 1)))"

lemma load16_store16 [simp]: "load16 (store16 m a w) a = w"
  by (rule bit_word_eqI)
    (auto simp: load16_def store16_def bit_or_iff bit_push_bit_iff bit_ucast_iff bit_drop_bit_eq dest: bit_imp_le_length)

lemma store16_other [simp]: "x < a \<or> a + 2 \<le> x \<Longrightarrow> store16 m a w x = m x"
  by (auto simp: store16_def)

lemma load16_cong: "m a = m' a \<Longrightarrow> m (a + 1) = m' (a + 1) \<Longrightarrow> load16 m a = load16 m' a"
  by (simp add: load16_def)

lemma load16_store16_other: "a + 2 \<le> b \<or> b + 2 \<le> a \<Longrightarrow> load16 (store16 m a w) b = load16 m b"
  by (rule load16_cong) auto

lemma load16_store32_other: "a + 4 \<le> b \<or> b + 2 \<le> a \<Longrightarrow> load16 (store32 m a w) b = load16 m b"
  by (rule load16_cong) auto

end
