(* ===== verification/Udiv.thy ===== *)
theory Udiv
  imports Prelude
begin

text \<open>
  The 64-bit unsigned division of \<open>kernel/udiv.c\<close>: \<open>__udivmoddi4\<close>, \<open>__udivdi3\<close> and
  \<open>__umoddi3\<close>. The kernel runs on 32-bit registers, so the routine works on the two
  halves of its operands, keeps shift counts in an \<open>unsigned\<close> and runs a bit-by-bit
  restoring division whose comparison is the sign of a 64-bit subtraction.
  The result is shown equal to the quotient and remainder of the operands.
\<close>

unbundle bit_operations_syntax

section \<open>Definitions\<close>

text \<open>The union \<open>udwords\<close>: a 64-bit value read as two 32-bit halves.\<close>

record udwords =
  low :: u32
  high :: u32

definition all :: "udwords \<Rightarrow> u64" where
  "all d = push_bit 32 (ucast (high d)) OR ucast (low d)"

definition udwords_of :: "u64 \<Rightarrow> udwords" where
  "udwords_of a = \<lparr>low = ucast a, high = ucast (drop_bit 32 a)\<rparr>"

text \<open>The compiler builtins \<open>__builtin_clz\<close> and \<open>__builtin_ctz\<close> on a nonzero argument.\<close>

definition builtin_clz :: "u32 \<Rightarrow> nat" where
  "builtin_clz x = length (takeWhile (\<lambda>i. \<not> bit x i) (rev [0..<32]))"

definition builtin_ctz :: "u32 \<Rightarrow> nat" where
  "builtin_ctz x = length (takeWhile (\<lambda>i. \<not> bit x i) [0..<32])"

text \<open>\<open>x << k\<close> and \<open>x >> k\<close> on an \<open>unsigned\<close> with an \<open>unsigned\<close> count.\<close>

definition shl32 :: "u32 \<Rightarrow> u32 \<Rightarrow> u32" where
  "shl32 x k = push_bit (unat k) x"

definition shr32 :: "u32 \<Rightarrow> u32 \<Rightarrow> u32" where
  "shr32 x k = drop_bit (unat k) x"

text \<open>One iteration of the division loop: shift \<open>r:q\<close> left by one bit, then subtract.\<close>

definition div_step :: "u64 \<Rightarrow> udwords \<times> udwords \<times> u32 \<Rightarrow> udwords \<times> udwords \<times> u32" where
  "div_step d = (\<lambda>(r, q, carry).
     let r1 = \<lparr>low = shl32 (low r) 1 OR shr32 (high q) 31,
               high = shl32 (high r) 1 OR shr32 (low r) 31\<rparr>;
         q1 = \<lparr>low = shl32 (low q) 1 OR carry,
               high = shl32 (high q) 1 OR shr32 (low q) 31\<rparr>;
         s = (signed_drop_bit 63 (d - all r1 - 1) :: u64)
     in (udwords_of (all r1 - (d AND s)), q1, ucast (s AND 1)))"

fun div_loop :: "nat \<Rightarrow> u64 \<Rightarrow> udwords \<times> udwords \<times> u32 \<Rightarrow> udwords \<times> udwords \<times> u32" where
  "div_loop 0 d st = st"
| "div_loop (Suc sr) d st = div_loop sr d (div_step d st)"

definition div_finish :: "udwords \<times> udwords \<times> u32 \<Rightarrow> u64 \<times> u64" where
  "div_finish = (\<lambda>(r, q, carry). (push_bit 1 (all q) OR ucast carry, all r))"

text \<open>
  The routine: \<open>Some (quotient, remainder)\<close>, the remainder being what is stored through
  \<open>rem\<close> when that pointer is not null, and \<open>None\<close> where the C divides by zero.
  The constants \<open>32\<close> and \<open>64\<close> are \<open>n_uword_bits\<close> and \<open>n_udword_bits\<close>.
\<close>

definition udivmoddi4 :: "u64 \<Rightarrow> u64 \<Rightarrow> (u64 \<times> u64) option" where
  "udivmoddi4 a b =
    (let n = udwords_of a; d = udwords_of b;
         run = (\<lambda>sr r q. Some (div_finish (div_loop (unat sr) b (r, q, 0))))
     in
     if high n = 0 then
       (if high d = 0 then
          (if low d = 0 then None
           else Some (ucast (low n div low d), ucast (low n mod low d)))
        else Some (0, ucast (low n)))
     else if low d = 0 then
       (if high d = 0 then None
        else if low n = 0 then
          Some (ucast (high n div high d), all \<lparr>low = 0, high = high n mod high d\<rparr>)
        else if high d AND (high d - 1) = 0 then
          Some (ucast (shr32 (high n) (of_nat (builtin_ctz (high d)))),
                all \<lparr>low = low n, high = high n AND (high d - 1)\<rparr>)
        else
          (let sr = of_nat (builtin_clz (high d)) - of_nat (builtin_clz (high n)) :: u32
           in if sr > 30 then Some (0, a)
              else let sr = sr + 1
                   in run sr
                        \<lparr>low = shl32 (high n) (32 - sr) OR shr32 (low n) sr,
                         high = shr32 (high n) sr\<rparr>
                        \<lparr>low = 0, high = shl32 (low n) (32 - sr)\<rparr>))
     else if high d = 0 then
       (if low d AND (low d - 1) = 0 then
          (if low d = 1 then Some (a, ucast (low n AND (low d - 1)))
           else let sr = of_nat (builtin_ctz (low d)) :: u32
                in Some (all \<lparr>low = shl32 (high n) (32 - sr) OR shr32 (low n) sr,
                              high = shr32 (high n) sr\<rparr>,
                         ucast (low n AND (low d - 1))))
        else
          (let sr = 1 + 32 + of_nat (builtin_clz (low d)) - of_nat (builtin_clz (high n)) :: u32
           in if sr = 32 then
                run sr \<lparr>low = high n, high = 0\<rparr> \<lparr>low = 0, high = low n\<rparr>
              else if sr < 32 then
                run sr
                  \<lparr>low = shl32 (high n) (32 - sr) OR shr32 (low n) sr, high = shr32 (high n) sr\<rparr>
                  \<lparr>low = 0, high = shl32 (low n) (32 - sr)\<rparr>
              else
                run sr
                  \<lparr>low = shr32 (high n) (sr - 32), high = 0\<rparr>
                  \<lparr>low = shl32 (low n) (64 - sr),
                   high = shl32 (high n) (64 - sr) OR shr32 (low n) (sr - 32)\<rparr>))
     else
       (let sr = of_nat (builtin_clz (high d)) - of_nat (builtin_clz (high n)) :: u32
        in if sr > 31 then Some (0, a)
           else let sr = sr + 1
                in if sr = 32 then
                     run sr \<lparr>low = high n, high = 0\<rparr> \<lparr>low = 0, high = low n\<rparr>
                   else
                     run sr
                       \<lparr>low = shl32 (high n) (32 - sr) OR shr32 (low n) sr,
                        high = shr32 (high n) sr\<rparr>
                       \<lparr>low = 0, high = shl32 (low n) (32 - sr)\<rparr>))"

definition udivdi3 :: "u64 \<Rightarrow> u64 \<Rightarrow> u64 option" where
  "udivdi3 a b = map_option fst (udivmoddi4 a b)"

definition umoddi3 :: "u64 \<Rightarrow> u64 \<Rightarrow> u64 option" where
  "umoddi3 a b = map_option snd (udivmoddi4 a b)"

section \<open>The two halves and the bit builtins\<close>

lemma unat32_less: "unat (x :: u32) < 4294967296"
  using unsigned_less [of x, where ?'a = nat] by simp

lemma unat64_less: "unat (x :: u64) < 18446744073709551616"
  using unsigned_less [of x, where ?'a = nat] by simp

lemma bit_all: "bit (all d) i \<longleftrightarrow> (if i < 32 then bit (low d) i else i < 64 \<and> bit (high d) (i - 32))"
  by (auto simp: all_def bit_or_iff bit_push_bit_iff bit_ucast_iff dest: bit_imp_le_length)

lemma all_udwords_of [simp]: "all (udwords_of a) = a"
  by (rule bit_word_eqI) (auto simp: bit_all udwords_of_def bit_ucast_iff bit_drop_bit_eq)

lemma unat_all: "unat (all d) = unat (high d) * 2 ^ 32 + unat (low d)"
proof -
  have "all d = push_bit 32 (ucast (high d)) + ucast (low d)"
    unfolding all_def 
    by (rule disjunctive_add [symmetric]) (auto simp: bit_push_bit_iff bit_ucast_iff dest: bit_imp_le_length)
  also have "\<dots> = of_nat (unat (high d) * 2 ^ 32 + unat (low d))"
    by (simp add: push_bit_eq_mult unsigned_of_nat)
  finally have "unat (all d) = (unat (high d) * 2 ^ 32 + unat (low d)) mod 2 ^ LENGTH(64)"
    by (simp only: unat_of_nat)
  then show ?thesis
    using unat32_less [of "low d"] unat32_less [of "high d"] by simp
qed

lemma all_shift_r:
  "all \<lparr>low = shl32 (low r) 1 OR shr32 (high q) 31, high = shl32 (high r) 1 OR shr32 (low r) 31\<rparr>
   = push_bit 1 (all r) OR drop_bit 63 (all q)"
  by (rule bit_word_eqI)
    (auto simp: bit_all shl32_def shr32_def bit_or_iff bit_push_bit_iff bit_drop_bit_eq not_less Suc_le_eq Suc_diff_le le_Suc_eq
       dest: bit_imp_le_length simp del: push_bit_Suc drop_bit_Suc)

lemma all_shift_q:
  assumes "c = 0 \<or> c = 1"
  shows "all \<lparr>low = shl32 (low q) 1 OR c, high = shl32 (high q) 1 OR shr32 (low q) 31\<rparr>
   = push_bit 1 (all q) OR ucast c"
  using assms
  by (intro bit_word_eqI)
    (auto simp: bit_all shl32_def shr32_def bit_or_iff bit_push_bit_iff bit_drop_bit_eq bit_1_iff not_less Suc_le_eq Suc_diff_le le_Suc_eq
       dest: bit_imp_le_length simp del: push_bit_Suc drop_bit_Suc)

lemma unat_shift_in:
  assumes "unat c \<le> 1" 
  shows "unat (push_bit 1 (x :: u64) OR c) = (unat x * 2) mod 2 ^ 64 + unat c"
proof -
  have c: "c = 0 \<or> c = 1"
    using assms by (auto simp: le_Suc_eq word_eq_iff_unsigned [where ?'a = nat])
  have "push_bit 1 x OR c = push_bit 1 x + c"
    using c by (intro disjunctive_add [symmetric]) (auto simp: bit_push_bit_iff bit_1_iff simp del: push_bit_Suc)
  moreover have "push_bit 1 x = x * 2" by (simp add: push_bit_eq_mult)
  ultimately have "unat (push_bit 1 x OR c) = ((unat x * 2) mod 2 ^ 64 + unat c) mod 2 ^ 64"
    by (simp add: unat_word_ariths)
  moreover have "(unat x * 2) mod 2 ^ 64 + unat c < 2 ^ 64"
    using assms mod_mult_mult2 [of "unat x" 2 "2 ^ 63"] mod_less_divisor [of "2 ^ 63" "unat x"] by simp
  ultimately show ?thesis by simp
qed

lemma bit63_iff: "bit (x :: u64) 63 \<longleftrightarrow> 2 ^ 63 \<le> unat x"
proof -
  have "bit x 63 \<longleftrightarrow> odd (unat x div 2 ^ 63)" unfolding bit_iff_odd [symmetric] by (simp add: bit_unsigned_iff)
  moreover have "unat x div 2 ^ 63 \<le> 1" using unat64_less[of x] by (simp add: less_Suc_eq_le[symmetric] div_less_iff_less_mult)
  ultimately have "bit x 63 \<longleftrightarrow> 0 < unat x div 2 ^ 63"
    by (auto simp: le_Suc_eq)
  then show ?thesis by (simp add: div_greater_zero_iff)
qed

lemma sign_mask: "signed_drop_bit 63 (x :: u64) = (if bit x 63 then - 1 else 0)"
  by (rule bit_word_eqI) (auto simp: bit_signed_drop_bit_iff not_le)

lemma compare_by_sign:
  fixes d r :: u64
  assumes "unat d < 2 ^ 63 \<and> unat r < 2 * unat d \<or> 2 ^ 63 \<le> unat d \<and> 2 ^ 63 \<le> unat r"
  shows "bit (d - r - 1) 63 \<longleftrightarrow> d \<le> r"
proof (cases "d \<le> r")
  case True
  have "unat (d - r - 1) = 2 ^ 64 - (unat r - unat d + 1)"
    using True assms unat64_less[of r] unat64_less[of d] by (auto simp: unat_sub_if' word_le_nat_alt unat_word_ariths)
  with True assms unat64_less[of r] show ?thesis by (auto simp: bit63_iff word_le_nat_alt)
next
  case False
  have "unat (d - r - 1) = unat d - unat r - 1"
    using False by (simp add: unat_sub_if' word_le_nat_alt unat_word_ariths)
  with False assms unat64_less[of d] show ?thesis by (auto simp: bit63_iff word_le_nat_alt)
qed

lemma scan_stops:
  fixes x :: u32
  assumes "x \<noteq> 0" "set xs = {..<32}"
  shows "length (takeWhile (\<lambda>i. \<not> bit x i) xs) < length xs"
    and "bit x (xs ! length (takeWhile (\<lambda>i. \<not> bit x i) xs))"
proof -
  have "\<exists>i < 32. bit x i"
  proof (rule ccontr)
    assume "\<not> (\<exists>i < 32. bit x i)"
    then have "x = 0" by (intro bit_word_eqI) auto
    with assms(1) show False by contradiction
  qed
  then show *: "length (takeWhile (\<lambda>i. \<not> bit x i) xs) < length xs"
    using assms(2) by (metis length_takeWhile_le lessThan_iff order_le_imp_less_or_eq takeWhile_eq_all_conv takeWhile_eq_take take_all_iff order_refl)
  show "bit x (xs ! length (takeWhile (\<lambda>i. \<not> bit x i) xs))"
    using nth_length_takeWhile [OF *] by simp
qed

lemma takeWhile_below: "i < length (takeWhile P xs) \<Longrightarrow> P (xs ! i)"
  by (metis nth_mem set_takeWhileD takeWhile_nth)

lemma builtin_clz_bounds:
  assumes "x \<noteq> 0"
  shows "builtin_clz x < 32" "2 ^ (31 - builtin_clz x) \<le> unat x" "unat x < 2 ^ (32 - builtin_clz x)"
proof -
  let ?k = "builtin_clz x"
  have nth: "rev [0..<32] ! i = 31 - i" if "i < 32" for i
    using that by (simp add: rev_nth)
  show k: "?k < 32" 
    using scan_stops(1) [OF assms, of "rev [0..<32]"] by (simp add: builtin_clz_def atLeast0LessThan)
  have "bit x (31 - ?k)"
    using scan_stops(2) [OF assms, of "rev [0..<32]"] nth [OF k] by (simp add: builtin_clz_def atLeast0LessThan)
  then have "odd (unat x div 2 ^ (31 - ?k))"
    unfolding bit_iff_odd [symmetric] by (simp add: bit_unsigned_iff)
  then show "2 ^ (31 - ?k) \<le> unat x" 
    using odd_pos by (fastforce simp: div_greater_zero_iff)
  have "\<not> bit x i" if "32 - ?k \<le> i" for i
  proof (cases "i < 32")
    case True
    then show ?thesis
      using takeWhile_below [of "31 - i" "\<lambda>i. \<not> bit x i" "rev [0..<32]"] that nth [of "31 - i"] k
      by (simp add: builtin_clz_def)
  next
    case False
    then show ?thesis using bit_imp_le_length [of x i] by auto
  qed
  then have "x = take_bit (32 - ?k) x" 
    by (intro bit_word_eqI) (auto simp: bit_take_bit_iff not_le [symmetric])
  then have "unat x = take_bit (32 - ?k) (unat x)" 
    by (metis unsigned_take_bit_eq)
  then show "unat x < 2 ^ (32 - ?k)"
    by (metis take_bit_nat_less_exp)
qed

lemma pred_div_double:
  fixes X p :: nat
  assumes "X mod (2 * p) = p" "0 < p"
  shows "(X - 1) div (2 * p) = X div (2 * p)"
proof -
  have "X = X div (2 * p) * (2 * p) + p"
    using div_mult_mod_eq [of X "2 * p"] assms(1) by simp
  then have "X - 1 = (p - 1) + X div (2 * p) * (2 * p)"
    using assms(2) by linarith
  then have "(X - 1) div (2 * p) = X div (2 * p) + (p - 1) div (2 * p)"
    using assms(2) div_mult_self1 [of "2 * p" "p - 1" "X div (2 * p)"] by simp
  then show ?thesis using assms(2) by simp
qed

lemma builtin_ctz_pow2:
  assumes "x \<noteq> 0" "x AND (x - 1) = 0"
  shows "builtin_ctz x < 32" "unat x = 2 ^ builtin_ctz x"
proof -
  let ?k = "builtin_ctz x" and ?X = "unat x"
  show k: "?k < 32"
    using scan_stops(1) [OF assms(1), of "[0..<32]"] by (simp add: builtin_ctz_def atLeast0LessThan)
  have bk: "bit ?X ?k"
    using scan_stops(2) [OF assms(1), of "[0..<32]"] k by (simp add: builtin_ctz_def atLeast0LessThan bit_unsigned_iff)
  have low: "\<not> bit ?X i" if "i < ?k" for i
    using takeWhile_below [of i "\<lambda>i. \<not> bit x i" "[0..<32]"] that k by (simp add: builtin_ctz_def bit_unsigned_iff)
  have "take_bit (Suc ?k) ?X = 2 ^ ?k"
    by (rule bit_eqI) (use bk low in \<open>auto simp: bit_take_bit_iff bit_exp_iff less_Suc_eq\<close>)
  then have eq: "(?X - 1) div 2 ^ Suc ?k = ?X div 2 ^ Suc ?k"
    using pred_div_double [of ?X "2 ^ ?k"] by (simp add: take_bit_eq_mod)
  have high: "\<not> bit ?X i" if "?k < i" for i
  proof -
    have "bit (?X - 1) i \<longleftrightarrow> bit ?X i"
      using that arg_cong [OF eq, of "\<lambda>n. odd (n div 2 ^ (i - Suc ?k))"]
      by (simp add: bit_iff_odd div_mult2_eq [symmetric] power_add [symmetric] del: power_Suc)
    moreover have "\<not> (bit ?X i \<and> bit (?X - 1) i)"
      using arg_cong [OF assms(2), of "\<lambda>w. bit (unat w) i"] assms(1)
      by (simp add: unsigned_and_eq bit_and_iff unat_minus_one)
    ultimately show ?thesis by blast
  qed
  show "?X = 2 ^ ?k"
    by (rule bit_eqI) (use bk low high in \<open>auto simp: bit_exp_iff dest: linorder_neqE_nat\<close>)
qed

text \<open>
  The loop invariant after the bits above position \<open>i\<close> of the dividend \<open>N\<close> are consumed: \<open>r\<close> is the
  remainder of those bits, \<open>q\<close> holds the unread bits on top of the quotient bits found so far and
  \<open>c\<close> is the quotient bit not yet shifted in.
\<close>

definition div_inv :: "nat \<Rightarrow> nat \<Rightarrow> nat \<Rightarrow> udwords \<times> udwords \<times> u32 \<Rightarrow> bool" where
  "div_inv N D i = (\<lambda>(r, q, c).
     unat (all r) = (N div 2 ^ i) mod D \<and>
     unat (all q) = (N mod 2 ^ i) * 2 ^ (64 - i) + N div 2 ^ i div D div 2 \<and>
     c = of_nat (N div 2 ^ i div D mod 2))"

lemma split_bit: "(N :: nat) div 2 ^ j = 2 * (N div 2 ^ Suc j) + N div 2 ^ j mod 2"
proof -
  have "N div 2 ^ Suc j = N div 2 ^ j div 2" by (simp only: power_Suc2 div_mult2_eq)
  then show ?thesis by simp
qed

lemma top_bit:
  fixes N D :: nat
  assumes "j < 63" "N < 2 ^ 64"
  shows "((N mod 2 ^ Suc j) * 2 ^ (64 - Suc j) + N div 2 ^ Suc j div D div 2) div 2 ^ 63 = N div 2 ^ j mod 2"
    and "((N mod 2 ^ Suc j) * 2 ^ (64 - Suc j) + N div 2 ^ Suc j div D div 2) * 2 mod 2 ^ 64
         = (N mod 2 ^ j) * 2 ^ (64 - j) + 2 * (N div 2 ^ Suc j div D div 2)"
proof -
  let ?Q = "N div 2 ^ Suc j div D div 2" and ?b = "N div 2 ^ j mod 2"
  have Nm: "N mod 2 ^ Suc j = ?b * 2 ^ j + N mod 2 ^ j"
    using mod_mult2_eq [of N "2 ^ j" 2] by (simp only: power_Suc2 mult.commute)
  have e1: "(2::nat) ^ 63 = 2 ^ j * 2 ^ (63 - j)" and e2: "(2::nat) ^ (64 - j) = 2 * 2 ^ (63 - j)"
    using assms(1) by (simp_all add: power_add [symmetric] power_Suc [symmetric] Suc_diff_le del: power_Suc)
  have "?Q \<le> N div 2 ^ Suc j div 2" 
    by (intro div_le_mono div_le_dividend)
  also have "\<dots> < 2 ^ (62 - j)" 
  proof -
    have "(2::nat) ^ 64 = 2 ^ (62 - j) * (2 ^ Suc j * 2)"
      using assms(1) by (simp only: power_Suc2 [symmetric] power_add [symmetric]) simp
    then show ?thesis
      using assms(2) unfolding div_mult2_eq [symmetric] by (intro less_mult_imp_div_less) (simp only:)
  qed
  finally have Q: "?Q < 2 ^ (62 - j)" .
  have p62: "(2::nat) ^ (63 - j) = 2 * 2 ^ (62 - j)" using assms(1) by (simp add: power_Suc [symmetric] Suc_diff_le del: power_Suc)
  have rest: "(N mod 2 ^ j) * 2 ^ (63 - j) + ?Q < 2 ^ 63"
  proof -
    have "N mod 2 ^ j + 1 \<le> 2 ^ j" by (simp add: Suc_leI)
    then have "(N mod 2 ^ j + 1) * 2 ^ (63 - j) \<le> 2 ^ 63" unfolding e1 by (rule mult_le_mono1)
    then show ?thesis using Q p62 by simp
  qed
  have eq: "(N mod 2 ^ Suc j) * 2 ^ (64 - Suc j) + ?Q = ?b * 2 ^ 63 + ((N mod 2 ^ j) * 2 ^ (63 - j) + ?Q)"
    unfolding Nm e1 using assms(1) by (simp add: algebra_simps)
  show "((N mod 2 ^ Suc j) * 2 ^ (64 - Suc j) + ?Q) div 2 ^ 63 = ?b"
    unfolding eq using rest by simp
  have "(?b * 2 ^ 63 + ((N mod 2 ^ j) * 2 ^ (63 - j) + ?Q)) * 2 = ?b * 2 ^ 64 + ((N mod 2 ^ j) * 2 ^ (63 - j) + ?Q) * 2"
    by simp
  moreover have "((N mod 2 ^ j) * 2 ^ (63 - j) + ?Q) * 2 < 2 ^ 64" using rest by simp
  ultimately show "((N mod 2 ^ Suc j) * 2 ^ (64 - Suc j) + ?Q) * 2 mod 2 ^ 64
         = (N mod 2 ^ j) * 2 ^ (64 - j) + 2 * ?Q"
    unfolding eq e2 by simp
qed

lemma double_div_mod:
  fixes M D b :: nat
  assumes "0 < D" "b \<le> 1"
  defines "S \<equiv> 2 * (M mod D) + b"
  shows "(2 * M + b) div D = 2 * (M div D) + (if D \<le> S then 1 else 0)"
    and "(2 * M + b) mod D = (if D \<le> S then S - D else S)"
proof -
  have S: "S < 2 * D" using assms(2) mod_less_divisor [OF assms(1), of M] by (simp add: S_def)
  have "2 * M = (2 * (M div D)) * D + 2 * (M mod D)"
    by (metis div_mult_mod_eq distrib_left mult.assoc)
  then have eq: "2 * M + b = S + (2 * (M div D)) * D" by (simp add: S_def)
  have SD: "S div D = (if D \<le> S then 1 else 0)" "S mod D = (if D \<le> S then S - D else S)"
    using S assms(1) by (auto simp: le_mod_geq le_div_geq)
  show "(2 * M + b) div D = 2 * (M div D) + (if D \<le> S then 1 else 0)"
    unfolding eq using assms(1) by (simp only: div_mult_self1 [OF less_imp_neq [OF assms(1), symmetric]] SD)
  show "(2 * M + b) mod D = (if D \<le> S then S - D else S)"
    unfolding eq by (simp only: mod_mult_self1 SD)
qed

lemma div_step_restore:
  fixes d :: u64 and r q :: udwords and c :: u32
  assumes c: "c = 0 \<or> c = 1"
    and S_def: "S = 2 * unat (all r) + unat (drop_bit 63 (all q))"
    and S: "S < 2 ^ 64" "S < 2 * unat d" and big: "unat d < 2 ^ 63 \<or> 2 ^ 63 \<le> S"
  obtains r' q' where "div_step d (r, q, c) = (r', q', if unat d \<le> S then 1 else 0)"
    "unat (all r') = (if unat d \<le> S then S - unat d else S)"
    "all q' = push_bit 1 (all q) OR ucast c"
proof -
  let ?r1 = "push_bit 1 (all r) OR drop_bit 63 (all q)"
  have "unat (drop_bit 63 (all q)) \<le> 1"
    unfolding unat_drop_bit_eq using unat64_less [of "all q"] by (simp add: drop_bit_eq_div less_Suc_eq_le [symmetric] div_less_iff_less_mult)
  then have r1: "unat ?r1 = S"
    using unat_shift_in [of "drop_bit 63 (all q)" "all r"] S(1) by (simp add: S_def mult.commute)
  have le: "d \<le> ?r1 \<longleftrightarrow> unat d \<le> S" by (simp only: word_le_nat_alt r1)
  have "bit (d - ?r1 - 1) 63 \<longleftrightarrow> d \<le> ?r1"
    using S(2) big by (intro compare_by_sign, unfold r1) (simp only: simp_thms linorder_not_less [symmetric], blast)
  then have sign: "signed_drop_bit 63 (d - ?r1 - 1) = (if unat d \<le> S then - 1 else (0 :: u64))"
    unfolding sign_mask le by simp
  have step: "div_step d (r, q, c) =
      (udwords_of (?r1 - (d AND (if unat d \<le> S then - 1 else 0))),
       \<lparr>low = shl32 (low q) 1 OR c, high = shl32 (high q) 1 OR shr32 (low q) 31\<rparr>,
       if unat d \<le> S then 1 else 0)"
    unfolding div_step_def Let_def prod.case all_shift_r sign by simp
  show ?thesis
  proof (rule that [OF step])
    show "unat (all (udwords_of (?r1 - (d AND (if unat d \<le> S then - 1 else 0))))) =
      (if unat d \<le> S then S - unat d else S)"
      using r1 by (auto simp: unat_sub_if' simp del: One_nat_def)
  qed (rule all_shift_q [OF c])
qed

lemma div_step_inv:
  assumes inv: "div_inv N D (Suc j) (r, q, c)"
    and j: "j < 63" and N: "N < 2 ^ 64" and D: "D = unat d" "0 < D"
    and big: "D < 2 ^ 63 \<or> j = 0 \<and> 2 ^ 63 \<le> N"
  shows "div_inv N D j (div_step d (r, q, c))"
proof -
  define M where "M = N div 2 ^ Suc j"
  define b where "b = N div 2 ^ j mod 2"
  define S where "S = 2 * (M mod D) + b"
  have r: "unat (all r) = M mod D" and c: "c = of_nat (M div D mod 2)"
    and q: "unat (all q) = (N mod 2 ^ Suc j) * 2 ^ (64 - Suc j) + M div D div 2" 
    using inv by (simp_all only: div_inv_def prod.case M_def)
  have c01: "c = 0 \<or> c = 1" unfolding c by (cases "even (M div D)") (simp_all add: mod2_eq_if)
  have qb: "unat (drop_bit 63 (all q)) = b"
    unfolding unat_drop_bit_eq q M_def b_def by (simp only: drop_bit_eq_div top_bit(1) [OF j N])
  have Nj: "N div 2 ^ j = 2 * M + b" unfolding M_def b_def by (rule split_bit)
  have b1: "b \<le> 1" by (simp add: b_def)
  have "S \<le> 2 * M + b" by (simp add: S_def)
  also have "\<dots> < 2 ^ 64" unfolding Nj [symmetric] by (rule le_less_trans [OF div_le_dividend N])
  finally have S64: "S < 2 ^ 64" .
  have SD: "S < 2 * D" using b1 mod_less_divisor [OF D(2), of M] by (simp add: S_def)
  have top: "D < 2 ^ 63 \<or> 2 ^ 63 \<le> S"
  proof (cases "D < 2 ^ 63")
    case False
    with big have j0: "j = 0" and N63: "2 ^ 63 \<le> N" by auto
    have "M < D" using False N j0 by (simp add: M_def not_less)
    then have "S = N" using Nj j0 by (simp add: S_def)
    with N63 show ?thesis by simp
  qed simp
  have "S = 2 * unat (all r) + unat (drop_bit 63 (all q))" unfolding r qb S_def ..
  from div_step_restore [OF c01 this S64 SD [unfolded D(1)] top [unfolded D(1)], folded D(1)]
  obtain r' q' where step: "div_step d (r, q, c) = (r', q', if D \<le> S then 1 else 0)"
    and r': "unat (all r') = (if D \<le> S then S - D else S)" and q': "all q' = push_bit 1 (all q) OR ucast c"
    by blast
  have uc: "unat (ucast c :: u64) = M div D mod 2"
    unfolding c by (cases "even (M div D)") (simp_all add: mod2_eq_if)
  have "unat (all q') = unat (all q) * 2 mod 2 ^ 64 + M div D mod 2"
    unfolding q' using unat_shift_in [of "ucast c" "all q"] uc by simp
  also have "\<dots> = (N mod 2 ^ j) * 2 ^ (64 - j) + 2 * (M div D div 2) + M div D mod 2"
    unfolding q M_def top_bit(2) [OF j N, of D] by simp
  finally have q1: "unat (all q') = (N mod 2 ^ j) * 2 ^ (64 - j) + M div D" by simp
  note dm = double_div_mod [OF D(2) b1, of M, folded S_def]
  have "(2 * M + b) div D div 2 = M div D" unfolding dm by simp
  moreover have "(2 * M + b) div D mod 2 = (if D \<le> S then 1 else 0)" unfolding dm by simp
  ultimately show ?thesis
    unfolding step div_inv_def prod.case Nj using q1 r' dm(2) by simp
qed

lemma div_loop_inv:
  assumes "div_inv N (unat d) i st" "i \<le> 63" "N < 2 ^ 64" "d \<noteq> 0"
    and "unat d < 2 ^ 63 \<or> i \<le> 1 \<and> 2 ^ 63 \<le> N"
  shows "div_inv N (unat d) 0 (div_loop i d st)"
  using assms
proof (induction i arbitrary: st)
  case (Suc j)
  obtain r q c where st: "st = (r, q, c)" by (cases st)
  have "div_inv N (unat d) j (div_step d (r, q, c))"
    using Suc.prems unfolding st by (intro div_step_inv) (auto simp: unat_gt_0)
  moreover have "unat d < 2 ^ 63 \<or> j \<le> 1 \<and> 2 ^ 63 \<le> N" using Suc.prems(5) by auto
  ultimately show ?case using Suc.prems Suc.IH by (simp add: st)
qed simp

lemma div_inv_init:
  assumes "all r = drop_bit i a" "all q = push_bit (64 - i) a" "i \<le> 64" "unat a div 2 ^ i < D"
  shows "div_inv (unat a) D i (r, q, 0)"
proof -
  have "(unat a * 2 ^ (64 - i)) mod 2 ^ 64 = (unat a * 2 ^ (64 - i)) mod (2 ^ i * 2 ^ (64 - i))"
    using assms(3) by (simp only: power_add [symmetric] le_add_diff_inverse)
  also have "\<dots> = (unat a mod 2 ^ i) * 2 ^ (64 - i)" by (rule mod_mult_mult2)
  finally have "unat (push_bit (64 - i) a) = (unat a mod 2 ^ i) * 2 ^ (64 - i)"
    by (subst unsigned_push_bit_eq) (simp add: take_bit_eq_mod push_bit_eq_mult)
  moreover have "unat (drop_bit i a) = unat a div 2 ^ i"
    by (subst unat_drop_bit_eq) (rule drop_bit_eq_div)
  ultimately show ?thesis using assms(4) by (simp add: div_inv_def assms(1,2))
qed

lemma div_finish_inv:
  assumes "div_inv (unat a) (unat b) 0 st"
  shows "div_finish st = (a div b, a mod b)"
proof -
  obtain r q c where st: "st = (r, q, c)" by (cases st)
  let ?Q = "unat a div unat b"
  have r: "unat (all r) = unat a mod unat b" and q: "unat (all q) = ?Q div 2" and c: "c = of_nat (?Q mod 2)"
    using assms by (auto simp: st div_inv_def)
  have uc: "unat (ucast c :: u64) = ?Q mod 2"
    unfolding c by (cases "even ?Q") (simp_all add: mod2_eq_if)
  have "?Q < 2 ^ 64" using le_less_trans [OF div_le_dividend unat64_less] by simp
  then have small: "?Q div 2 * 2 mod 2 ^ 64 = ?Q div 2 * 2" by (intro mod_less) (use div_mult_mod_eq [of ?Q 2] in linarith)
  have "unat (push_bit 1 (all q) OR ucast c) = ?Q"
    using unat_shift_in [of "ucast c" "all q"] uc q small by (simp del: push_bit_Suc)
  then have "push_bit 1 (all q) OR ucast c = a div b"
    by (simp only: word_eq_iff_unsigned [where ?'a = nat] unat_div_distrib)
  moreover have "all r = a mod b"
    by (simp only: word_eq_iff_unsigned [where ?'a = nat] unat_mod_distrib r)
  ultimately show ?thesis by (simp add: st div_finish_def del: push_bit_Suc)
qed

lemma run_correct:
  assumes "all r = drop_bit i a" "all q = push_bit (64 - i) a" "i \<le> 63" "unat a div 2 ^ i < unat b" 
    and "unat b < 2 ^ 63 \<or> i \<le> 1 \<and> 2 ^ 63 \<le> unat a"
  shows "div_finish (div_loop i b (r, q, 0)) = (a div b, a mod b)"
proof (rule div_finish_inv, rule div_loop_inv)
  show "div_inv (unat a) (unat b) i (r, q, 0)" by (rule div_inv_init) (use assms in auto)
  show "unat a < 2 ^ 64" using unat64_less [of a] by simp
  show "b \<noteq> 0" using assms(4) by auto
qed (use assms in auto)

lemma all_drop_low:
  assumes "unat sr = k" "0 < k" "k < 32"
  shows "all \<lparr>low = shl32 (high n) (32 - sr) OR shr32 (low n) sr, high = shr32 (high n) sr\<rparr> = drop_bit k (all n)"
    and "all \<lparr>low = 0, high = shl32 (low n) (32 - sr)\<rparr> = push_bit (64 - k) (all n)"
proof -
  have k: "unat (32 - sr) = 32 - k" using assms by (simp add: unat_sub_if' word_le_nat_alt)
  show "all \<lparr>low = shl32 (high n) (32 - sr) OR shr32 (low n) sr, high = shr32 (high n) sr\<rparr> = drop_bit k (all n)"
    by (rule bit_word_eqI) 
      (use assms(2,3) in \<open>auto simp: bit_all shl32_def shr32_def k assms(1) bit_or_iff bit_push_bit_iff bit_drop_bit_eq not_less ac_simps
       dest: bit_imp_le_length\<close>)
  show "all \<lparr>low = 0, high = shl32 (low n) (32 - sr)\<rparr> = push_bit (64 - k) (all n)"
    by (rule bit_word_eqI) 
      (use assms(2,3) in \<open>auto simp: bit_all shl32_def shr32_def k assms(1) bit_or_iff bit_push_bit_iff bit_drop_bit_eq not_less ac_simps
       dest: bit_imp_le_length\<close>)
qed

lemma all_drop_high:
  assumes "unat sr = k" "32 < k" "k < 64"
  shows "all \<lparr>low = shr32 (high n) (sr - 32), high = 0\<rparr> = drop_bit k (all n)"
    and "all \<lparr>low = shl32 (low n) (64 - sr), high = shl32 (high n) (64 - sr) OR shr32 (low n) (sr - 32)\<rparr>
      = push_bit (64 - k) (all n)"
proof -
  have k: "unat (sr - 32) = k - 32" "unat (64 - sr) = 64 - k"
    using assms by (simp_all add: unat_sub_if' word_le_nat_alt)
  show "all \<lparr>low = shr32 (high n) (sr - 32), high = 0\<rparr> = drop_bit k (all n)"
    by (rule bit_word_eqI) 
      (use assms(2,3) in \<open>auto simp: bit_all shl32_def shr32_def k assms(1) bit_or_iff bit_push_bit_iff bit_drop_bit_eq not_less ac_simps
       dest: bit_imp_le_length\<close>)
  show "all \<lparr>low = shl32 (low n) (64 - sr), high = shl32 (high n) (64 - sr) OR shr32 (low n) (sr - 32)\<rparr>
      = push_bit (64 - k) (all n)"
    by (rule bit_word_eqI) 
      (use assms(2,3) in \<open>auto simp: bit_all shl32_def shr32_def k assms(1) bit_or_iff bit_push_bit_iff bit_drop_bit_eq not_less ac_simps
       dest: bit_imp_le_length\<close>)
qed

lemma all_drop_32:
  "all \<lparr>low = high n, high = 0\<rparr> = drop_bit 32 (all n)"
  "all \<lparr>low = 0, high = low n\<rparr> = push_bit 32 (all n)"
  by (rule bit_word_eqI; auto simp: bit_all bit_push_bit_iff bit_drop_bit_eq not_less ac_simps dest: bit_imp_le_length)+

lemma word_div_small: "unat (a :: 'a::len word) < unat b \<Longrightarrow> a div b = 0 \<and> a mod b = a"
  by (simp add: word_eq_iff_unsigned [where ?'a = nat] unat_div_distrib unat_mod_distrib)

lemma clz_order:
  assumes "x \<noteq> 0" "y \<noteq> 0"
  shows "builtin_clz y < builtin_clz x \<Longrightarrow> unat x < unat y"
    and "unat y < 2 ^ Suc (builtin_clz x - builtin_clz y) * unat x"
proof -
  note bx = builtin_clz_bounds [OF assms(1)] and by' = builtin_clz_bounds [OF assms(2)]
  show "unat x < unat y" if "builtin_clz y < builtin_clz x"
  proof -
    have "(2::nat) ^ (32 - builtin_clz x) \<le> 2 ^ (31 - builtin_clz y)"
      using that bx(1) by (intro power_increasing) auto
    with bx(3) by'(2) show ?thesis by linarith
  qed
  have "(2::nat) ^ (32 - builtin_clz y) \<le> 2 ^ (Suc (builtin_clz x - builtin_clz y) + (31 - builtin_clz x))"
    using bx(1) by'(1) by (intro power_increasing) auto
  also have "\<dots> \<le> 2 ^ Suc (builtin_clz x - builtin_clz y) * unat x"
    unfolding power_add by (intro mult_le_mono2 bx(2))
  finally show "unat y < 2 ^ Suc (builtin_clz x - builtin_clz y) * unat x"
    using by'(3) by linarith
qed

lemma of_nat_diff_small:
  assumes "x < 32" "y < 32"
  shows "of_nat x - of_nat y > (30 :: u32) \<longleftrightarrow> x < y \<or> y + 30 < x"
    and "of_nat x - of_nat y > (31 :: u32) \<longleftrightarrow> x < y"
    and "y \<le> x \<Longrightarrow> unat (of_nat x - of_nat y + 1 :: u32) = Suc (x - y)"
proof -
  have u: "unat (of_nat x :: u32) = x" "unat (of_nat y :: u32) = y"
    using assms by (simp_all add: unat_of_nat)
  have d: "unat (of_nat x - of_nat y :: u32) = (if y \<le> x then x - y else x + 4294967296 - y)"
    unfolding unat_sub_if' u by simp
  have l: "unat (30 :: u32) = 30" "unat (31 :: u32) = 31" by simp_all
  show "of_nat x - of_nat y > (30 :: u32) \<longleftrightarrow> x < y \<or> y + 30 < x"
    unfolding word_less_nat_alt d l using assms by (cases "y \<le> x") (simp_all, linarith+)
  show "of_nat x - of_nat y > (31 :: u32) \<longleftrightarrow> x < y"
    unfolding word_less_nat_alt d l using assms by (cases "y \<le> x") simp_all
  show "unat (of_nat x - of_nat y + 1 :: u32) = Suc (x - y)" if "y \<le> x"
  proof -
    have "unat (of_nat x - of_nat y :: u32) + unat (1 :: u32) < 2 ^ 32"
      unfolding d using that assms by simp
    then show ?thesis using that unat_add_lem [of "of_nat x - of_nat y :: u32" 1]
      by (simp only: len_num0 len_num1 len_bit0 d) simp
  qed
qed

section \<open>The branches\<close>

lemma pair_eqI:
  fixes a b :: u64
  assumes "unat q = unat a div unat b" "unat r = unat a mod unat b"
  shows "(q, r) = (a div b, a mod b)"
  using assms by (simp only: word_eq_iff_unsigned [where ?'a = nat] unat_div_distrib unat_mod_distrib prod.inject)

lemma udw [simp]: "low (udwords_of (all n)) = low n" "high (udwords_of (all n)) = high n"
proof -
  show "low (udwords_of (all n)) = low n"
    by (rule bit_word_eqI) (auto simp: udwords_of_def bit_all bit_ucast_iff)
  show "high (udwords_of (all n)) = high n"
    by (rule bit_word_eqI) (auto simp: udwords_of_def bit_all bit_ucast_iff bit_drop_bit_eq)
qed

lemma unat_ucast_up: "unat (ucast (x :: u32) :: u64) = unat x"
  using unat32_less [of x] by (simp add: unsigned_ucast_eq take_bit_nat_eq_self)

lemma mask_pow2:
  assumes "x \<noteq> 0" "x AND (x - 1) = 0"
  shows "unat (y AND (x - 1)) = unat y mod unat (x :: u32)"
proof -
  have "unat (x - 1) = 2 ^ builtin_ctz x - 1"
    using assms builtin_ctz_pow2 [OF assms] by (simp add: unat_minus_one)
  then have "unat (y AND (x - 1)) = take_bit (builtin_ctz x) (unat y)"
    by (simp only: unsigned_and_eq take_bit_eq_mask mask_eq_exp_minus_1)
  then show ?thesis by (simp only: take_bit_eq_mod builtin_ctz_pow2(2) [OF assms])
qed

lemma high_ge: "unat (high n) * 2 ^ 32 \<le> unat (all n)" "unat (all n) < 2 ^ 32 * Suc (unat (high n))"
  using unat32_less [of "low n"] by (simp_all add: unat_all)

lemma branch_small:
  "high n = 0 \<Longrightarrow> high d = 0 \<Longrightarrow> low d \<noteq> 0 \<Longrightarrow> 
   (ucast (low n div low d), ucast (low n mod low d)) = (all n div all d, all n mod all d)"
  by (rule pair_eqI) (simp_all add: unat_ucast_up unat_all unat_div_distrib unat_mod_distrib)

lemma branch_less:
  assumes "unat (high n) < unat (high d)"
  shows "(0, all n) = (all n div all d, all n mod all d)"
proof -
  have "unat (all n) < 2 ^ 32 * Suc (unat (high n))" by (rule high_ge)
  also have "\<dots> \<le> unat (all d)"
    using high_ge(1) [of d] mult_le_mono2 [OF Suc_leI [OF assms], of "2 ^ 32"]
    by (simp only: mult.commute)
  finally show ?thesis using word_div_small by metis
qed

lemma branch_low_zero:
  assumes "low n = 0" "low d = 0"
  shows "(ucast (high n div high d), all \<lparr>low = 0, high = high n mod high d\<rparr>) = (all n div all d, all n mod all d)"
  by (rule pair_eqI) (simp_all add: assms unat_ucast_up unat_all unat_div_distrib unat_mod_distrib)

lemma branch_high_pow2:
  assumes "low d = 0" "high d \<noteq> 0" "high d AND (high d - 1) = 0"
  shows "(ucast (shr32 (high n) (of_nat (builtin_ctz (high d)))), all \<lparr>low = low n, high = high n AND (high d - 1)\<rparr>)
    = (all n div all d, all n mod all d)"
proof (rule pair_eqI)
  note k = builtin_ctz_pow2 [OF assms(2,3)]
  have "unat (of_nat (builtin_ctz (high d)) :: u32) = builtin_ctz (high d)"
    using k(1) by (simp add: unat_of_nat)
  then have "unat (shr32 (high n) (of_nat (builtin_ctz (high d)))) = unat (high n) div unat (high d)"
    unfolding shr32_def k(2) unat_drop_bit_eq by (simp only: drop_bit_eq_div)
  moreover have dm: "unat (all n) div 2 ^ 32 = unat (high n)" "unat (all n) mod 2 ^ 32 = unat (low n)"
    using unat32_less [of "low n"] by (simp_all add: unat_all)
  moreover have b: "unat (all d) = 2 ^ 32 * unat (high d)" by (simp add: unat_all assms(1))
  ultimately show "unat (ucast (shr32 (high n) (of_nat (builtin_ctz (high d)))) :: u64) = unat (all n) div unat (all d)"
    unfolding b div_mult2_eq by (simp only: unat_ucast_up)
  show "unat (all \<lparr>low = low n, high = high n AND (high d - 1)\<rparr>) = unat (all n) mod unat (all d)"
    unfolding b mod_mult2_eq dm by (simp add: unat_all mask_pow2 [OF assms(2,3)])
qed

lemma branch_low_pow2:
  assumes "high d = 0" "low d \<noteq> 0" "low d AND (low d - 1) = 0"
  shows "low d = 1 \<Longrightarrow> (all n, ucast (low n AND (low d - 1))) = (all n div all d, all n mod all d)"
    and "low d \<noteq> 1 \<Longrightarrow> sr = of_nat (builtin_ctz (low d)) \<Longrightarrow>
      (all \<lparr>low = shl32 (high n) (32 - sr) OR shr32 (low n) sr, high = shr32 (high n) sr\<rparr>, ucast (low n AND (low d - 1)))
      = (all n div all d, all n mod all d)"
proof -
  note k = builtin_ctz_pow2 [OF assms(2,3)]
  have b: "unat (all d) = unat (low d)" by (simp add: unat_all assms(1))
  have "(2::nat) ^ 32 = 2 ^ (32 - builtin_ctz (low d)) * unat (low d)"
    unfolding k(2) power_add [symmetric] using k(1) by simp
  then have "unat (all n) mod unat (low d) = unat (low n) mod unat (low d)"
    unfolding unat_all by (metis mod_mult_self3 mult.assoc)
  then have r: "unat (ucast (low n AND (low d - 1)) :: u64) = unat (all n) mod unat (all d)"
    by (simp only: unat_ucast_up mask_pow2 [OF assms(2,3)] b)
  show "(all n, ucast (low n AND (low d - 1))) = (all n div all d, all n mod all d)" if "low d = 1"
    by (rule pair_eqI) (simp_all only: r, simp add: b that)
  assume "low d \<noteq> 1" and sr: "sr = of_nat (builtin_ctz (low d))"
  then have "unat (low d) \<noteq> 1" by (metis unat_1 word_unat_eq_iff)
  then have pos: "0 < builtin_ctz (low d)" using k(2) by (cases "builtin_ctz (low d)") auto
  have "unat sr = builtin_ctz (low d)" using k(1) by (simp add: sr unat_of_nat)
  note all_drop_low(1) [OF this pos k(1), of n]
  moreover have "unat (drop_bit (builtin_ctz (low d)) (all n)) = unat (all n) div unat (all d)"
    unfolding b k(2) by (subst unat_drop_bit_eq) (rule drop_bit_eq_div)
  ultimately show "(all \<lparr>low = shl32 (high n) (32 - sr) OR shr32 (low n) sr, high = shr32 (high n) sr\<rparr>, 
    ucast (low n AND (low d - 1))) = (all n div all d, all n mod all d)"
    by (intro pair_eqI r) simp
qed

lemma clz_big: "x \<noteq> 0 \<Longrightarrow> 2 ^ 31 \<le> unat x \<longleftrightarrow> builtin_clz x = 0"
proof
  assume x: "x \<noteq> 0" and "2 ^ 31 \<le> unat x"
  with builtin_clz_bounds(3) [OF x] have "(2::nat) ^ 31 < 2 ^ (32 - builtin_clz x)" by linarith
  then have "31 < 32 - builtin_clz x" by (subst (asm) power_strict_increasing_iff) simp_all
  then show "builtin_clz x = 0" by simp
qed (use builtin_clz_bounds(2) [of x] in simp)

text \<open>The shift count of the branches with a nonzero high divisor word.\<close>

lemma run_high:
  assumes n: "high n \<noteq> 0" and d: "high d \<noteq> 0"
    and le: "builtin_clz (high n) \<le> builtin_clz (high d)"
    and k: "k = Suc (builtin_clz (high d) - builtin_clz (high n))"
    and r: "all r = drop_bit k (all n)" "all q = push_bit (64 - k) (all n)"
  shows "div_finish (div_loop k (all d) (r, q, 0)) = (all n div all d, all n mod all d)"
proof (rule run_correct [OF r])
  note cd = builtin_clz_bounds(1) [OF d] and cn = builtin_clz_bounds(1) [OF n]
  show "k \<le> 63" using cd k by simp
  have "unat (all n) < 2 ^ 32 * Suc (unat (high n))" by (rule high_ge)
  also have "\<dots> \<le> 2 ^ 32 * (2 ^ k * unat (high d))"
    using clz_order(2) [OF d n] unfolding k by (intro mult_le_mono2) (rule Suc_leI)
  also have "\<dots> \<le> unat (all d) * 2 ^ k"
    using mult_le_mono1 [OF high_ge(1) [of d], of "2 ^ k"] by (simp only: mult_ac)
  finally show "unat (all n) div 2 ^ k < unat (all d)" by (rule less_mult_imp_div_less)
  show "unat (all d) < 2 ^ 63 \<or> k \<le> 1 \<and> 2 ^ 63 \<le> unat (all n)"
  proof (cases "builtin_clz (high d) = 0")
    case True
    then have "2 ^ 31 \<le> unat (high n)" "k \<le> 1" using le k clz_big [OF n] by simp_all
    then show ?thesis using high_ge(1) [of n] by simp
  next
    case False
    then have "unat (high d) < 2 ^ 31" using clz_big [OF d] by simp
    then show ?thesis using high_ge(2) [of d] by simp
  qed
qed

lemma run_low:
  assumes n: "high n \<noteq> 0" and d: "high d = 0" "low d \<noteq> 0"
    and k: "k = 33 + builtin_clz (low d) - builtin_clz (high n)" "k \<le> 63"
    and r: "all r = drop_bit k (all n)" "all q = push_bit (64 - k) (all n)"
  shows "div_finish (div_loop k (all d) (r, q, 0)) = (all n div all d, all n mod all d)"
proof (rule run_correct [OF r k(2)])
  note cd = builtin_clz_bounds [OF d(2)] and cn = builtin_clz_bounds [OF n]
  have b: "unat (all d) = unat (low d)" by (simp add: unat_all d)
  have "unat (all n) < 2 ^ 32 * Suc (unat (high n))" by (rule high_ge)
  also have "\<dots> \<le> 2 ^ 32 * 2 ^ (32 - builtin_clz (high n))"
    using cn(3) by (intro mult_le_mono2) (rule Suc_leI)
  also have "\<dots> = 2 ^ (31 - builtin_clz (low d)) * 2 ^ k"
    unfolding power_add [symmetric] k(1) using cd(1) cn(1) by simp
  also have "\<dots> \<le> unat (all d) * 2 ^ k" unfolding b by (intro mult_le_mono1 cd(2))
  finally show "unat (all n) div 2 ^ k < unat (all d)" by (rule less_mult_imp_div_less)
  show "unat (all d) < 2 ^ 63 \<or> k \<le> 1 \<and> 2 ^ 63 \<le> unat (all n)"
    using unat32_less [of "low d"] by (simp add: b)
qed

lemma clz_not_pow2:
  assumes "x \<noteq> 0" "x AND (x - 1) \<noteq> 0"
  shows "builtin_clz x \<le> 30"
proof (rule ccontr)
  assume "\<not> builtin_clz x \<le> 30"
  with builtin_clz_bounds(1) [OF assms(1)] have "builtin_clz x = 31" by simp
  with builtin_clz_bounds(3) [OF assms(1)] have "unat x < 2" by simp
  moreover have "unat x \<noteq> 0" using assms(1) by (simp add: unat_eq_zero)
  ultimately have "unat x = unat (1 :: u32)" by simp
  then have "x = 1" by (simp only: word_unat_eq_iff)
  with assms(2) show False by simp
qed

lemma sr_low:
  assumes "x \<le> 30" "y < 32"
  shows "unat (1 + 32 + of_nat x - of_nat y :: u32) = 33 + x - y"
proof -
  have "unat (of_nat x :: u32) = x" and y: "unat (of_nat y :: u32) = y"
    using assms by (simp_all add: unat_of_nat)
  then have s: "unat (33 + of_nat x :: u32) = 33 + x"
    using assms unat_add_lem [of "33 :: u32" "of_nat x"] by simp
  then have "unat (33 + of_nat x - of_nat y :: u32) = 33 + x - y"
    unfolding unat_sub_if' y using assms by simp
  then show ?thesis by simp
qed

lemma branch_high_run:
  assumes "high n \<noteq> 0" "high d \<noteq> 0" "builtin_clz (high n) \<le> builtin_clz (high d)"
    and sr: "sr = of_nat (builtin_clz (high d)) - of_nat (builtin_clz (high n)) + 1"
  shows "sr = 32 \<Longrightarrow> div_finish (div_loop (unat sr) (all d)
      (\<lparr>low = high n, high = 0\<rparr>, \<lparr>low = 0, high = low n\<rparr>, 0)) = (all n div all d, all n mod all d)"
    and "sr \<noteq> 32 \<Longrightarrow> div_finish (div_loop (unat sr) (all d)
      (\<lparr>low = shl32 (high n) (32 - sr) OR shr32 (low n) sr, high = shr32 (high n) sr\<rparr>, 
       \<lparr>low = 0, high = shl32 (low n) (32 - sr)\<rparr>, 0)) = (all n div all d, all n mod all d)"
proof -
  have k: "unat sr = Suc (builtin_clz (high d) - builtin_clz (high n))" unfolding sr
    using assms(3) builtin_clz_bounds(1) [OF assms(1)] builtin_clz_bounds(1) [OF assms(2)]
    by (intro of_nat_diff_small(3))
  show "div_finish (div_loop (unat sr) (all d)
      (\<lparr>low = high n, high = 0\<rparr>, \<lparr>low = 0, high = low n\<rparr>, 0)) = (all n div all d, all n mod all d)"
    if "sr = 32"
    by (rule run_high [OF assms(1-3) k]) (simp_all add: that all_drop_32)
  assume "sr \<noteq> 32"
  then have "unat sr \<noteq> unat (32 :: u32)" by (simp only: word_unat_eq_iff not_False_eq_True)
  with k builtin_clz_bounds(1) [OF assms(2)] have "0 < unat sr" "unat sr < 32" by simp_all
  note all_drop_low [OF refl this, of n]
  then show "div_finish (div_loop (unat sr) (all d)
      (\<lparr>low = shl32 (high n) (32 - sr) OR shr32 (low n) sr, high = shr32 (high n) sr\<rparr>, 
       \<lparr>low = 0, high = shl32 (low n) (32 - sr)\<rparr>, 0)) = (all n div all d, all n mod all d)"
    by (rule run_high [OF assms(1-3) k])
qed

lemma branch_low_run:
  assumes n: "high n \<noteq> 0" and d: "high d = 0" "low d \<noteq> 0" "low d AND (low d - 1) \<noteq> 0"
    and sr: "sr = 1 + 32 + of_nat (builtin_clz (low d)) - of_nat (builtin_clz (high n))"
  shows "sr = 32 \<Longrightarrow> div_finish (div_loop (unat sr) (all d)
      (\<lparr>low = high n, high = 0\<rparr>, \<lparr>low = 0, high = low n\<rparr>, 0)) = (all n div all d, all n mod all d)"
    and "sr < 32 \<Longrightarrow> div_finish (div_loop (unat sr) (all d)
      (\<lparr>low = shl32 (high n) (32 - sr) OR shr32 (low n) sr, high = shr32 (high n) sr\<rparr>, 
       \<lparr>low = 0, high = shl32 (low n) (32 - sr)\<rparr>, 0)) = (all n div all d, all n mod all d)"
    and "sr \<noteq> 32 \<Longrightarrow> \<not> sr < 32 \<Longrightarrow> div_finish (div_loop (unat sr) (all d)
      (\<lparr>low = shr32 (high n) (sr - 32), high = 0\<rparr>,
       \<lparr>low = shl32 (low n) (64 - sr), high = shl32 (high n) (64 - sr) OR shr32 (low n) (sr - 32)\<rparr>, 0))
      = (all n div all d, all n mod all d)"
proof -
  have k: "unat sr = 33 + builtin_clz (low d) - builtin_clz (high n)" unfolding sr
    by (rule sr_low [OF clz_not_pow2 [OF d(2,3)] builtin_clz_bounds(1) [OF n]])
  have k63: "unat sr \<le> 63" "0 < unat sr"
    using k clz_not_pow2 [OF d(2,3)] builtin_clz_bounds(1) [OF n] by simp_all
  have l: "unat (32 :: u32) = 32" by simp
  note run = run_low [OF n d(1,2) k k63(1)]
  show "div_finish (div_loop (unat sr) (all d)
      (\<lparr>low = high n, high = 0\<rparr>, \<lparr>low = 0, high = low n\<rparr>, 0)) = (all n div all d, all n mod all d)"
    if "sr = 32"
    by (rule run) (simp_all add: that all_drop_32)
  show "div_finish (div_loop (unat sr) (all d)
      (\<lparr>low = shl32 (high n) (32 - sr) OR shr32 (low n) sr, high = shr32 (high n) sr\<rparr>, 
       \<lparr>low = 0, high = shl32 (low n) (32 - sr)\<rparr>, 0)) = (all n div all d, all n mod all d)"
    if "sr < 32"
    using that k63(2) unfolding word_less_nat_alt l by (intro run all_drop_low) simp_all
  assume "sr \<noteq> 32" "\<not> sr < 32"
  then have "32 < unat sr" unfolding word_unat_eq_iff word_less_nat_alt l by linarith
  then show "div_finish (div_loop (unat sr) (all d)
      (\<lparr>low = shr32 (high n) (sr - 32), high = 0\<rparr>,
       \<lparr>low = shl32 (low n) (64 - sr), high = shl32 (high n) (64 - sr) OR shr32 (low n) (sr - 32)\<rparr>, 0))
      = (all n div all d, all n mod all d)"
    using k63(1) by (intro run all_drop_high) simp_all
qed

lemma all_eq_0_iff: "all d = 0 \<longleftrightarrow> low d = 0 \<and> high d = 0"
  by (simp add: word_unat_eq_iff [of "all d"] unat_all unat_eq_zero) (auto simp: word_unat_eq_iff)

lemma clz_less:
  "high n \<noteq> 0 \<Longrightarrow> high d \<noteq> 0 \<Longrightarrow> builtin_clz (high d) < builtin_clz (high n) \<Longrightarrow>
   (0, all n) = (all n div all d, all n mod all d)"
  by (rule branch_less) (rule clz_order(1))

lemma sr_tests:
  assumes "high n \<noteq> 0" "high d \<noteq> 0"
  defines "sr \<equiv> of_nat (builtin_clz (high d)) - of_nat (builtin_clz (high n)) :: u32"
  shows "sr > 31 \<longleftrightarrow> builtin_clz (high d) < builtin_clz (high n)"
    and "high d AND (high d - 1) \<noteq> 0 \<Longrightarrow> sr > 30 \<longleftrightarrow> builtin_clz (high d) < builtin_clz (high n)"
    and "high d AND (high d - 1) \<noteq> 0 \<Longrightarrow> \<not> sr > 30 \<Longrightarrow> sr + 1 \<noteq> 32"
proof -
  note c = builtin_clz_bounds(1) [OF assms(1)] builtin_clz_bounds(1) [OF assms(2)]
  show "sr > 31 \<longleftrightarrow> builtin_clz (high d) < builtin_clz (high n)"
    unfolding sr_def by (rule of_nat_diff_small(2) [OF c(2,1)])
  assume p: "high d AND (high d - 1) \<noteq> 0"
  show *: "sr > 30 \<longleftrightarrow> builtin_clz (high d) < builtin_clz (high n)"
    unfolding sr_def of_nat_diff_small(1) [OF c(2,1)] using clz_not_pow2 [OF assms(2) p] by linarith
  assume "\<not> sr > 30"
  with * have le: "builtin_clz (high n) \<le> builtin_clz (high d)" by simp
  from of_nat_diff_small(3) [OF c(2,1) this]
  have "unat (sr + 1) = Suc (builtin_clz (high d) - builtin_clz (high n))" by (simp only: sr_def)
  then have "unat (sr + 1) \<noteq> unat (32 :: u32)" using clz_not_pow2 [OF assms(2) p] by simp
  then show "sr + 1 \<noteq> 32" by metis
qed

lemma udivmoddi4_all:
  "udivmoddi4 (all n) (all d) = (if all d = 0 then None else Some (all n div all d, all n mod all d))"
proof -
  note defs = udivmoddi4_def Let_def udw
  consider (zero) "high d = 0" "low d = 0" 
    | (nh) "high n = 0" "all d \<noteq> 0"
    | (dl) "high n \<noteq> 0" "low d = 0" "high d \<noteq> 0" 
    | (dh) "high n \<noteq> 0" "low d \<noteq> 0" "high d = 0" 
    | (both) "high n \<noteq> 0" "low d \<noteq> 0" "high d \<noteq> 0"
    unfolding all_eq_0_iff by blast
  then show ?thesis
  proof cases
    case zero
    then show ?thesis by (simp add: defs all_eq_0_iff)
  next
    case nh
    show ?thesis
    proof (cases "high d = 0")
      case True
      with nh branch_small [of n d] show ?thesis by (simp add: defs all_eq_0_iff)
    next
      case False
      have "ucast (low n) = all n"
        by (simp add: word_unat_eq_iff unat_ucast_up) (simp add: unat_all nh)
      moreover have "unat (high n) < unat (high d)" using nh(1) False by (simp add: unat_gt_0)
      ultimately show ?thesis using branch_less [of n d] nh False by (simp add: defs)
    qed
  next
    case dl
    then show ?thesis
      using branch_low_zero [of n d] branch_high_pow2 [of d n] clz_less [of n d] sr_tests [of n d]
        branch_high_run(2) [of n d, OF _ _ _ refl]
      by (auto simp: defs all_eq_0_iff)
  next
    case dh
    then show ?thesis
      using branch_low_pow2(1) [of d n] branch_low_pow2(2) [of d _ n, OF _ _ _ _ refl] branch_low_run [of n d, OF _ _ _ _ refl]
      by (simp add: defs all_eq_0_iff)
  next
    case both
    then show ?thesis
      using clz_less [of n d] sr_tests(1) [of n d] branch_high_run [of n d, OF _ _ _ refl]
      by (auto simp: defs all_eq_0_iff)
  qed
qed

section \<open>The division\<close>

text \<open>
  Claim C2. The 64-bit division built from 32-bit halves returns the quotient and the remainder of
  its operands for every dividend and every nonzero divisor, and traps exactly on a zero divisor.
\<close>

theorem udivmoddi4_correct:
  "udivmoddi4 a b = (if b = 0 then None else Some (a div b, a mod b))"
  using udivmoddi4_all [of "udwords_of a" "udwords_of b"] by simp

lemma udivdi3_umoddi3:
  assumes "b \<noteq> 0"
  shows "udivdi3 a b = Some (a div b)" "umoddi3 a b = Some (a mod b)"
  using udivmoddi4_all [of "udwords_of a" "udwords_of b"] assms by (simp_all add: udivdi3_def umoddi3_def)

end
