(* ===== verification/Kstring.thy ===== *)
theory Kstring
  imports Prelude
begin

text \<open>
  The string and memory routines of \<open>kernel/string.c\<close>.

  The \<open>mem\<close> routines act on a memory, a function from addresses to bytes, because \<open>memmove\<close> is
  about overlapping objects. The \<open>str\<close> routines act on the byte list that starts at the pointer
  and ends with the object: reading or writing past its end is \<open>None\<close>.
\<close>

unbundle bit_operations_syntax

section \<open>Definitions\<close>

text \<open>The string instructions \<open>rep stosb\<close> and \<open>rep stosl\<close> of \<open>x86.h\<close>.\<close>

primrec stosb :: "mem \<Rightarrow> nat \<Rightarrow> u8 \<Rightarrow> nat \<Rightarrow> mem" where
  "stosb m a c 0 = m"
| "stosb m a c (Suc n) = stosb (m(a := c)) (a + 1) c n"

primrec stosl :: "mem \<Rightarrow> nat \<Rightarrow> u32 \<Rightarrow> nat \<Rightarrow> mem" where
  "stosl m a c 0 = m"
| "stosl m a c (Suc n) =
    stosl (store32 m a c) (a + 4) c n"

definition memset :: "mem \<Rightarrow> nat \<Rightarrow> u32 \<Rightarrow> nat \<Rightarrow> mem" where
  "memset m dst c n =
    (if dst mod 4 = 0 \<and> n mod 4 = 0 then
       let c = c AND 0xFF
       in stosl m dst (push_bit 24 c OR push_bit 16 c OR push_bit 8 c OR c) (n div 4)
     else stosb m dst (ucast c) n)"

primrec memcmp :: "mem \<Rightarrow> nat \<Rightarrow> nat \<Rightarrow> nat \<Rightarrow> int" where
  "memcmp m s1 s2 0 = 0"
| "memcmp m s1 s2 (Suc n) =
    (if m s1 \<noteq> m s2 then uint (m s1) - uint (m s2) else memcmp m (s1 + 1) (s2 + 1) n)"

text \<open>The two loops of \<open>memmove\<close>: from the last byte down, and from the first byte up.\<close>

primrec memmove_down :: "mem \<Rightarrow> nat \<Rightarrow> nat \<Rightarrow> nat \<Rightarrow> mem" where
  "memmove_down m d s 0 = m"
| "memmove_down m d s (Suc n) = memmove_down (m(d - 1 := m (s - 1))) (d - 1) (s - 1) n"

primrec memmove_up :: "mem \<Rightarrow> nat \<Rightarrow> nat \<Rightarrow> nat \<Rightarrow> mem" where
  "memmove_up m d s 0 = m"
| "memmove_up m d s (Suc n) = memmove_up (m(d := m s)) (d + 1) (s + 1) n"

definition memmove :: "mem \<Rightarrow> nat \<Rightarrow> nat \<Rightarrow> nat \<Rightarrow> mem" where
  "memmove m dst src n =
    (if src < dst \<and> src + n > dst then memmove_down m (dst + n) (src + n) n
     else memmove_up m dst src n)"

definition memcpy :: "mem \<Rightarrow> nat \<Rightarrow> nat \<Rightarrow> nat \<Rightarrow> mem" where
  "memcpy m dst src n = memmove m dst src n"

fun strncmp :: "u8 list \<Rightarrow> u8 list \<Rightarrow> nat \<Rightarrow> int option" where
  "strncmp p q 0 = Some 0"
| "strncmp (c # p) (d # q) (Suc n) =
    (if c \<noteq> 0 \<and> c = d then strncmp p q n else Some (uint c - uint d))"
| "strncmp _ _ (Suc n) = None"

fun strcmp :: "u8 list \<Rightarrow> u8 list \<Rightarrow> int option" where
  "strcmp (c # p) (d # q) = (if c \<noteq> 0 \<and> c = d then strcmp p q else Some (uint c - uint d))"
| "strcmp _ _ = None"

fun zero_fill :: "u8 list \<Rightarrow> nat \<Rightarrow> u8 list option" where
  "zero_fill s 0 = Some s"
| "zero_fill (_ # s) (Suc n) = map_option ((#) 0) (zero_fill s n)"
| "zero_fill [] (Suc n) = None"

fun strncpy_loop :: "u8 list \<Rightarrow> u8 list \<Rightarrow> nat \<Rightarrow> u8 list option" where
  "strncpy_loop s t 0 = Some s"
| "strncpy_loop (_ # s) (c # t) (Suc n) =
    map_option ((#) c) (if c \<noteq> 0 then strncpy_loop s t n else zero_fill s n)"
| "strncpy_loop _ _ (Suc n) = None"

definition strncpy :: "u8 list \<Rightarrow> u8 list \<Rightarrow> int \<Rightarrow> u8 list option" where
  "strncpy s t n = strncpy_loop s t (nat n)"

text \<open>\<open>safestrcpy_loop s t n\<close> is the loop with \<open>n\<close> as after its decrement, and the final \<open>*s = 0\<close>.\<close>

fun safestrcpy_loop :: "u8 list \<Rightarrow> u8 list \<Rightarrow> nat \<Rightarrow> u8 list option" where
  "safestrcpy_loop [] t n = None"
| "safestrcpy_loop (_ # s) t 0 = Some (0 # s)"
| "safestrcpy_loop (_ # s) [] (Suc n) = None"
| "safestrcpy_loop (_ # s) (c # t) (Suc n) =
    map_option ((#) c)
      (if c \<noteq> 0 then safestrcpy_loop s t n else (case s of [] \<Rightarrow> None | _ # s' \<Rightarrow> Some (0 # s')))"

definition safestrcpy :: "u8 list \<Rightarrow> u8 list \<Rightarrow> int \<Rightarrow> u8 list option" where
  "safestrcpy s t n = (if n \<le> 0 then Some s else safestrcpy_loop s t (nat (n - 1)))"

fun strlen :: "u8 list \<Rightarrow> nat option" where
  "strlen [] = None"
| "strlen (c # s) = (if c = 0 then Some 0 else map_option Suc (strlen s))"

section \<open>The contents of a C string\<close>

definition terminated :: "u8 list \<Rightarrow> bool" where
  "terminated s = (0 \<in> set s)"

definition str_of :: "u8 list \<Rightarrow> u8 list" where
  "str_of s = takeWhile (\<lambda>c. c \<noteq> 0) s"

lemma terminated_simps [simp]:
  "terminated [] = False" "terminated (c # s) \<longleftrightarrow> c = 0 \<or> terminated s"
  by (auto simp: terminated_def)

lemma str_of_simps [simp]:
  "str_of [] = []" "str_of (c # s) = (if c = 0 then [] else c # str_of s)"
  by (simp_all add: str_of_def)

lemma str_of_no_nul: "0 \<notin> set (str_of s)"
  by (induction s) auto

lemma str_of_append_nul: "0 \<notin> set s \<Longrightarrow> str_of (s @ 0 # t) = s"
  by (induction s) auto

lemma str_of_decomp: "terminated s \<Longrightarrow> \<exists>t. s = str_of s @ 0 # t"
  by (induction s) auto

section \<open>The memory routines\<close>

lemma stosb_eq: "stosb m a c n = (\<lambda>x. if a \<le> x \<and> x < a + n then c else m x)"
  by (induction n arbitrary: m a) (auto simp: fun_eq_iff)

lemma replicated_byte:
  fixes c :: u32
  defines "b \<equiv> c AND 0xFF"
  defines "w \<equiv> push_bit 24 b OR push_bit 16 b OR push_bit 8 b OR b"
  shows "(ucast w :: u8) = ucast c" "(ucast (drop_bit 8 w) :: u8) = ucast c"
    "(ucast (drop_bit 16 w) :: u8) = ucast c" "(ucast (drop_bit 24 w) :: u8) = ucast c"
proof -
  have bit_b: "bit b i \<longleftrightarrow> i < 8 \<and> bit c i" for i
    using bit_take_bit_iff [of 8 c i] unfolding b_def take_bit_eq_mask by (simp add: mask_eq_exp_minus_1)
  have bit_w: "bit w i \<longleftrightarrow> i < 32 \<and> bit c (i mod 8)" for i
  proof -
    consider "i < 8" | "8 \<le> i" "i < 16" | "16 \<le> i" "i < 24" | "24 \<le> i" "i < 32" | "32 \<le> i" by linarith
    then show ?thesis
      by cases (auto simp: w_def bit_or_iff bit_push_bit_iff bit_b mod_if dest: bit_imp_le_length)
  qed
  show "(ucast w :: u8) = ucast c" "(ucast (drop_bit 8 w) :: u8) = ucast c"
    "(ucast (drop_bit 16 w) :: u8) = ucast c" "(ucast (drop_bit 24 w) :: u8) = ucast c"
    by (rule bit_word_eqI; simp add: bit_ucast_iff bit_drop_bit_eq bit_w mod_if)+
qed

lemma stosl_eq:
  assumes "\<And>k. k < 4 \<Longrightarrow> (ucast (drop_bit (8 * k) w) :: u8) = c"
  shows "stosl m a w n = (\<lambda>x. if a \<le> x \<and> x < a + 4 * n then c else m x)"
proof (induction n arbitrary: m a)
  case (Suc n)
  have "(ucast w :: u8) = c" "(ucast (drop_bit 8 w) :: u8) = c" "(ucast (drop_bit 16 w) :: u8) = c"
    "(ucast (drop_bit 24 w) :: u8) = c"
    using assms [of 0] assms [of 1] assms [of 2] assms [of 3] by simp_all
  then show ?case by (auto simp: Suc fun_eq_iff store32_def)
qed (auto simp: fun_eq_iff)

lemma memset_apply:
  "memset m dst c n x = (if dst \<le> x \<and> x < dst + n then ucast c else m x)"
proof (cases "dst mod 4 = 0 \<and> n mod 4 = 0")
  case True
  let ?b = "c AND 0xFF"
  let ?w = "push_bit 24 ?b OR push_bit 16 ?b OR push_bit 8 ?b OR ?b"
  have "(ucast (drop_bit (8 * k) ?w) :: u8) = ucast c" if "k < 4" for k
  proof -
    from that consider "k = 0" | "k = 1" | "k = 2" | "k = 3" by linarith
    then show ?thesis using replicated_byte [of c] by cases simp_all
  qed
  have "stosl m dst ?w (n div 4) = (\<lambda>x. if dst \<le> x \<and> x < dst + 4 * (n div 4) then ucast c else m x)"
    by (rule stosl_eq) fact
  moreover have "4 * (n div 4) = n" using True by auto
  ultimately show ?thesis using True by (simp add: memset_def Let_def)
next
  case False
  then show ?thesis by (auto simp: memset_def stosb_eq)
qed

lemma load32_memset: "a + 4 \<le> v \<or> v + n \<le> a \<Longrightarrow> load32 (memset m v c n) a = load32 m a"
  by (rule load32_cong) (auto simp: memset_apply)

lemma load32_zeroed: "v \<le> a \<Longrightarrow> a + 4 \<le> v + n \<Longrightarrow> load32 (memset m v 0 n) a = 0"
  by (simp add: load32_def memset_apply)

text \<open>
  \<open>memset\<close> writes the low byte of its argument to exactly the \<open>n\<close> bytes at \<open>dst\<close>,
  whether it takes the word-wise or the byte-wise path.
\<close>

theorem memset_eq:
  "memset m dst c n = (\<lambda>x. if dst \<le> x \<and> x < dst + n then ucast c else m x)"
  by (intro ext) (rule memset_apply)

lemma memmove_down_eq:
  "s \<le> d \<Longrightarrow> memmove_down m (d + n) (s + n) n x = (if d \<le> x \<and> x < d + n then m (s + (x - d)) else m x)"
  by (induction n arbitrary: m) (auto simp: less_Suc_eq)

lemma memmove_up_eq:
  "d \<le> s \<or> s + n \<le> d \<Longrightarrow>
   memmove_up m d s n x = (if d \<le> x \<and> x < d + n then m (s + (x - d)) else m x)"
proof (induction n arbitrary: m d s)
  case (Suc n)
  from Suc.prems have "d + 1 \<le> s + 1 \<or> s + 1 + n \<le> d + 1" by auto
  note IH = Suc.IH [OF this, of "m(d := m s)"]
  consider "x < d" | "x = d" | "d < x" by linarith
  then show ?case unfolding memmove_up.simps IH using Suc.prems by cases (auto simp: Suc_diff_Suc)
qed auto

lemma memmove_apply:
  "memmove m dst src n x = (if dst \<le> x \<and> x < dst + n then m (src + (x - dst)) else m x)"
proof (cases "src < dst \<and> src + n > dst")
  case True
  then show ?thesis by (simp add: memmove_def memmove_down_eq)
next
  case False
  then show ?thesis by (auto simp: memmove_def memmove_up_eq)
qed

text \<open>
  Claim C6. \<open>memmove\<close> copies the \<open>n\<close> source bytes as they were before the call, however the two
  objects overlap, and changes no other byte.
\<close>

theorem memmove_correct:
  "memmove m dst src n = (\<lambda>x. if dst \<le> x \<and> x < dst + n then m (src + (x - dst)) else m x)"
  by (intro ext) (rule memmove_apply)

lemma uint_eq_iff [simp]: "uint c = uint d \<longleftrightarrow> c = d"
  by (simp add: word_uint_eq_iff)

lemma memcmp_0_iff: "memcmp m s1 s2 n = 0 \<longleftrightarrow> (\<forall>k<n. m (s1 + k) = m (s2 + k))"
proof (induction n arbitrary: s1 s2)
  case (Suc n)
  have "(\<forall>k<Suc n. m (s1 + k) = m (s2 + k)) \<longleftrightarrow> m s1 = m s2 \<and> (\<forall>k<n. m (s1 + 1 + k) = m (s2 + 1 + k))"
    by (auto simp: All_less_Suc2)
  then show ?case using Suc [of "s1 + 1" "s2 + 1"] by simp
qed simp

section \<open>The string routines\<close>

lemma uint_less_iff [simp]: "uint c < uint d \<longleftrightarrow> c < d"
  by (simp add: word_less_def)

lemma strlen_eq: "strlen s = (if terminated s then Some (length (str_of s)) else None)"
  by (induction s) auto

lemma strcmp_some:
  assumes "terminated p" "terminated q"
  obtains r where "strcmp p q = Some r" "r = 0 \<longleftrightarrow> str_of p = str_of q"
    "r < 0 \<longleftrightarrow> ord_class.lexordp (str_of p) (str_of q)"
proof -
  have "\<exists>r. strcmp p q = Some r \<and> (r = 0 \<longleftrightarrow> str_of p = str_of q) \<and> (r < 0 \<longleftrightarrow> ord_class.lexordp (str_of p) (str_of q))"
    using assms by (induction p q rule: strcmp.induct) (auto simp: word_gt_0 not_less)
  with that show thesis by blast
qed

lemma strcmp_0_iff: "terminated p \<Longrightarrow> terminated q \<Longrightarrow> strcmp p q = Some 0 \<longleftrightarrow> str_of p = str_of q"
  by (metis option.inject strcmp_some)

text \<open>
  Claim C8. On two NUL-terminated strings \<open>strcmp\<close> stays inside both objects, returns zero exactly
  when they have the same contents and a negative number exactly when the first precedes the
  second in the lexicographic order of unsigned bytes.
\<close>

theorem strcmp_correct:
  assumes "terminated p" "terminated q"
  shows "\<exists>r. strcmp p q = Some r \<and> (r = 0 \<longleftrightarrow> str_of p = str_of q) \<and> (r < 0 \<longleftrightarrow> ord_class.lexordp (str_of p) (str_of q))"
  using strcmp_some [OF assms] by metis

theorem strcmp_correct_witness:
  "\<exists>r. strcmp [97, 98, 0] [97, 99, 0, 7] = Some r \<and> (r = 0 \<longleftrightarrow> str_of [97, 98, 0 :: u8] = str_of [97, 99, 0, 7])
     \<and> (r < 0 \<longleftrightarrow> ord_class.lexordp (str_of [97, 98, 0 :: u8]) (str_of [97, 99, 0, 7]))"
  by (rule strcmp_correct) simp_all

lemma strncmp_eq:
  "terminated p \<Longrightarrow> terminated q \<Longrightarrow>
   \<exists>r. strncmp p q n = Some r \<and> (r = 0 \<longleftrightarrow> take n (str_of p) = take n (str_of q))"
  by (induction p q n rule: strncmp.induct) auto

lemma zero_fill_eq: "n \<le> length s \<Longrightarrow> zero_fill s n = Some (replicate n 0 @ drop n s)"
  by (induction s n rule: zero_fill.induct) auto

lemma strncpy_loop_eq:
  "n \<le> length s \<Longrightarrow> terminated t \<Longrightarrow>
   strncpy_loop s t n = Some (take n (str_of t) @ replicate (n - length (str_of t)) 0 @ drop n s)"
  by (induction s t n rule: strncpy_loop.induct) (auto simp: zero_fill_eq)

lemma safestrcpy_loop_eq:
  "n < length s \<Longrightarrow> terminated t \<Longrightarrow>
   \<exists>rest. safestrcpy_loop s t n = Some (take n (str_of t) @ 0 # rest) \<and> length (take n (str_of t) @ 0 # rest) = length s"
proof (induction s t n rule: safestrcpy_loop.induct)
  case (4 x s c t n)
  then show ?case
    by (cases s) (auto simp: neq_Nil_conv)
qed auto

text \<open>
  \<open>safestrcpy\<close> with a buffer of at least \<open>n > 0\<close> bytes stays inside it, leaves it
  NUL-terminated and holding the first \<open>n - 1\<close> characters of the source string.
\<close>

theorem safestrcpy_correct:
  assumes "0 < n" "n \<le> int (length s)" "terminated t"
  shows "\<exists>s'. safestrcpy s t n = Some s' \<and> length s' = length s \<and> terminated (take (nat n) s')
           \<and> str_of s' = take (nat n - 1) (str_of t)"
proof -
  let ?k = "nat (n - 1)"
  have k: "?k < length s" "nat n = Suc ?k" using assms by auto
  obtain rest where r: "safestrcpy_loop s t ?k = Some (take ?k (str_of t) @ 0 # rest)"
    "length (take ?k (str_of t) @ 0 # rest) = length s"
    using safestrcpy_loop_eq [OF k(1) assms(3)] by blast
  have "0 \<notin> set (take ?k (str_of t))" using str_of_no_nul [of t] by (auto dest: in_set_takeD)
  then have "str_of (take ?k (str_of t) @ 0 # rest) = take ?k (str_of t)" by (rule str_of_append_nul)
  moreover have "terminated (take (nat n) (take ?k (str_of t) @ 0 # rest))"
    by (simp add: k(2) terminated_def Suc_diff_le)
  ultimately show ?thesis using r assms(1) by (simp add: safestrcpy_def k(2))
qed

theorem safestrcpy_correct_witness:
  "\<exists>s'. safestrcpy [1, 1, 1, 1] [97, 98, 99, 100, 0] 3 = Some s' \<and> length s' = length [1, 1, 1, 1 :: u8]
     \<and> terminated (take (nat 3) s') \<and> str_of s' = take (nat 3 - 1) (str_of [97, 98, 99, 100, 0])"
  by (rule safestrcpy_correct) simp_all

end
