(* ===== verification/Klib.thy ===== *)
theory Klib
  imports Kstring "HOL-Library.Signed_Division"
begin

text \<open>
  The number conversions of \<open>kernel/klib.c\<close>. A C \<open>int\<close> argument is an integer; the accumulator of
  \<open>atoi\<close> is kept at its width, a 32-bit word, because nothing bounds the digits it reads. Writing
  outside the buffer is \<open>None\<close>.
\<close>

section \<open>Definitions\<close>

fun atoi_loop :: "u8 list \<Rightarrow> u32 \<Rightarrow> int option" where
  "atoi_loop [] res = None"
| "atoi_loop (c # s) res =
    (if c = 0 then Some (sint res)
     else if sint c < 48 \<or> sint c > 57 then Some (- 1)
     else atoi_loop s (res * 10 + ucast c - 48))"

definition atoi :: "u8 list \<Rightarrow> int option" where
  "atoi s = atoi_loop s 0"

text \<open>\<open>buf[i] = c\<close>.\<close>

definition store :: "u8 list \<Rightarrow> nat \<Rightarrow> u8 \<Rightarrow> u8 list option" where
  "store buf i c = (if i < length buf then Some (buf[i := c]) else None)"

text \<open>The loop that counts the digits, and the loop that writes them from the last one up.\<close>

function count_digits :: "int \<Rightarrow> nat" where
  "count_digits m = (if m > 0 then Suc (count_digits (m div 10)) else 0)"
  by pat_completeness auto
termination by (relation "measure nat") auto

fun write_digits :: "u8 list \<Rightarrow> int \<Rightarrow> nat \<Rightarrow> u8 list option" where
  "write_digits buf n 0 = Some buf"
| "write_digits buf n (Suc i) =
    (if n > 0 then
       (case store buf i (of_int (n mod 10) + 48) of
          None \<Rightarrow> None
        | Some buf \<Rightarrow> write_digits buf (n div 10) i)
     else Some buf)"

definition itoa :: "u8 list \<Rightarrow> int \<Rightarrow> (u8 list \<times> nat) option" where
  "itoa buf n =
    (let length = count_digits n in
     Option.bind (if n = 0 then map_option (\<lambda>b. (b, Suc length)) (store buf 0 48) else Some (buf, length))
       (\<lambda>(buf, length).
     Option.bind (write_digits buf n length) (\<lambda>buf.
     Option.bind (store buf length 0) (\<lambda>buf. Some (buf, length)))))"

definition utoa :: "u8 list \<Rightarrow> u32 \<Rightarrow> (u8 list \<times> nat) option" where
  "utoa buf n = itoa buf (uint n)"

function intlen :: "int \<Rightarrow> nat" where
  "intlen n = (if n sdiv 10 \<noteq> 0 then Suc (intlen (n sdiv 10)) else 1)"
  by pat_completeness auto
termination
  by (relation "measure (\<lambda>n. nat \<bar>n\<bar>)") (auto simp: signed_divide_int_def sgn_if split: if_splits)

declare count_digits.simps [simp del] intlen.simps [simp del]

section \<open>Decimal digits\<close>

function digits :: "int \<Rightarrow> u8 list" where
  "digits n = (if n > 0 then digits (n div 10) @ [of_int (n mod 10) + 48] else [])"
  by pat_completeness auto
termination by (relation "measure nat") auto

declare digits.simps [simp del]

lemma digits_step: "n > 0 \<Longrightarrow> digits n = digits (n div 10) @ [of_int (n mod 10) + 48]"
  by (subst digits.simps) simp

lemma count_digits_step: "n > 0 \<Longrightarrow> count_digits n = Suc (count_digits (n div 10))"
  by (subst count_digits.simps) simp

lemma digits_stop [simp]: "n \<le> 0 \<Longrightarrow> digits n = []" "n \<le> 0 \<Longrightarrow> count_digits n = 0"
  by (subst digits.simps, simp) (subst count_digits.simps, simp)

lemma length_digits [simp]: "length (digits n) = count_digits n"
  by (induction n rule: digits.induct) (simp add: digits.simps count_digits.simps)

lemma digit_cases:
  assumes "0 \<le> m" "m < (10 :: int)"
  shows "(ucast (of_int m + 48 :: u8) :: u32) = of_int m + 48" "sint (of_int m + 48 :: u8) = m + 48"
    "of_int m + 48 \<noteq> (0 :: u8)"
proof -
  have "m \<in> {0, 1, 2, 3, 4, 5, 6, 7, 8, 9}" using assms by (simp; presburger)
  then show "(ucast (of_int m + 48 :: u8) :: u32) = of_int m + 48" "sint (of_int m + 48 :: u8) = m + 48"
    "of_int m + 48 \<noteq> (0 :: u8)"
    by auto
qed

lemma digits_nonzero: "0 \<notin> set (digits n)"
proof (induction n rule: digits.induct)
  case (1 n)
  have "of_int (n mod 10) + 48 \<noteq> (0 :: u8)" by (rule digit_cases) simp_all
  with 1 show ?case by (cases "n > 0") (auto simp: digits_step)
qed

lemma write_digits_eq:
  "count_digits n \<le> length buf \<Longrightarrow>
   write_digits buf n (count_digits n) = Some (digits n @ drop (count_digits n) buf)"
proof (induction n arbitrary: buf rule: digits.induct)
  case (1 n)
  show ?case
  proof (cases "n > 0")
    case True
    let ?k = "count_digits (n div 10)" and ?c = "of_int (n mod 10) + 48 :: u8"
    have k: "?k < length buf" using 1(2) True by (simp add: count_digits_step)
    have "drop ?k (buf[?k := ?c]) = ?c # drop (Suc ?k) buf"
      using k by (simp add: drop_update_swap Cons_nth_drop_Suc [symmetric])
    then show ?thesis using True k 1(1) [OF True, of "buf[?k := ?c]"]
      by (simp add: count_digits_step digits_step store_def)
  qed simp
qed

lemma atoi_loop_digits:
  "0 \<le> n \<Longrightarrow> atoi_loop (digits n @ s) acc = atoi_loop s (acc * 10 ^ count_digits n + of_int n)"
proof (induction n arbitrary: s rule: digits.induct)
  case (1 n)
  show ?case
  proof (cases "n > 0")
    case True
    let ?m = "n mod 10" and ?a = "acc * 10 ^ count_digits (n div 10) + of_int (n div 10) :: u32"
    note d = digit_cases [of ?m]
    have m: "\<not> ?m < 0" "\<not> 9 < ?m" by (simp, presburger)
    have "atoi_loop (digits n @ s) acc = atoi_loop ((of_int ?m + 48) # s) ?a"
      using True 1(1) [OF True] by (simp add: digits_step)
    also have "\<dots> = atoi_loop s (?a * 10 + of_int ?m)"
      using d m by (simp add: algebra_simps)
    also have "?a * 10 + of_int ?m = acc * 10 ^ count_digits n + of_int (n div 10 * 10 + ?m)"
      using True unfolding of_int_add of_int_mult by (simp add: count_digits_step algebra_simps)
    finally show ?thesis by simp
  qed (use 1 in simp)
qed

lemma intlen_eq: "0 \<le> n \<Longrightarrow> intlen n = (if n = 0 then 1 else count_digits n)"
proof (induction n rule: intlen.induct)
  case (1 n)
  have "n sdiv 10 = n div 10" using 1(2) by (simp add: signed_divide_int_def sgn_if)
  then show ?case using 1 by (subst intlen.simps) (auto simp: count_digits_step)
qed

lemma itoa_eq:
  assumes "0 \<le> n" "intlen n < length buf"
  shows "itoa buf n = Some ((if n = 0 then [48] else digits n) @ 0 # drop (Suc (intlen n)) buf, intlen n)"
proof (cases "n = 0")
  case True
  then show ?thesis using assms
    by (cases buf; cases "tl buf") (auto simp: itoa_def store_def intlen_eq)
next
  case False
  then have pos: "0 < n" using assms(1) by simp
  let ?k = "count_digits n"
  have k: "?k < length buf" using assms False by (simp add: intlen_eq)
  have "store (digits n @ drop ?k buf) ?k 0 = Some (digits n @ 0 # drop (Suc ?k) buf)"
    using k by (simp add: store_def list_update_append Cons_nth_drop_Suc [symmetric])
  then show ?thesis using pos k write_digits_eq [of n buf] by (simp add: itoa_def Let_def intlen_eq)
qed

text \<open>
  Claim C7. Every non-negative \<open>int\<close> printed by \<open>itoa\<close> into a large enough buffer is read back
  by \<open>atoi\<close>, the string is NUL-terminated and has the \<open>intlen\<close> characters that \<open>itoa\<close> returns.
\<close>

theorem itoa_atoi_roundtrip:
  assumes "0 \<le> n" "n < 2 ^ 31" "intlen n < length buf"
  shows "\<exists>buf'. itoa buf n = Some (buf', intlen n) \<and> length buf' = length buf
           \<and> strlen buf' = Some (intlen n) \<and> atoi buf' = Some n"
proof -
  let ?d = "if n = 0 then [48] else digits n" and ?r = "drop (Suc (intlen n)) buf"
  have len: "length ?d = intlen n" using assms(1) by (simp add: intlen_eq)
  have nz: "0 \<notin> set ?d" using digits_nonzero by simp
  have "strlen (?d @ 0 # ?r) = Some (intlen n)"
    using str_of_append_nul [OF nz] len by (simp add: strlen_eq terminated_def)
  moreover have "sint (of_int n :: u32) = n"
    using assms(1,2) by (simp add: signed_of_int signed_take_bit_int_eq_self)
  then have "atoi (?d @ 0 # ?r) = Some n"
    using assms(1) atoi_loop_digits [of n "0 # ?r" 0] by (simp add: atoi_def)
  moreover have "length (?d @ 0 # ?r) = length buf" using len assms(3) by simp
  ultimately show ?thesis using itoa_eq [OF assms(1,3)] by blast
qed

theorem itoa_atoi_roundtrip_witness:
  "\<exists>buf'. itoa (replicate 12 7) 2026 = Some (buf', intlen 2026) \<and> length buf' = length (replicate 12 (7 :: u8))
     \<and> strlen buf' = Some (intlen 2026) \<and> atoi buf' = Some 2026"
  by (rule itoa_atoi_roundtrip) (simp_all add: intlen.simps signed_divide_int_def)

lemma atoi_rejects:
  "terminated s \<Longrightarrow> \<exists>c\<in>set (str_of s). sint c < 48 \<or> sint c > 57 \<Longrightarrow> atoi_loop s acc = Some (- 1)"
  by (induction s arbitrary: acc) (auto split: if_splits)

end
