(* ===== verification/Kalloc.thy ===== *)
theory Kalloc
  imports Kstring
begin

text \<open>
  The physical page allocator of \<open>kernel/kalloc.c\<close>. The free list is threaded through the free
  pages themselves: \<open>r->next\<close> is the first word of page \<open>r\<close> in the memory \<open>ram\<close>, so that the
  junk fill of \<open>kfree\<close> and the link it writes are the same bytes as in the kernel. The lock of
  \<open>kmem\<close> makes each routine one step; the one test that \<open>kalloc\<close> makes before it takes the lock
  is a step of its own, \<open>kalloc_full\<close>.
\<close>

section \<open>Definitions\<close>

definition PGSIZE :: nat where "PGSIZE = 4096"
definition KERNBASE :: nat where "KERNBASE = 0x80000000"
definition PHYSTOP :: nat where "PHYSTOP = 0xE000000"

definition PGROUNDUP :: "nat \<Rightarrow> nat" where
  "PGROUNDUP sz = (sz + PGSIZE - 1) div PGSIZE * PGSIZE"

text \<open>\<open>V2P\<close> subtracts in \<open>uint\<close>, so it wraps below \<open>KERNBASE\<close>.\<close>

definition V2P :: "nat \<Rightarrow> nat" where
  "V2P a = (a + (2 ^ 32 - KERNBASE)) mod 2 ^ 32"

record kmem =
  use_lock :: bool
  page_cnt :: int
  page_protect :: int
  freelist :: nat
  ram :: mem

text \<open>\<open>kend\<close> is the address of the linker symbol \<open>end\<close>.\<close>

definition kfree :: "nat \<Rightarrow> nat \<Rightarrow> kmem \<Rightarrow> kmem outcome" where
  "kfree kend v k =
    (if v mod PGSIZE \<noteq> 0 \<or> v < kend \<or> V2P v \<ge> PHYSTOP then Panic ''kfree''
     else
       let m = memset (ram k) v 1 PGSIZE;
           m = store32 m v (of_nat (freelist k))
       in Ret (k\<lparr>ram := m, freelist := v, page_cnt := page_cnt k + 1\<rparr>))"

function freerange_loop :: "nat \<Rightarrow> nat \<Rightarrow> nat \<Rightarrow> kmem \<Rightarrow> kmem outcome" where
  "freerange_loop kend p vend k =
    (if p + PGSIZE \<le> vend then bindO (kfree kend p k) (freerange_loop kend (p + PGSIZE) vend)
     else Ret k)"
  by pat_completeness auto
termination
  by (relation "measure (\<lambda>(kend, p, vend, k). Suc vend - p)") (auto simp: PGSIZE_def)

declare freerange_loop.simps [simp del]

definition freerange :: "nat \<Rightarrow> nat \<Rightarrow> nat \<Rightarrow> kmem \<Rightarrow> kmem outcome" where
  "freerange kend vstart vend k = freerange_loop kend (PGROUNDUP vstart) vend k"

definition kinit1 :: "nat \<Rightarrow> nat \<Rightarrow> nat \<Rightarrow> kmem \<Rightarrow> kmem outcome" where
  "kinit1 kend vstart vend k = freerange kend vstart vend (k\<lparr>use_lock := False\<rparr>)"

definition kinit2 :: "nat \<Rightarrow> nat \<Rightarrow> nat \<Rightarrow> kmem \<Rightarrow> kmem outcome" where
  "kinit2 kend vstart vend k =
    bindO (freerange kend vstart vend k) (\<lambda>k. Ret (k\<lparr>page_protect := 0, use_lock := True\<rparr>))"

text \<open>
  The counter and the argument are \<open>int\<close>s of 32 bits; the arithmetic wraps around, which is what the processor does where
  the language leaves overflow undefined.
\<close>

definition decrese_protect_counter :: "int \<Rightarrow> kmem \<Rightarrow> kmem \<times> int" where
  "decrese_protect_counter num k = (k\<lparr>page_protect := wrap32 (page_protect k - num)\<rparr>, 0)"

definition increse_protect_counter :: "int \<Rightarrow> kmem \<Rightarrow> kmem \<times> int" where
  "increse_protect_counter num k =
    (if num < 0 then decrese_protect_counter (wrap32 (num * - 1)) k
     else if wrap32 (num + page_protect k) \<le> page_cnt k then (k\<lparr>page_protect := wrap32 (page_protect k + num)\<rparr>, 0)
     else (k, 1))"

definition get_total_memory :: "kmem \<Rightarrow> int" where
  "get_total_memory k = page_cnt k"

definition kalloc_full :: "kmem \<Rightarrow> bool" where
  "kalloc_full k = (page_cnt k \<le> page_protect k)"

definition kalloc_take :: "kmem \<Rightarrow> kmem \<times> nat" where
  "kalloc_take k =
    (let r = freelist k in
     if r \<noteq> 0 then (k\<lparr>freelist := unat (load32 (ram k) r), page_cnt := page_cnt k - 1\<rparr>, r)
     else (k, r))"

definition kalloc :: "kmem \<Rightarrow> kmem \<times> nat" where
  "kalloc k = (if kalloc_full k then (k, 0) else kalloc_take k)"

definition page_err :: "mem \<Rightarrow> nat \<Rightarrow> bool" where
  "page_err m c = list_ex (\<lambda>i. m (c + i) \<noteq> 1) [4..<PGSIZE]"

partial_function (option) kmemtest_loop :: "mem \<Rightarrow> nat \<Rightarrow> int \<Rightarrow> int \<Rightarrow> (int \<times> int) option" where
  "kmemtest_loop m r list_cnt err_cnt =
    (if r = 0 then Some (list_cnt, err_cnt)
     else kmemtest_loop m (unat (load32 m r)) (list_cnt + 1) (err_cnt + of_bool (page_err m r)))"

definition kmemtest :: "kmem \<Rightarrow> int option" where
  "kmemtest k =
    map_option (\<lambda>(list_cnt, err_cnt). if page_cnt k = list_cnt \<and> err_cnt = 0 then 0 else - 1)
      (kmemtest_loop (ram k) (freelist k) 0 0)"

section \<open>The free list as a list of pages\<close>

fun list_at :: "mem \<Rightarrow> nat \<Rightarrow> nat list \<Rightarrow> bool" where
  "list_at m r [] = (r = 0)"
| "list_at m r (p # ps) = (r = p \<and> list_at m (unat (load32 m p)) ps)"

fun walk :: "mem \<Rightarrow> nat \<Rightarrow> nat \<Rightarrow> nat list" where
  "walk m r 0 = []"
| "walk m r (Suc n) = r # walk m (unat (load32 m r)) n"

definition free_pages :: "kmem \<Rightarrow> nat list" where
  "free_pages k = walk (ram k) (freelist k) (nat (page_cnt k))"

text \<open>The pages the allocator may hold: aligned, above the kernel image and below \<open>PHYSTOP\<close>.\<close>

definition managed :: "nat \<Rightarrow> nat \<Rightarrow> bool" where
  "managed kend p = (p mod PGSIZE = 0 \<and> kend \<le> p \<and> p < KERNBASE + PHYSTOP)"

definition kmem_inv :: "nat \<Rightarrow> kmem \<Rightarrow> bool" where
  "kmem_inv kend k =
    (let ps = free_pages k in
     KERNBASE \<le> kend \<and> 0 \<le> page_cnt k \<and> list_at (ram k) (freelist k) ps \<and> distinct ps \<and>
     list_all (managed kend) ps \<and> list_all (\<lambda>p. \<not> page_err (ram k) p) ps)"

lemma list_at_walk: "list_at m r ps \<Longrightarrow> walk m r (length ps) = ps"
  by (induction m r ps rule: list_at.induct) auto

lemma length_walk [simp]: "length (walk m r n) = n"
  by (induction m r n rule: walk.induct) auto

lemma length_free_pages: "length (free_pages k) = nat (page_cnt k)"
  by (simp add: free_pages_def)

lemma free_pages_eqI: "list_at (ram k) (freelist k) ps \<Longrightarrow> page_cnt k = int (length ps) \<Longrightarrow> free_pages k = ps"
  by (simp add: free_pages_def list_at_walk)

lemma kmem_invI:
  assumes "KERNBASE \<le> kend" "list_at (ram k) (freelist k) ps" "page_cnt k = int (length ps)" "distinct ps"
    "list_all (managed kend) ps" "list_all (\<lambda>p. \<not> page_err (ram k) p) ps"
  shows "kmem_inv kend k \<and> free_pages k = ps"
  using assms free_pages_eqI [OF assms(2,3)] by (simp add: kmem_inv_def)

lemma V2P_eq: "KERNBASE \<le> a \<Longrightarrow> a < 2 ^ 32 \<Longrightarrow> V2P a = a - KERNBASE"
  by (simp add: V2P_def KERNBASE_def le_mod_geq)

lemma managed_bounds: "managed kend p \<Longrightarrow> KERNBASE \<le> kend \<Longrightarrow> 0 < p \<and> p < 2 ^ 32 \<and> V2P p < PHYSTOP"
  using V2P_eq [of p] by (auto simp: managed_def KERNBASE_def PHYSTOP_def)

text \<open>Two managed pages do not overlap.\<close>

lemma managed_disjoint:
  assumes "managed kend p" "managed kend q" "p \<noteq> q" "i < PGSIZE"
  shows "p + i < q \<or> q + PGSIZE \<le> p + i"
proof -
  obtain a b where ab: "p = PGSIZE * a" "q = PGSIZE * b"
    using assms(1,2) by (metis managed_def mod_eq_0_iff_dvd dvdE)
  with assms(3) consider "a < b" | "b < a" by (metis nat_neq_iff)
  then show ?thesis
  proof cases
    case 1
    then have "PGSIZE * Suc a \<le> PGSIZE * b" by (intro mult_le_mono2) simp
    then show ?thesis using ab assms(4) by simp
  next
    case 2
    then have "PGSIZE * Suc b \<le> PGSIZE * a" by (intro mult_le_mono2) simp
    then show ?thesis using ab by simp
  qed
qed

text \<open>The list and the junk depend on the bytes of the listed pages only.\<close>

lemma list_at_cong:
  "(\<And>p i. p \<in> set ps \<Longrightarrow> i < PGSIZE \<Longrightarrow> m' (p + i) = m (p + i)) \<Longrightarrow> list_at m' r ps = list_at m r ps"
proof (induction ps arbitrary: r)
  case (Cons p ps)
  have "load32 m' p = load32 m p" by (rule load32_cong) (use Cons.prems in \<open>simp add: PGSIZE_def\<close>)
  with Cons show ?case by simp
qed simp

lemma page_err_cong: "(\<And>i. i < PGSIZE \<Longrightarrow> m' (p + i) = m (p + i)) \<Longrightarrow> page_err m' p = page_err m p"
  by (auto simp: page_err_def list_ex_iff)

lemma kmem_inv_frame:
  assumes "kmem_inv kend k" "\<And>p i. p \<in> set (free_pages k) \<Longrightarrow> i < PGSIZE \<Longrightarrow> m (p + i) = ram k (p + i)"
  shows "kmem_inv kend (k\<lparr>ram := m\<rparr>) \<and> free_pages (k\<lparr>ram := m\<rparr>) = free_pages k"
proof (rule kmem_invI)
  note inv = assms(1) [unfolded kmem_inv_def Let_def]
  show "list_at (ram (k\<lparr>ram := m\<rparr>)) (freelist (k\<lparr>ram := m\<rparr>)) (free_pages k)"
    using inv list_at_cong [of "free_pages k" m "ram k" "freelist k"] assms(2) by simp
  show "list_all (\<lambda>p. \<not> page_err (ram (k\<lparr>ram := m\<rparr>)) p) (free_pages k)"
    using inv page_err_cong [of m _ "ram k"] assms(2) by (auto simp: list_all_iff)
qed (use assms(1) in \<open>auto simp: kmem_inv_def Let_def length_free_pages\<close>)

section \<open>The operations keep the invariant\<close>

lemma kfree_inv:
  assumes inv: "kmem_inv kend k" and v: "managed kend v" "v \<notin> set (free_pages k)"
  obtains k' where "kfree kend v k = Ret k'" "kmem_inv kend k'" "free_pages k' = v # free_pages k"
    "page_protect k' = page_protect k"
proof -
  let ?m = "store32 (memset (ram k) v 1 PGSIZE) v (of_nat (freelist k))"
  let ?k = "k\<lparr>ram := ?m, freelist := v, page_cnt := page_cnt k + 1\<rparr>"
  note i = inv [unfolded kmem_inv_def Let_def]
  have fl: "freelist k < 2 ^ 32"
  proof (cases "free_pages k")
    case Nil
    then show ?thesis using i by simp
  next
    case (Cons p ps)
    then have "freelist k = p" "managed kend p" using i by auto
    then show ?thesis using managed_bounds i by auto
  qed
  have other: "?m (p + j) = ram k (p + j)" if "p \<in> set (free_pages k)" "j < PGSIZE" for p j
  proof -
    from that v i have "p + j < v \<or> v + PGSIZE \<le> p + j"
      by (intro managed_disjoint [of kend]) (auto simp: list_all_iff)
    then show ?thesis by (auto simp: memset_apply PGSIZE_def)
  qed
  have junk: "\<not> page_err ?m v"
    by (auto simp: page_err_def list_ex_iff memset_apply)
  have "kmem_inv kend ?k \<and> free_pages ?k = v # free_pages k"
  proof (rule kmem_invI)
    show "list_at (ram ?k) (freelist ?k) (v # free_pages k)"
      using i fl list_at_cong [of "free_pages k" ?m "ram k"] other by (simp add: unat_of_nat)
    show "list_all (\<lambda>p. \<not> page_err (ram ?k) p) (v # free_pages k)"
      using i junk page_err_cong [of ?m _ "ram k"] other by (auto simp: list_all_iff)
  qed (use i v in \<open>auto simp: length_free_pages\<close>)
  moreover have "kfree kend v k = Ret ?k"
    using v(1) managed_bounds [OF v(1)] i by (simp add: kfree_def managed_def)
  ultimately show thesis using that [of ?k] by simp
qed

lemma kalloc_take_inv:
  assumes inv: "kmem_inv kend k" and "kalloc_take k = (k', r)"
  shows "kmem_inv kend k' \<and> page_protect k' = page_protect k \<and>
    (case free_pages k of [] \<Rightarrow> r = 0 \<and> k' = k | p # ps \<Rightarrow> r = p \<and> p \<noteq> 0 \<and> free_pages k' = ps)"
proof (cases "free_pages k")
  case Nil
  then show ?thesis using assms by (auto simp: kalloc_take_def kmem_inv_def Let_def)
next
  case (Cons p ps)
  let ?k = "k\<lparr>freelist := unat (load32 (ram k) p), page_cnt := page_cnt k - 1\<rparr>"
  note i = inv [unfolded kmem_inv_def Let_def]
  have p: "freelist k = p" "p \<noteq> 0" using Cons i managed_bounds [of kend p] by auto
  have "page_cnt k = int (length (p # ps))" using length_free_pages [of k] Cons i by auto
  then have "kmem_inv kend ?k \<and> free_pages ?k = ps"
    using Cons i by (intro kmem_invI) auto
  then show ?thesis using assms(2) p Cons by (auto simp: kalloc_take_def)
qed

lemma kalloc_inv:
  assumes "kmem_inv kend k" "kalloc k = (k', r)"
  shows "kmem_inv kend k' \<and> page_protect k' = page_protect k \<and>
    (if page_cnt k \<le> page_protect k \<or> free_pages k = [] then r = 0 \<and> k' = k
     else r \<noteq> 0 \<and> free_pages k = r # free_pages k')"
  using assms kalloc_take_inv [of kend k k' r]
  by (cases "free_pages k") (auto simp: kalloc_def kalloc_full_def split: if_splits)

lemma kmemtest_loop_list:
  "list_at m r ps \<Longrightarrow> 0 \<notin> set ps \<Longrightarrow>
   kmemtest_loop m r l e = Some (l + int (length ps), e + int (length (filter (page_err m) ps)))"
proof (induction ps arbitrary: r l e)
  case Nil
  then show ?case by (subst kmemtest_loop.simps) simp
next
  case (Cons p ps)
  then show ?case by (subst kmemtest_loop.simps) simp
qed

lemma kmem_inv_nonzero: "kmem_inv kend k \<Longrightarrow> 0 \<notin> set (free_pages k)"
  using managed_bounds [of kend 0] by (auto simp: kmem_inv_def Let_def list_all_iff)

section \<open>Start-up\<close>

lemma freerange_loop_inv:
  assumes "kmem_inv kend k" "PGSIZE dvd p" "kend \<le> p" "vend \<le> KERNBASE + PHYSTOP"
    "\<forall>q\<in>set (free_pages k). q < p"
  shows "\<exists>k'. freerange_loop kend p vend k = Ret k' \<and> kmem_inv kend k' \<and> page_protect k' = page_protect k \<and>
    set (free_pages k') = set (free_pages k) \<union> {q. p \<le> q \<and> q + PGSIZE \<le> vend \<and> PGSIZE dvd q}"
  using assms
proof (induction kend p vend k rule: freerange_loop.induct)
  case (1 kend p vend k)
  let ?new = "\<lambda>p. {q. p \<le> q \<and> q + PGSIZE \<le> vend \<and> PGSIZE dvd q}"
  show ?case
  proof (cases "p + PGSIZE \<le> vend")
    case True
    have m: "managed kend p" "p \<notin> set (free_pages k)"
      using True 1(3-6) by (auto simp: managed_def PGSIZE_def)
    obtain k1 where k1: "kfree kend p k = Ret k1" "kmem_inv kend k1" "free_pages k1 = p # free_pages k"
      "page_protect k1 = page_protect k"
      by (rule kfree_inv [OF 1(2) m])
    have "\<forall>q\<in>set (free_pages k1). q < p + PGSIZE" using 1(6) k1(3) by (auto simp: PGSIZE_def)
    moreover have "PGSIZE dvd (p + PGSIZE)" using 1(3) by simp
    ultimately obtain k' where k': "freerange_loop kend (p + PGSIZE) vend k1 = Ret k'" "kmem_inv kend k'"
      "page_protect k' = page_protect k1" "set (free_pages k') = set (free_pages k1) \<union> ?new (p + PGSIZE)"
      using 1(1) [OF True k1(2)] 1(4,5) by auto
    have "q = p \<or> p + PGSIZE \<le> q" if "p \<le> q" "PGSIZE dvd q" for q
      using that 1(3) by (auto simp: PGSIZE_def elim!: dvdE)
    then have "?new p = insert p (?new (p + PGSIZE))" using True 1(3) by auto
    then show ?thesis using k' k1 True by (subst freerange_loop.simps) auto
  next
    case False
    then show ?thesis using 1(2) by (subst freerange_loop.simps) (auto simp: PGSIZE_def)
  qed
qed

lemma PGROUNDUP_bounds: "PGSIZE dvd PGROUNDUP a" "a \<le> PGROUNDUP a" "PGSIZE dvd q \<Longrightarrow> PGROUNDUP a \<le> q \<longleftrightarrow> a \<le> q"
  by (auto simp: PGROUNDUP_def PGSIZE_def elim!: dvdE)

text \<open>The zeroed \<open>kmem\<close> of the kernel image, over any contents of memory.\<close>

definition boot_kmem :: "mem \<Rightarrow> kmem" where
  "boot_kmem m = \<lparr>use_lock = False, page_cnt = 0, page_protect = 0, freelist = 0, ram = m\<rparr>"

lemma boot_inv: "KERNBASE \<le> kend \<Longrightarrow> kmem_inv kend (boot_kmem m) \<and> free_pages (boot_kmem m) = []"
  by (rule kmem_invI) (auto simp: boot_kmem_def)

lemma kinit1_inv:
  assumes "KERNBASE \<le> kend" "vend \<le> KERNBASE + PHYSTOP"
  shows "\<exists>k. kinit1 kend kend vend (boot_kmem m) = Ret k \<and> kmem_inv kend k \<and> page_protect k = 0 \<and>
    set (free_pages k) = {q. kend \<le> q \<and> q + PGSIZE \<le> vend \<and> PGSIZE dvd q}"
proof -
  have "(boot_kmem m)\<lparr>use_lock := False\<rparr> = boot_kmem m" by (simp add: boot_kmem_def)
  moreover have "page_protect (boot_kmem m) = 0" by (simp add: boot_kmem_def)
  moreover have "{q. PGROUNDUP kend \<le> q \<and> q + PGSIZE \<le> vend \<and> PGSIZE dvd q}
    = {q. kend \<le> q \<and> q + PGSIZE \<le> vend \<and> PGSIZE dvd q}"
    using PGROUNDUP_bounds(3) by blast
  ultimately show ?thesis
    using freerange_loop_inv [of kend "boot_kmem m" "PGROUNDUP kend" vend] boot_inv [OF assms(1), of m] assms
      PGROUNDUP_bounds [of kend] by (simp add: kinit1_def freerange_def)
qed

lemma kinit2_inv:
  assumes "kmem_inv kend k" "PGSIZE dvd v1" "kend \<le> v1" "v2 \<le> KERNBASE + PHYSTOP"
    "\<forall>q\<in>set (free_pages k). q < v1"
  shows "\<exists>k'. kinit2 kend v1 v2 k = Ret k' \<and> kmem_inv kend k' \<and> page_protect k' = 0 \<and> use_lock k' \<and>
    set (free_pages k') = set (free_pages k) \<union> {q. v1 \<le> q \<and> q + PGSIZE \<le> v2 \<and> PGSIZE dvd q}"
proof -
  have "PGROUNDUP v1 = v1" using PGROUNDUP_bounds(2) PGROUNDUP_bounds(3) [OF assms(2), of v1] by (intro antisym) simp_all
  then obtain k1 where k1: "freerange kend v1 v2 k = Ret k1" "kmem_inv kend k1"
    "set (free_pages k1) = set (free_pages k) \<union> {q. v1 \<le> q \<and> q + PGSIZE \<le> v2 \<and> PGSIZE dvd q}"
    using freerange_loop_inv [OF assms] by (auto simp: freerange_def)
  moreover have "kmem_inv kend (k1\<lparr>page_protect := 0, use_lock := True\<rparr>)"
    "free_pages (k1\<lparr>page_protect := 0, use_lock := True\<rparr>) = free_pages k1"
    using k1(2) by (simp_all add: kmem_inv_def free_pages_def)
  ultimately show ?thesis by (simp add: kinit2_def)
qed

section \<open>The allocator as an interface\<close>

text \<open>
  What the users of the allocator do: take a page, give back one of the pages they hold, or write
  to a page they hold.
\<close>

datatype page_req = Get | Put nat | Write nat nat u8

fun serve :: "('s \<Rightarrow> 's \<times> nat) \<Rightarrow> (nat \<Rightarrow> 's \<Rightarrow> 's outcome) \<Rightarrow> (nat \<Rightarrow> u8 \<Rightarrow> 's \<Rightarrow> 's) \<Rightarrow>
    page_req \<Rightarrow> 's \<times> nat list \<Rightarrow> ('s \<times> nat list) outcome" where
  "serve alloc free poke Get (s, own) = (case alloc s of (s', p) \<Rightarrow> Ret (s', if p = 0 then own else p # own))"
| "serve alloc free poke (Put i) (s, own) =
    (if i < length own then bindO (free (own ! i) s) (\<lambda>s'. Ret (s', remove1 (own ! i) own)) else Ret (s, own))"
| "serve alloc free poke (Write i off b) (s, own) =
    (if i < length own \<and> off < PGSIZE then Ret (poke (own ! i + off) b s, own) else Ret (s, own))"

fun serve_all :: "('s \<Rightarrow> 's \<times> nat) \<Rightarrow> (nat \<Rightarrow> 's \<Rightarrow> 's outcome) \<Rightarrow> (nat \<Rightarrow> u8 \<Rightarrow> 's \<Rightarrow> 's) \<Rightarrow>
    page_req list \<Rightarrow> 's \<times> nat list \<Rightarrow> ('s \<times> nat list) outcome" where
  "serve_all alloc free poke [] st = Ret st"
| "serve_all alloc free poke (r # rs) st = bindO (serve alloc free poke r st) (serve_all alloc free poke rs)"

locale page_allocator =
  fixes alloc :: "'s \<Rightarrow> 's \<times> nat"
    and free :: "nat \<Rightarrow> 's \<Rightarrow> 's outcome"
    and poke :: "nat \<Rightarrow> u8 \<Rightarrow> 's \<Rightarrow> 's"
    and pages :: "'s \<Rightarrow> nat set"
    and inv :: "'s \<Rightarrow> bool"
    and valid :: "nat \<Rightarrow> bool"
  assumes alloc_null: "inv s \<Longrightarrow> alloc s = (s', 0) \<Longrightarrow> inv s' \<and> pages s' = pages s"
    and alloc_page: "inv s \<Longrightarrow> alloc s = (s', p) \<Longrightarrow> p \<noteq> 0 \<Longrightarrow>
      inv s' \<and> p \<in> pages s \<and> pages s' = pages s - {p}"
    and free_page: "inv s \<Longrightarrow> valid p \<Longrightarrow> p \<notin> pages s \<Longrightarrow>
      \<exists>s'. free p s = Ret s' \<and> inv s' \<and> pages s' = insert p (pages s)"
    and poke_page: "inv s \<Longrightarrow> valid p \<Longrightarrow> p \<notin> pages s \<Longrightarrow> i < PGSIZE \<Longrightarrow>
      inv (poke (p + i) b s) \<and> pages (poke (p + i) b s) = pages s"
    and pages_valid: "inv s \<Longrightarrow> p \<in> pages s \<Longrightarrow> valid p"
begin

text \<open>The pages held by the users are theirs alone, and no page is lost.\<close>

definition owned :: "nat set \<Rightarrow> 's \<times> nat list \<Rightarrow> bool" where
  "owned all = (\<lambda>(s, own). inv s \<and> distinct own \<and> list_all valid own \<and> set own \<inter> pages s = {} \<and>
     pages s \<union> set own = all)"

lemma serve_owned:
  assumes "owned all st"
  shows "\<exists>st'. serve alloc free poke r st = Ret st' \<and> owned all st'"
proof -
  obtain s own where st: "st = (s, own)" by (cases st)
  show ?thesis
  proof (cases r)
    case Get
    obtain s' p where sp: "alloc s = (s', p)" by (cases "alloc s")
    show ?thesis
    proof (cases "p = 0")
      case True
      then show ?thesis using assms alloc_null [of s s'] sp st Get by (auto simp: owned_def)
    next
      case False
      then show ?thesis using assms alloc_page [of s s' p] pages_valid [of s p] sp st Get by (auto simp: owned_def)
    qed
  next
    case (Put i)
    show ?thesis
    proof (cases "i < length own")
      case True
      then have "own ! i \<in> set own" by simp
      moreover from this have "valid (own ! i)" "own ! i \<notin> pages s"
        using assms st by (auto simp: owned_def list_all_iff)
      then obtain s' where "free (own ! i) s = Ret s'" "inv s'" "pages s' = insert (own ! i) (pages s)"
        using free_page [of s "own ! i"] assms st by (auto simp: owned_def)
      ultimately show ?thesis using True assms st Put by (auto simp: owned_def list_all_iff dest: notin_set_remove1)
    qed (use assms st Put in simp)
  next
    case (Write i off b)
    show ?thesis
    proof (cases "i < length own \<and> off < PGSIZE")
      case True
      then have "own ! i \<in> set own" by simp
      then have "valid (own ! i)" "own ! i \<notin> pages s" using assms st by (auto simp: owned_def list_all_iff)
      then show ?thesis using True poke_page [of s "own ! i" off b] assms st Write by (auto simp: owned_def)
    qed (use assms st Write in auto)
  qed
qed

lemma serve_all_owned: "owned all st \<Longrightarrow> \<exists>st'. serve_all alloc free poke rs st = Ret st' \<and> owned all st'"
proof (induction rs arbitrary: st)
  case (Cons r rs)
  then show ?case using serve_owned [OF Cons.prems, of r] by auto
qed simp

end

definition poke :: "nat \<Rightarrow> u8 \<Rightarrow> kmem \<Rightarrow> kmem" where
  "poke a b k = k\<lparr>ram := (ram k)(a := b)\<rparr>"

interpretation kpages: page_allocator kalloc "kfree kend" poke "\<lambda>k. set (free_pages k)" "kmem_inv kend" "managed kend"
  for kend
proof
  fix k k' p
  assume inv: "kmem_inv kend k" and k': "kalloc k = (k', p)" and p: "p \<noteq> 0"
  from kalloc_inv [OF inv k'] p have "kmem_inv kend k'" "free_pages k = p # free_pages k'" by (auto split: if_splits)
  moreover from inv have "distinct (free_pages k)" by (simp add: kmem_inv_def Let_def)
  ultimately show "kmem_inv kend k' \<and> p \<in> set (free_pages k) \<and> set (free_pages k') = set (free_pages k) - {p}" by auto
next
  fix k p i b
  assume inv: "kmem_inv kend k" and p: "managed kend p" "p \<notin> set (free_pages k)" and i: "i < PGSIZE"
  have frame: "((ram k)(p + i := b)) (q + j) = ram k (q + j)" if "q \<in> set (free_pages k)" "j < PGSIZE" for q j
  proof -
    have "managed kend q" "q \<noteq> p" using that p inv by (auto simp: kmem_inv_def Let_def list_all_iff)
    from managed_disjoint [OF this(1) p(1) this(2) that(2)] i have "q + j \<noteq> p + i" by auto
    then show ?thesis by simp
  qed
  have "kmem_inv kend (poke (p + i) b k) \<and> free_pages (poke (p + i) b k) = free_pages k"
    unfolding poke_def by (rule kmem_inv_frame [OF inv]) (rule frame)
  then show "kmem_inv kend (poke (p + i) b k) \<and> set (free_pages (poke (p + i) b k)) = set (free_pages k)" by simp
next
  fix k p
  assume "kmem_inv kend k" "managed kend p" "p \<notin> set (free_pages k)"
  then obtain k' where "kfree kend p k = Ret k'" "kmem_inv kend k'" "free_pages k' = p # free_pages k"
    by (rule kfree_inv)
  then show "\<exists>k'. kfree kend p k = Ret k' \<and> kmem_inv kend k' \<and> set (free_pages k') = insert p (set (free_pages k))"
    by simp
next
  fix k k'
  assume "kmem_inv kend k" "kalloc k = (k', 0)"
  from kalloc_inv [OF this] show "kmem_inv kend k' \<and> set (free_pages k') = set (free_pages k)"
    by (auto split: if_splits)
qed (auto simp: kmem_inv_def Let_def list_all_iff)

section \<open>Properties\<close>

text \<open>
  Claim C3. Whatever pages its users take, write to and give back, in any order, the allocator
  never panics and keeps its free list intact: every page is either free or held by exactly one
  holder, and no page is lost or invented.
\<close>

theorem pages_have_one_owner:
  assumes "kmem_inv kend k"
  shows "\<exists>k' own. serve_all kalloc (kfree kend) poke reqs (k, []) = Ret (k', own) \<and> kmem_inv kend k' \<and>
    distinct own \<and> set own \<inter> set (free_pages k') = {} \<and> set own \<union> set (free_pages k') = set (free_pages k)"
proof -
  have "kpages.owned kend (set (free_pages k)) (k, [])" using assms by (simp add: kpages.owned_def)
  from kpages.serve_all_owned [OF this, of reqs] show ?thesis by (auto simp: kpages.owned_def)
qed

text \<open>The allocator after a first start-up phase over three pages.\<close>

theorem pages_have_one_owner_witness:
  "\<exists>k k' own. kinit1 KERNBASE KERNBASE (KERNBASE + 3 * PGSIZE) (boot_kmem (\<lambda>_. 0)) = Ret k \<and>
    serve_all kalloc (kfree KERNBASE) poke [Get, Write 0 7 9, Get, Put 1, Get] (k, []) = Ret (k', own) \<and>
    distinct own \<and> set own \<inter> set (free_pages k') = {} \<and> set own \<union> set (free_pages k') = set (free_pages k)"
proof -
  obtain k where k: "kinit1 KERNBASE KERNBASE (KERNBASE + 3 * PGSIZE) (boot_kmem (\<lambda>_. 0)) = Ret k" "kmem_inv KERNBASE k"
    using kinit1_inv [of KERNBASE "KERNBASE + 3 * PGSIZE" "\<lambda>_. 0"] by (auto simp: PHYSTOP_def PGSIZE_def)
  with pages_have_one_owner [OF k(2), of "[Get, Write 0 7 9, Get, Put 1, Get]"] show ?thesis by blast
qed

text \<open>
  The steps of the allocator seen from the memory controller: pages come and go, and the number
  of pages reserved for control groups with a memory minimum changes. A group asks for no more pages than a
  32-bit address space has, and gives back no more than are reserved.
\<close>

definition MAX_PAGES :: int where "MAX_PAGES = 2 ^ 20"

inductive kmem_step :: "nat \<Rightarrow> kmem \<Rightarrow> kmem \<Rightarrow> bool" for kend where
  alloc: "kalloc k = (k', r) \<Longrightarrow> kmem_step kend k k'"
| free: "managed kend v \<Longrightarrow> v \<notin> set (free_pages k) \<Longrightarrow> kfree kend v k = Ret k' \<Longrightarrow> kmem_step kend k k'"
| protect: "- page_protect k \<le> num \<Longrightarrow> num \<le> MAX_PAGES \<Longrightarrow> increse_protect_counter num k = (k', e) \<Longrightarrow> kmem_step kend k k'"
| unprotect: "0 \<le> num \<Longrightarrow> num \<le> page_protect k \<Longrightarrow> decrese_protect_counter num k = (k', e) \<Longrightarrow> kmem_step kend k k'"

definition protected_inv :: "nat \<Rightarrow> kmem \<Rightarrow> bool" where
  "protected_inv kend k = (kmem_inv kend k \<and> 0 \<le> page_protect k \<and> page_protect k \<le> page_cnt k)"

lemma kmem_inv_protect: "kmem_inv kend (k\<lparr>page_protect := n\<rparr>) = kmem_inv kend k"
  by (simp add: kmem_inv_def free_pages_def)

lemma page_cnt_free_pages: "kmem_inv kend k \<Longrightarrow> page_cnt k = int (length (free_pages k))"
  by (simp add: kmem_inv_def Let_def length_free_pages)

lemma page_cnt_bound:
  assumes "kmem_inv kend k"
  shows "page_cnt k \<le> MAX_PAGES"
proof -
  let ?ps = "free_pages k"
  have m: "p mod PGSIZE = 0 \<and> p < KERNBASE + PHYSTOP" if "p \<in> set ?ps" for p
    using assms that by (auto simp: kmem_inv_def Let_def list_all_iff managed_def)
  have "inj_on (\<lambda>p. p div PGSIZE) (set ?ps)"
  proof (rule inj_onI)
    fix p q assume pq: "p \<in> set ?ps" "q \<in> set ?ps" "p div PGSIZE = q div PGSIZE"
    then show "p = q" using m [OF pq(1)] m [OF pq(2)] by (metis div_mult_mod_eq)
  qed
  moreover have "(\<lambda>p. p div PGSIZE) ` set ?ps \<subseteq> {..<2 ^ 20}"
    using m by (force simp: KERNBASE_def PHYSTOP_def PGSIZE_def)
  ultimately have "card (set ?ps) \<le> 2 ^ 20" using card_inj_on_le [of _ _ "{..<2 ^ 20 :: nat}"] by simp
  moreover have "distinct ?ps" using assms by (simp add: kmem_inv_def Let_def)
  ultimately show ?thesis using page_cnt_free_pages [OF assms] distinct_card [of ?ps] by (simp add: MAX_PAGES_def)
qed

lemma protect_exact:
  assumes "protected_inv kend k" "- page_protect k \<le> num" "num \<le> MAX_PAGES"
  shows "increse_protect_counter num k =
    (if num + page_protect k \<le> page_cnt k then (k\<lparr>page_protect := num + page_protect k\<rparr>, 0) else (k, 1))"
proof -
  have b: "0 \<le> page_protect k" "page_protect k \<le> page_cnt k" "page_cnt k \<le> 2 ^ 20" "num \<le> 2 ^ 20"
    using assms page_cnt_bound [of kend k] by (auto simp: protected_inv_def MAX_PAGES_def)
  then have "wrap32 (num + page_protect k) = num + page_protect k" "wrap32 (num * - 1) = - num"
    using assms(2) by (auto intro!: wrap32_id)
  then show ?thesis using b assms(2) by (auto simp: increse_protect_counter_def decrese_protect_counter_def add.commute)
qed

lemma unprotect_exact:
  assumes "protected_inv kend k" "0 \<le> num" "num \<le> page_protect k"
  shows "decrese_protect_counter num k = (k\<lparr>page_protect := page_protect k - num\<rparr>, 0)"
proof -
  have "page_protect k \<le> 2 ^ 20" using assms(1) page_cnt_bound [of kend k] by (auto simp: protected_inv_def MAX_PAGES_def)
  then have "wrap32 (page_protect k - num) = page_protect k - num" using assms(2,3) by (intro wrap32_id) auto
  then show ?thesis by (simp add: decrese_protect_counter_def)
qed

lemma kmem_step_protected: "kmem_step kend k k' \<Longrightarrow> protected_inv kend k \<Longrightarrow> protected_inv kend k'"
proof (induction rule: kmem_step.induct)
  case (alloc k k' r)
  then show ?case
    using kalloc_inv [of kend k k' r] page_cnt_free_pages [of kend k] page_cnt_free_pages [of kend k']
    by (auto simp: protected_inv_def split: if_splits)
next
  case (free v k k')
  then obtain k1 where "kfree kend v k = Ret k1" "kmem_inv kend k1" "free_pages k1 = v # free_pages k"
    "page_protect k1 = page_protect k"
    using kfree_inv [of kend k v] by (auto simp: protected_inv_def)
  then show ?case using free page_cnt_free_pages [of kend k] page_cnt_free_pages [of kend k1]
    by (auto simp: protected_inv_def)
next
  case (protect k num k' e)
  then show ?case using protect_exact [of kend k num] by (auto simp: protected_inv_def kmem_inv_protect split: if_splits)
next
  case (unprotect num k k' e)
  then show ?case using unprotect_exact [of kend k num] by (auto simp: protected_inv_def kmem_inv_protect)
qed

text \<open>
  Claim C4. As long as each call runs alone, a group asks for at most the pages of a 32-bit address space and no more are
  given back than are reserved, the counter of reserved pages does not overflow and the number of free pages never
  falls below it: a reservation is granted exactly when enough pages are free, and \<open>kalloc\<close> returns null instead of taking a
  reserved page.
\<close>

theorem reserved_pages_stay_free:
  assumes "(kmem_step kend)\<^sup>*\<^sup>* k k'" "kmem_inv kend k" "0 \<le> page_protect k" "page_protect k \<le> page_cnt k"
  shows "0 \<le> page_protect k' \<and> page_protect k' \<le> int (length (free_pages k')) \<and>
    (\<forall>num. 0 \<le> num \<and> num \<le> MAX_PAGES \<longrightarrow> snd (increse_protect_counter num k') =
       (if page_protect k' + num \<le> int (length (free_pages k')) then 0 else 1))"
proof -
  have "protected_inv kend k" using assms(2-4) by (simp add: protected_inv_def)
  with assms(1) have inv: "protected_inv kend k'" by (induction rule: rtranclp_induct) (auto intro: kmem_step_protected)
  then have "page_cnt k' = int (length (free_pages k'))" using page_cnt_free_pages [of kend k'] by (simp add: protected_inv_def)
  then show ?thesis using inv protect_exact [OF inv] by (auto simp: protected_inv_def add.commute)
qed

theorem reserved_pages_stay_free_witness:
  "\<exists>k k'. kmem_inv KERNBASE k \<and> (kmem_step KERNBASE)\<^sup>*\<^sup>* k k' \<and> page_protect k' = 1 \<and> snd (increse_protect_counter 1 k') = 1"
proof -
  let ?k = "boot_kmem (\<lambda>_. 0)"
  have inv: "kmem_inv KERNBASE ?k" "free_pages ?k = []" using boot_inv [of KERNBASE] by simp_all
  obtain k1 where k1: "kfree KERNBASE KERNBASE ?k = Ret k1" "free_pages k1 = [KERNBASE]" "kmem_inv KERNBASE k1" "page_protect k1 = 0"
    using kfree_inv [OF inv(1), of KERNBASE] inv(2) by (auto simp: managed_def KERNBASE_def PGSIZE_def PHYSTOP_def boot_kmem_def)
  have "kmem_step KERNBASE ?k k1"
    by (rule kmem_step.free [OF _ _ k1(1)]) (auto simp: inv managed_def KERNBASE_def PGSIZE_def PHYSTOP_def)
  moreover have "increse_protect_counter 1 k1 = (k1\<lparr>page_protect := 1\<rparr>, 0)"
    using protect_exact [of KERNBASE k1 1] k1 page_cnt_free_pages [OF k1(3)] by (simp add: protected_inv_def MAX_PAGES_def)
  then have "kmem_step KERNBASE k1 (k1\<lparr>page_protect := 1\<rparr>)"
    using kmem_step.protect [of k1 1] k1(4) by (simp add: MAX_PAGES_def)
  ultimately have r: "(kmem_step KERNBASE)\<^sup>*\<^sup>* ?k (k1\<lparr>page_protect := 1\<rparr>)" by (meson rtranclp.simps)
  have "free_pages (k1\<lparr>page_protect := 1\<rparr>) = [KERNBASE]" using k1(2) by (simp add: free_pages_def)
  then have "snd (increse_protect_counter 1 (k1\<lparr>page_protect := 1\<rparr>)) = 1"
    using reserved_pages_stay_free [OF r inv(1)] by (simp add: boot_kmem_def MAX_PAGES_def)
  then show ?thesis using inv(1) r by (intro exI [of _ ?k] exI [of _ "k1\<lparr>page_protect := 1\<rparr>"]) simp
qed

text \<open>
  Claim C5. The test in \<open>kalloc\<close> against the reserved pages is made before the lock is taken. Two
  processors that both make it when a single unreserved page is left both go on to take a page,
  and the free pages fall below the reservation.
\<close>

theorem kalloc_reservation_race:
  assumes "kmem_inv kend k" "page_cnt k = page_protect k + 1" "1 \<le> page_protect k"
  shows "\<not> kalloc_full k \<and>
    (case kalloc_take k of (k1, r1) \<Rightarrow> case kalloc_take k1 of (k2, r2) \<Rightarrow>
       r1 \<noteq> 0 \<and> r2 \<noteq> 0 \<and> page_cnt k2 < page_protect k2)"
proof -
  obtain k1 r1 where t1: "kalloc_take k = (k1, r1)" by (cases "kalloc_take k")
  obtain k2 r2 where t2: "kalloc_take k1 = (k2, r2)" by (cases "kalloc_take k1")
  have len: "2 \<le> length (free_pages k)" using assms page_cnt_free_pages [of kend k] by simp
  then obtain p q ps where ps: "free_pages k = p # q # ps"
    by (cases "free_pages k"; cases "tl (free_pages k)") auto
  note s1 = kalloc_take_inv [OF assms(1) t1]
  then have s2: "kmem_inv kend k2 \<and> page_protect k2 = page_protect k1 \<and> r2 = q \<and> q \<noteq> 0 \<and> free_pages k2 = ps"
    using kalloc_take_inv [of kend k1 k2 r2] t2 ps by auto
  have "page_cnt k = int (length ps) + 2" "page_cnt k2 = int (length ps)"
    using ps s2 page_cnt_free_pages [OF assms(1)] page_cnt_free_pages [of kend k2] by auto
  then show ?thesis using s1 s2 t1 t2 ps assms by (auto simp: kalloc_full_def)
qed

theorem kalloc_reservation_race_witness:
  "\<exists>k. kmem_inv KERNBASE k \<and> page_protect k = 1 \<and> \<not> kalloc_full k \<and>
    (case kalloc_take k of (k1, r1) \<Rightarrow> case kalloc_take k1 of (k2, r2) \<Rightarrow>
       r1 \<noteq> 0 \<and> r2 \<noteq> 0 \<and> page_cnt k2 < page_protect k2)"
proof -
  let ?k = "boot_kmem (\<lambda>_. 0)"
  have inv: "kmem_inv KERNBASE ?k" "free_pages ?k = []" using boot_inv [of KERNBASE] by simp_all
  have m: "managed KERNBASE KERNBASE" "managed KERNBASE (KERNBASE + PGSIZE)" 
    by (auto simp: managed_def KERNBASE_def PGSIZE_def PHYSTOP_def)
  obtain k1 where k1: "kmem_inv KERNBASE k1" "free_pages k1 = [KERNBASE]"
    by (rule kfree_inv [OF inv(1) m(1)]) (simp_all add: inv)
  obtain k2 where k2: "kmem_inv KERNBASE k2" "free_pages k2 = [KERNBASE + PGSIZE, KERNBASE]"
    by (rule kfree_inv [OF k1(1) m(2)]) (simp_all add: k1 PGSIZE_def)
  let ?k2 = "k2\<lparr>page_protect := 1\<rparr>"
  have "kmem_inv KERNBASE ?k2" "page_cnt ?k2 = page_protect ?k2 + 1" "1 \<le> page_protect ?k2"
    using k2 page_cnt_free_pages [OF k2(1)] by (simp_all add: kmem_inv_protect)
  from kalloc_reservation_race [OF this] show ?thesis using \<open>kmem_inv KERNBASE ?k2\<close> by (intro exI [of _ ?k2]) simp
qed

text \<open>
  The start-up calls put every whole page between the end of the kernel and the top of
  memory on the free list, once, with the counter equal to the length of the list and every page
  filled with junk: the self test \<open>kmemtest\<close> returns zero.
\<close>

theorem kinit_frees_all_memory:
  assumes "KERNBASE \<le> kend" "kend \<le> v1" "v1 mod PGSIZE = 0" "v1 \<le> v2" "v2 \<le> KERNBASE + PHYSTOP"
  shows "\<exists>k1 k2. kinit1 kend kend v1 (boot_kmem m) = Ret k1 \<and> kinit2 kend v1 v2 k1 = Ret k2 \<and>
    set (free_pages k2) = {q. kend \<le> q \<and> q + PGSIZE \<le> v2 \<and> q mod PGSIZE = 0} \<and> distinct (free_pages k2) \<and>
    get_total_memory k2 = int (length (free_pages k2)) \<and> kmemtest k2 = Some 0"
proof -
  obtain k1 where k1: "kinit1 kend kend v1 (boot_kmem m) = Ret k1" "kmem_inv kend k1"
    "set (free_pages k1) = {q. kend \<le> q \<and> q + PGSIZE \<le> v1 \<and> PGSIZE dvd q}"
    using kinit1_inv [of kend v1 m] assms by auto
  have "\<forall>q\<in>set (free_pages k1). q < v1" using k1(3) by (auto simp: PGSIZE_def)
  then obtain k2 where k2: "kinit2 kend v1 v2 k1 = Ret k2" "kmem_inv kend k2"
    "set (free_pages k2) = set (free_pages k1) \<union> {q. v1 \<le> q \<and> q + PGSIZE \<le> v2 \<and> PGSIZE dvd q}"
    using kinit2_inv [OF k1(2), of v1 v2] assms by auto
  have split: "q + PGSIZE \<le> v1 \<or> v1 \<le> q" if "PGSIZE dvd q" for q
    using that assms(3) by (auto simp: PGSIZE_def elim!: dvdE)
  have set: "set (free_pages k2) = {q. kend \<le> q \<and> q + PGSIZE \<le> v2 \<and> q mod PGSIZE = 0}"
    unfolding k2(3) k1(3) mod_eq_0_iff_dvd using split assms(2,4) by force
  have "filter (page_err (ram k2)) (free_pages k2) = []"
    using k2(2) by (auto simp: kmem_inv_def Let_def list_all_iff filter_empty_conv)
  moreover have "list_at (ram k2) (freelist k2) (free_pages k2)" and dist: "distinct (free_pages k2)"
    using k2(2) by (simp_all add: kmem_inv_def Let_def)
  ultimately have test: "kmemtest k2 = Some 0"
    using kmemtest_loop_list [of "ram k2" "freelist k2" "free_pages k2" 0 0] kmem_inv_nonzero [OF k2(2)]
      page_cnt_free_pages [OF k2(2)] by (simp add: kmemtest_def)
  have "get_total_memory k2 = int (length (free_pages k2))"
    using page_cnt_free_pages [OF k2(2)] by (simp add: get_total_memory_def)
  with k1(1) k2(1) set dist test show ?thesis by blast
qed

theorem kinit_frees_all_memory_witness:
  "\<exists>k1 k2. kinit1 0x80115000 0x80115000 0x80400000 (boot_kmem (\<lambda>_. 0)) = Ret k1 \<and> kinit2 0x80115000 0x80400000 0x8E000000 k1 = Ret k2 \<and>
    set (free_pages k2) = {q. 0x80115000 \<le> q \<and> q + PGSIZE \<le> 0x8E000000 \<and> q mod PGSIZE = 0} \<and> distinct (free_pages k2) \<and>
    get_total_memory k2 = int (length (free_pages k2)) \<and> kmemtest k2 = Some 0"
  by (rule kinit_frees_all_memory) (simp_all add: KERNBASE_def PHYSTOP_def PGSIZE_def)

end
