(* ===== verification/Kvector.thy ===== *)
theory Kvector
  imports Kalloc
begin

text \<open>
  The vectors of \<open>kernel/kvector.c\<close>: a doubly linked list of pages taken from the page allocator,
  each holding two pointers and then elements. Everything lives in the byte memory of the
  allocator; a pointer is an address and \<open>NULL\<close> is 0. The bytes a caller passes in or gets out
  through a pointer are byte lists.
\<close>

section \<open>Definitions\<close>

record vector =
  vectorsize :: nat
  typesize :: nat
  head :: nat
  tail :: nat
  lastaccessed :: nat
  lastindexaccessed :: nat
  valid :: bool

text \<open>The two pointers at the start of a segment.\<close>

definition setprev :: "mem \<Rightarrow> nat \<Rightarrow> nat \<Rightarrow> mem" where
  "setprev m sgmnt p = store32 m sgmnt (of_nat p)"

definition setnext :: "mem \<Rightarrow> nat \<Rightarrow> nat \<Rightarrow> mem" where
  "setnext m sgmnt p = store32 m (sgmnt + 4) (of_nat p)"

definition getprev :: "mem \<Rightarrow> nat \<Rightarrow> nat" where
  "getprev m sgmnt = unat (load32 m sgmnt)"

definition getnext :: "mem \<Rightarrow> nat \<Rightarrow> nat" where
  "getnext m sgmnt = unat (load32 m (sgmnt + 4))"

definition pointersspace :: nat where "pointersspace = 8"

definition elementsperpage :: "nat \<Rightarrow> nat" where
  "elementsperpage elementsize = (PGSIZE - pointersspace) div elementsize"

definition getpageforindex :: "vector \<Rightarrow> nat \<Rightarrow> nat \<times> nat" where
  "getpageforindex v index = (index div elementsperpage (typesize v), index mod elementsperpage (typesize v))"

definition countpages :: "vector \<Rightarrow> nat" where
  "countpages v = fst (getpageforindex v ((vectorsize v + (2 ^ 32 - 1)) mod 2 ^ 32)) + 1"

partial_function (option) countactualpages_loop :: "mem \<Rightarrow> nat \<Rightarrow> nat \<Rightarrow> nat option" where
  "countactualpages_loop m p counter =
    (if p = 0 then Some counter else countactualpages_loop m (getnext m p) (counter + 1))"

definition countactualpages :: "mem \<Rightarrow> vector \<Rightarrow> nat option" where
  "countactualpages m v = countactualpages_loop m (head v) 0"

primrec walkpages :: "mem \<Rightarrow> nat \<Rightarrow> nat \<Rightarrow> nat" where
  "walkpages m p 0 = p"
| "walkpages m p (Suc n) = walkpages m (getnext m p) n"

definition getelementpointer :: "mem \<Rightarrow> vector \<Rightarrow> nat \<Rightarrow> nat" where
  "getelementpointer m v index =
    (if valid v \<and> vectorsize v > index then
       case getpageforindex v index of (pageindex, pageoffset) \<Rightarrow>
         walkpages m (head v) pageindex + (pointersspace + pageoffset * typesize v)
     else 0)"

fun writebytes :: "mem \<Rightarrow> nat \<Rightarrow> u8 list \<Rightarrow> mem" where
  "writebytes m a [] = m"
| "writebytes m a (c # cs) = writebytes (m(a := c)) (a + 1) cs"

definition readbytes :: "mem \<Rightarrow> nat \<Rightarrow> nat \<Rightarrow> u8 list" where
  "readbytes m a n = map (\<lambda>i. m (a + i)) [0..<n]"

definition setelement :: "mem \<Rightarrow> vector \<Rightarrow> nat \<Rightarrow> u8 list \<Rightarrow> mem \<times> nat" where
  "setelement m v index data =
    (if valid v \<and> vectorsize v \<noteq> 0 \<and> vectorsize v > index then
       case getpageforindex v index of (pageindex, pageoffset) \<Rightarrow>
         let currentpage = walkpages m (head v) pageindex
         in (writebytes m (currentpage + (pointersspace + pageoffset * typesize v)) (take (typesize v) data), 1)
     else (m, 0))"

definition setbyte :: "mem \<Rightarrow> vector \<Rightarrow> nat \<Rightarrow> u8 \<Rightarrow> mem \<times> nat" where
  "setbyte m v index databyte =
    (if valid v \<and> (vectorsize v * typesize v) mod 2 ^ 32 > index then
       let bytesperpage = PGSIZE - pointersspace;
           pageindex = index div bytesperpage;
           pageoffset = index mod bytesperpage;
           currentpage = walkpages m (head v) pageindex
       in (m(currentpage + (pointersspace + pageoffset) := databyte), 1)
     else (m, 0))"

text \<open>
  \<open>constructarray\<close>: the loop over the pages it still needs, with the pointers it writes through
  \<open>head\<close> and \<open>tail\<close> and the error flag.
\<close>

fun constructarray_loop :: "bool \<Rightarrow> nat \<Rightarrow> kmem \<Rightarrow> nat \<Rightarrow> nat \<Rightarrow> kmem \<times> nat \<times> nat \<times> bool" where
  "constructarray_loop first 0 k h t = (k, h, t, False)"
| "constructarray_loop first (Suc n) k h t =
    (case kalloc k of (k, p) \<Rightarrow>
       if p \<noteq> 0 then
         let m = memset (ram k) p 0 PGSIZE;
             m = (if first then setprev m p 0 else setnext (setprev m p t) t p);
             h = (if first then p else h);
             m = setnext m p 0
         in constructarray_loop False n (k\<lparr>ram := m\<rparr>) h p
       else (k, h, t, True))"

definition requiredpages :: "nat \<Rightarrow> nat \<Rightarrow> nat" where
  "requiredpages numberofelements elementsize =
    numberofelements div elementsperpage elementsize + (if numberofelements mod elementsperpage elementsize \<noteq> 0 then 1 else 0)"

definition constructarray :: "kmem \<Rightarrow> nat \<Rightarrow> nat \<Rightarrow> nat \<Rightarrow> nat \<Rightarrow> (kmem \<times> nat \<times> nat \<times> bool) outcome" where
  "constructarray k h t numberofelements elementsize =
    (if elementsize > PGSIZE - pointersspace then Panic ''kvector element sz is too big''
     else if elementsize = 0 then Panic ''divide error''
     else Ret (constructarray_loop True (requiredpages numberofelements elementsize) k h t))"

text \<open>\<open>newvector\<close> does not initialise \<open>head\<close> and \<open>tail\<close>: \<open>g1\<close> and \<open>g2\<close> are what the stack holds.\<close>

definition newvector :: "nat \<Rightarrow> nat \<Rightarrow> nat \<Rightarrow> nat \<Rightarrow> kmem \<Rightarrow> (kmem \<times> vector) outcome" where
  "newvector g1 g2 sz ts k =
    bindO (constructarray k g1 g2 sz ts) (\<lambda>(k, h, t, error).
      Ret (k, \<lparr>vectorsize = sz, typesize = ts, head = h, tail = t, lastaccessed = 0,
               lastindexaccessed = 2 ^ 32 - 1, valid = \<not> error\<rparr>))"

text \<open>
  Memory is total in the model: the read of the link through a pointer that was never set yields some word. On the
  machine it may instead be a page fault, which the kernel turns into a panic of its own.
\<close>

partial_function (option) freevector_loop :: "nat \<Rightarrow> kmem \<Rightarrow> nat \<Rightarrow> kmem outcome option" where
  "freevector_loop kend k p =
    (if p = 0 then Some (Ret k)
     else
       let nextpage = getnext (ram k) p
       in case kfree kend p k of
            Panic msg \<Rightarrow> Some (Panic msg)
          | Ret k \<Rightarrow> freevector_loop kend k nextpage)"

definition freevector :: "nat \<Rightarrow> kmem \<Rightarrow> vector \<Rightarrow> (kmem \<times> vector) outcome option" where
  "freevector kend k v =
    map_option (\<lambda>r. bindO r (\<lambda>k. Ret (k, v\<lparr>valid := False, head := 0, tail := 0\<rparr>))) (freevector_loop kend k (head v))"

fun memmove_into_vector_bytes :: "mem \<Rightarrow> vector \<Rightarrow> nat \<Rightarrow> u8 list \<Rightarrow> mem" where
  "memmove_into_vector_bytes m dstvec off [] = m"
| "memmove_into_vector_bytes m dstvec off (c # src) =
    memmove_into_vector_bytes (fst (setbyte m dstvec off c)) dstvec (off + 1) src"

fun memmove_into_vector_elements :: "mem \<Rightarrow> vector \<Rightarrow> nat \<Rightarrow> u8 list \<Rightarrow> nat \<Rightarrow> mem" where
  "memmove_into_vector_elements m dstvec off src 0 = m"
| "memmove_into_vector_elements m dstvec off src (Suc sz) =
    memmove_into_vector_elements (fst (setelement m dstvec off src)) dstvec (off + 1) (drop (typesize dstvec) src) sz"

definition memmove_from_vector :: "mem \<Rightarrow> vector \<Rightarrow> nat \<Rightarrow> nat \<Rightarrow> u8 list" where
  "memmove_from_vector m vec elementoffset elementcount =
    concat (map (\<lambda>counter. readbytes m (getelementpointer m vec (elementoffset + counter)) (typesize vec)) [0..<elementcount])"

fun copyelements :: "mem \<Rightarrow> vector \<Rightarrow> nat \<Rightarrow> vector \<Rightarrow> nat \<Rightarrow> nat \<Rightarrow> mem" where
  "copyelements m dst dstoff src srcoff 0 = m"
| "copyelements m dst dstoff src srcoff (Suc cnt) =
    copyelements (fst (setelement m dst dstoff (readbytes m (getelementpointer m src srcoff) (typesize dst))))
      dst (dstoff + 1) src (srcoff + 1) cnt"

definition slicevector :: "nat \<Rightarrow> nat \<Rightarrow> kmem \<Rightarrow> vector \<Rightarrow> nat \<Rightarrow> nat \<Rightarrow> (kmem \<times> vector) outcome" where
  "slicevector g1 g2 k original startfrom inclusiveend =
    (let numberofelements = (inclusiveend + 2 ^ 32 - startfrom) mod 2 ^ 32
     in bindO (newvector g1 g2 numberofelements (typesize original) k) (\<lambda>(k, result).
          Ret (k\<lparr>ram := copyelements (ram k) result 0 original startfrom numberofelements\<rparr>, original)))"

fun vectormemcmp_loop :: "mem \<Rightarrow> vector \<Rightarrow> nat \<Rightarrow> nat \<Rightarrow> nat \<Rightarrow> nat \<Rightarrow> int" where
  "vectormemcmp_loop mem v m i left_bytes 0 = 0"
| "vectormemcmp_loop mem v m i left_bytes (Suc n) =
    (if 0 < left_bytes then
       let bytes_to_compare = min (typesize v) left_bytes;
           retval = memcmp mem (m + i * typesize v) (getelementpointer mem v i) bytes_to_compare
       in if retval = 0 then retval else vectormemcmp_loop mem v m (i + 1) (left_bytes - bytes_to_compare) n
     else 0)"

definition vectormemcmp :: "mem \<Rightarrow> vector \<Rightarrow> nat \<Rightarrow> nat \<Rightarrow> int" where
  "vectormemcmp mem v m bytes = vectormemcmp_loop mem v m 0 bytes (vectorsize v)"

definition copysubvector :: "mem \<Rightarrow> vector option \<Rightarrow> vector option \<Rightarrow> nat \<Rightarrow> nat \<Rightarrow> mem \<times> vector option \<times> nat" where
  "copysubvector m dstvector srcvector srcoffset cnt =
    (case (dstvector, srcvector) of
       (Some dst, Some src) \<Rightarrow>
         if \<not> valid dst \<or> \<not> valid src \<or> vectorsize dst < cnt then (m, dstvector, 0)
         else (copyelements m dst 0 src srcoffset cnt, Some (dst\<lparr>vectorsize := cnt\<rparr>), 1)
     | _ \<Rightarrow> (m, dstvector, 0))"

section \<open>The chain of segments\<close>

fun chain :: "mem \<Rightarrow> nat \<Rightarrow> nat \<Rightarrow> nat list \<Rightarrow> bool" where
  "chain m q p [] = (p = 0)"
| "chain m q p (x # xs) = (p = x \<and> getprev m x = q \<and> chain m x (getnext m x) xs)"

definition zeroed :: "mem \<Rightarrow> nat \<Rightarrow> bool" where
  "zeroed m p = list_all (\<lambda>i. m (p + i) = 0) [pointersspace..<PGSIZE]"

lemma links_cong:
  assumes "\<And>i. i < pointersspace \<Longrightarrow> m' (p + i) = m (p + i)"
  shows "getnext m' p = getnext m p" "getprev m' p = getprev m p"
proof -
  have "load32 m' (p + 4) = load32 m (p + 4)"
    by (rule load32_cong) (use assms [of "4 + _"] in \<open>simp add: pointersspace_def add.assoc\<close>)
  moreover have "load32 m' p = load32 m p"
    by (rule load32_cong) (use assms in \<open>simp add: pointersspace_def\<close>)
  ultimately show "getnext m' p = getnext m p" "getprev m' p = getprev m p" by (simp_all add: getnext_def getprev_def)
qed

lemma chain_cong:
  "(\<And>x i. x \<in> set xs \<Longrightarrow> i < pointersspace \<Longrightarrow> m' (x + i) = m (x + i)) \<Longrightarrow> chain m' q p xs = chain m q p xs"
proof (induction xs arbitrary: q p)
  case (Cons x xs)
  have "getnext m' x = getnext m x" "getprev m' x = getprev m x"
    using links_cong [of m' x m] Cons.prems by auto
  with Cons show ?case by simp
qed simp

lemma walkpages_chain: "chain m q p xs \<Longrightarrow> i < length xs \<Longrightarrow> walkpages m p i = xs ! i"
proof (induction xs arbitrary: q p i)
  case (Cons x xs)
  then show ?case by (cases i) auto
qed simp

lemma chain_snoc:
  assumes "chain m q h xs" "xs \<noteq> []" "distinct xs"
    and "\<And>x. x \<in> set xs \<Longrightarrow> getprev m' x = getprev m x"
    and "\<And>x. x \<in> set xs \<Longrightarrow> x \<noteq> last xs \<Longrightarrow> getnext m' x = getnext m x"
    and "getnext m' (last xs) = p" "getprev m' p = last xs" "getnext m' p = 0"
  shows "chain m' q h (xs @ [p])"
  using assms
proof (induction xs arbitrary: q h)
  case (Cons x xs)
  show ?case
  proof (cases "xs = []")
    case True
    then show ?thesis using Cons.prems by simp
  next
    case False
    then have "x \<noteq> last xs" using Cons.prems(3) by auto
    then have "getnext m' x = getnext m x" using Cons.prems(5) [of x] False by simp
    moreover have "chain m' x (getnext m x) (xs @ [p])"
      using Cons.prems False by (intro Cons.IH) auto
    ultimately show ?thesis using Cons.prems(1,4) by simp
  qed
qed simp

definition good_chain :: "nat \<Rightarrow> kmem \<Rightarrow> nat \<Rightarrow> nat list \<Rightarrow> bool" where
  "good_chain kend k h ps = (kmem_inv kend k \<and> (ps \<noteq> [] \<longrightarrow> chain (ram k) 0 h ps) \<and> distinct ps \<and>
     list_all (managed kend) ps \<and> set ps \<inter> set (free_pages k) = {} \<and> list_all (zeroed (ram k)) ps)"

lemma setlinks_apply [simp]:
  "x < s \<or> s + 4 \<le> x \<Longrightarrow> setprev m s p x = m x" "x < s + 4 \<or> s + 8 \<le> x \<Longrightarrow> setnext m s p x = m x"
  by (auto simp: setprev_def setnext_def)

lemma getlinks_set:
  "p < 2 ^ 32 \<Longrightarrow> getprev (setprev m s p) s = p" "p < 2 ^ 32 \<Longrightarrow> getnext (setnext m s p) s = p"
  by (simp_all add: getprev_def setprev_def getnext_def setnext_def unat_of_nat)

lemma getlinks_other:
  "getprev (setnext m s p) s = getprev m s" "getnext (setprev m s p) s = getnext m s"
  by (auto simp: getprev_def getnext_def intro!: arg_cong [of _ _ unat] load32_cong)

text \<open>The memory after one turn of the loop in \<open>constructarray\<close>.\<close>

definition new_segment :: "mem \<Rightarrow> nat list \<Rightarrow> nat \<Rightarrow> mem" where
  "new_segment m ps p =
    (let m = memset m p 0 PGSIZE;
         m = (if ps = [] then setprev m p 0 else setnext (setprev m p (last ps)) (last ps) p)
     in setnext m p 0)"

lemma new_segment_frame:
  assumes "x < p \<or> p + PGSIZE \<le> x" "ps \<noteq> [] \<longrightarrow> x < last ps + 4 \<or> last ps + 8 \<le> x"
  shows "new_segment m ps p x = m x"
  using assms by (auto simp: new_segment_def Let_def memset_apply PGSIZE_def)

lemma new_segment_links:
  assumes "p < 2 ^ 32" "ps \<noteq> [] \<Longrightarrow> last ps < 2 ^ 32 \<and> (last ps + PGSIZE \<le> p \<or> p + PGSIZE \<le> last ps)"
  shows "getnext (new_segment m ps p) p = 0" 
    "getprev (new_segment m ps p) p = (if ps = [] then 0 else last ps)"
    "ps \<noteq> [] \<Longrightarrow> getnext (new_segment m ps p) (last ps) = p"
    "ps \<noteq> [] \<Longrightarrow> getprev (new_segment m ps p) (last ps) = getprev m (last ps)"
    "zeroed (new_segment m ps p) p"
proof -
  let ?m0 = "memset m p 0 PGSIZE"
  let ?m1 = "if ps = [] then setprev ?m0 p 0 else setnext (setprev ?m0 p (last ps)) (last ps) p"
  have eq: "new_segment m ps p = setnext ?m1 p 0" by (simp add: new_segment_def Let_def)
  show "getnext (new_segment m ps p) p = 0" by (simp add: eq getlinks_set)
  show "getprev (new_segment m ps p) p = (if ps = [] then 0 else last ps)"
  proof (cases "ps = []")
    case False
    have "getprev (setnext (setprev ?m0 p (last ps)) (last ps) p) p = getprev (setprev ?m0 p (last ps)) p"
      using assms(2) [OF False] by (intro links_cong) (auto simp: PGSIZE_def pointersspace_def)
    then show ?thesis using assms(2) [OF False] False by (simp add: eq getlinks_other getlinks_set)
  next
    case True
    then have "new_segment m ps p = setnext (setprev ?m0 p 0) p 0" by (simp add: new_segment_def Let_def)
    then show ?thesis using True by (simp add: getlinks_set getlinks_other)
  qed
  show "getnext (new_segment m ps p) (last ps) = p" if "ps \<noteq> []"
  proof -
    have "getnext (setnext ?m1 p 0) (last ps) = getnext ?m1 (last ps)"
      using assms(2) [OF that] by (intro links_cong) (auto simp: PGSIZE_def pointersspace_def)
    then show ?thesis using that assms(1) by (simp add: eq getlinks_set)
  qed
  show "getprev (new_segment m ps p) (last ps) = getprev m (last ps)" if "ps \<noteq> []"
  proof -
    have "getprev (setnext ?m1 p 0) (last ps) = getprev ?m1 (last ps)"
      using assms(2) [OF that] by (intro links_cong) (auto simp: PGSIZE_def pointersspace_def)
    also have "\<dots> = getprev (setprev ?m0 p (last ps)) (last ps)" using that by (simp add: getlinks_other)
    also have "\<dots> = getprev m (last ps)"
      using assms(2) [OF that] by (intro links_cong) (auto simp: PGSIZE_def pointersspace_def memset_apply)
    finally show ?thesis by (simp add: eq)
  qed
  show "zeroed (new_segment m ps p) p"
  proof (unfold zeroed_def list_all_iff, intro ballI)
    fix i assume "i \<in> set [pointersspace..<PGSIZE]"
    then have i: "pointersspace \<le> i" "i < PGSIZE" by simp_all
    have "?m1 (p + i) = ?m0 (p + i)"
    proof (cases "ps = []")
      case False
      with assms(2) have "last ps + PGSIZE \<le> p \<or> p + PGSIZE \<le> last ps" by blast
      with False i show ?thesis by (auto simp: pointersspace_def PGSIZE_def)
    qed (use i in \<open>simp add: pointersspace_def\<close>)
    then have "new_segment m ps p (p + i) = ?m0 (p + i)"
      using i unfolding eq by (simp add: pointersspace_def)
    then show "new_segment m ps p (p + i) = 0" using i by (simp add: memset_apply)
  qed
qed

lemma kalloc_ram: "kalloc k = (k', p) \<Longrightarrow> ram k' = ram k"
  by (auto simp: kalloc_def kalloc_take_def Let_def split: if_splits)

lemma managed_apart: "managed kend p \<Longrightarrow> managed kend q \<Longrightarrow> p \<noteq> q \<Longrightarrow> p + PGSIZE \<le> q \<or> q + PGSIZE \<le> p"
  using managed_disjoint [of kend p q "PGSIZE - 1"] managed_disjoint [of kend p q 0] by (auto simp: PGSIZE_def)

lemma new_segment_other_page:
  assumes "managed kend p" "managed kend x" "x \<noteq> p" "i < PGSIZE" "ps \<noteq> [] \<Longrightarrow> managed kend (last ps)"
    "ps \<noteq> [] \<Longrightarrow> x = last ps \<Longrightarrow> i < 4 \<or> 8 \<le> i"
  shows "new_segment m ps p (x + i) = m (x + i)"
proof (rule new_segment_frame)
  show "x + i < p \<or> p + PGSIZE \<le> x + i" using managed_disjoint [OF assms(2,1,3,4)] .
  show "ps \<noteq> [] \<longrightarrow> x + i < last ps + 4 \<or> last ps + 8 \<le> x + i"
  proof
    assume ne: "ps \<noteq> []"
    show "x + i < last ps + 4 \<or> last ps + 8 \<le> x + i"
    proof (cases "x = last ps")
      case True
      then show ?thesis using assms(6) [OF ne] by auto
    next
      case False
      from managed_disjoint [OF assms(2) assms(5) [OF ne] False assms(4)] show ?thesis by (auto simp: PGSIZE_def)
    qed
  qed
qed

lemma construct_step:
  assumes good: "good_chain kend k h ps" and ka: "kalloc k = (k1, p)" "p \<noteq> 0"
  defines "k2 \<equiv> k1\<lparr>ram := new_segment (ram k1) ps p\<rparr>"
  shows "good_chain kend k2 (if ps = [] then p else h) (ps @ [p])" "free_pages k = p # free_pages k2"
proof -
  note g = good [unfolded good_chain_def]
  have inv: "kmem_inv kend k1" "free_pages k = p # free_pages k1"
    using kalloc_inv [of kend k k1 p] ka g by (auto split: if_splits)
  have dist: "p \<notin> set (free_pages k1)" "p \<notin> set ps" and mp: "managed kend p"
    and mf: "\<And>q. q \<in> set (free_pages k1) \<Longrightarrow> managed kend q"
    using g inv(2) by (auto simp: kmem_inv_def Let_def list_all_iff)
  have ml: "managed kend x" if "x \<in> set ps" for x using g that by (simp add: list_all_iff)
  have kb: "KERNBASE \<le> kend" using g by (simp add: kmem_inv_def Let_def)
  let ?m = "new_segment (ram k1) ps p"
  have free: "?m (q + i) = ram k1 (q + i)" if "q \<in> set (free_pages k1)" "i < PGSIZE" for q i
  proof (rule new_segment_other_page [OF mp mf [OF that(1)] _ that(2)])
    show "q \<noteq> p" using that dist by auto
    show "i < 4 \<or> 8 \<le> i" if "ps \<noteq> []" "q = last ps"
      using last_in_set [OF that(1)] that(2) \<open>q \<in> set (free_pages k1)\<close> g inv(2) by (metis IntI emptyE list.set_intros(2))
  qed (use ml in simp)
  have k2: "kmem_inv kend k2 \<and> free_pages k2 = free_pages k1"
    unfolding k2_def by (rule kmem_inv_frame [OF inv(1)]) (rule free)
  then show "free_pages k = p # free_pages k2" using inv(2) by simp
  have keep: "?m (x + i) = ram k (x + i)" if "x \<in> set ps" "i < PGSIZE" "x = last ps \<Longrightarrow> i < 4 \<or> 8 \<le> i" for x i
    unfolding kalloc_ram [OF ka(1), symmetric] using that dist(2) by (intro new_segment_other_page [of kend] mp ml) auto
  have apart: "last ps < 2 ^ 32 \<and> (last ps + PGSIZE \<le> p \<or> p + PGSIZE \<le> last ps)" if "ps \<noteq> []"
  proof -
    have "last ps \<in> set ps" "last ps \<noteq> p" using that dist(2) last_in_set [of ps] by auto
    then show ?thesis using managed_apart [OF ml mp, of "last ps"] managed_bounds [OF ml kb, of "last ps"] by auto
  qed
  have p32: "p < 2 ^ 32" using managed_bounds [OF mp kb] by simp
  note links = new_segment_links [OF p32 apart, of "ram k1"]
  have chain: "chain ?m 0 (if ps = [] then p else h) (ps @ [p])"
  proof (cases "ps = []")
    case True
    then show ?thesis using links(1,2) by simp
  next
    case False
    have "chain ?m 0 h (ps @ [p])"
    proof (rule chain_snoc [of "ram k"])
      show "getprev ?m x = getprev (ram k) x" if "x \<in> set ps" for x
        unfolding getprev_def using keep [OF that] by (intro arg_cong [of _ _ unat] load32_cong) (simp add: PGSIZE_def)
      show "getnext ?m x = getnext (ram k) x" if "x \<in> set ps" "x \<noteq> last ps" for x
        using keep [OF that(1)] that(2) by (intro links_cong) (simp add: PGSIZE_def pointersspace_def)
    qed (use False g links in auto)
    then show ?thesis using False by simp
  qed
  have "zeroed ?m x" if "x \<in> set ps" for x
    using g that keep [OF that] by (simp add: zeroed_def list_all_iff pointersspace_def)
  then have "list_all (zeroed ?m) (ps @ [p])" using links(5) by (simp add: list_all_iff)
  then show "good_chain kend k2 (if ps = [] then p else h) (ps @ [p])"
    unfolding good_chain_def using k2 chain g dist mp inv(2) by (auto simp: k2_def)
qed

lemma constructarray_loop_good:
  assumes "good_chain kend k h ps" "ps \<noteq> [] \<Longrightarrow> t = last ps" "constructarray_loop (ps = []) n k h t = (k', h', t', err)"
  shows "\<exists>qs. good_chain kend k' h' (ps @ qs) \<and> free_pages k = qs @ free_pages k' \<and> length qs \<le> n \<and>
    (\<not> err \<longrightarrow> length qs = n) \<and> (0 < n \<longrightarrow> snd (kalloc k) \<noteq> 0 \<longrightarrow> qs \<noteq> [])"
  using assms
proof (induction n arbitrary: k h t ps)
  case (Suc n)
  obtain k1 p where ka: "kalloc k = (k1, p)" by (cases "kalloc k")
  show ?case
  proof (cases "p = 0")
    case True
    then have "k1 = k" using kalloc_inv [of kend k k1 p] ka Suc.prems(1) by (auto simp: good_chain_def split: if_splits)
    then show ?thesis using Suc.prems True ka by (intro exI [of _ "[]"]) auto
  next
    case False
    let ?k2 = "k1\<lparr>ram := new_segment (ram k1) ps p\<rparr>" and ?h = "if ps = [] then p else h"
    have "constructarray_loop (ps @ [p] = []) n ?k2 ?h p = (k', h', t', err)"
      using Suc.prems(2,3) ka False by (cases "ps = []") (simp_all add: new_segment_def Let_def)
    from Suc.IH [OF construct_step(1) [OF Suc.prems(1) ka False] _ this] obtain qs where
      qs: "good_chain kend k' h' ((ps @ [p]) @ qs)" "free_pages ?k2 = qs @ free_pages k'" "length qs \<le> n"
        "\<not> err \<longrightarrow> length qs = n" by auto
    then show ?thesis using construct_step(2) [OF Suc.prems(1) ka False] by (intro exI [of _ "p # qs"]) auto
  qed
qed (auto intro: exI [of _ "[]"])

text \<open>A vector whose segments are \<open>ps\<close>.\<close>

definition vec_ok :: "nat \<Rightarrow> mem \<Rightarrow> vector \<Rightarrow> nat list \<Rightarrow> bool" where
  "vec_ok kend m v ps = (valid v \<and> 1 \<le> typesize v \<and> typesize v \<le> PGSIZE - pointersspace \<and>
     KERNBASE \<le> kend \<and> chain m 0 (head v) ps \<and> distinct ps \<and> list_all (managed kend) ps \<and>
     requiredpages (vectorsize v) (typesize v) \<le> length ps)"

lemma newvector_good:
  assumes "kmem_inv kend k" "1 \<le> ts" "ts \<le> PGSIZE - pointersspace" "0 < sz"
  obtains k' v ps where "newvector g1 g2 sz ts k = Ret (k', v)" "kmem_inv kend k'" "vectorsize v = sz" "typesize v = ts"
    "free_pages k = ps @ free_pages k'" "list_all (zeroed (ram k')) ps" "valid v \<longrightarrow> vec_ok kend (ram k') v ps"
    "ps \<noteq> [] \<longrightarrow> chain (ram k') 0 (head v) ps" "snd (kalloc k) \<noteq> 0 \<longrightarrow> ps \<noteq> []"
proof -
  obtain k' h t err where c: "constructarray_loop True (requiredpages sz ts) k g1 g2 = (k', h, t, err)"
    by (cases "constructarray_loop True (requiredpages sz ts) k g1 g2")
  have "good_chain kend k g1 []" using assms(1) by (simp add: good_chain_def)
  with constructarray_loop_good [of kend k g1 "[]" g2] c obtain ps where
    ps: "good_chain kend k' h ps" "free_pages k = ps @ free_pages k'" "\<not> err \<longrightarrow> length ps = requiredpages sz ts"
      "0 < requiredpages sz ts \<longrightarrow> snd (kalloc k) \<noteq> 0 \<longrightarrow> ps \<noteq> []" by force
  let ?v = "\<lparr>vectorsize = sz, typesize = ts, head = h, tail = t, lastaccessed = 0, lastindexaccessed = 2 ^ 32 - 1, valid = \<not> err\<rparr>"
  have "0 < elementsperpage ts" using assms(2,3) by (simp add: elementsperpage_def div_greater_zero_iff)
  then have req: "0 < requiredpages sz ts" 
    using assms(4) by (auto simp: requiredpages_def div_eq_0_iff)
  have "vec_ok kend (ram k') ?v ps" if "\<not> err"
    using ps that req assms(2,3) by (auto simp: vec_ok_def good_chain_def kmem_inv_def Let_def)
  moreover have "newvector g1 g2 sz ts k = Ret (k', ?v)"
    using assms(2,3) c by (simp add: newvector_def constructarray_def)
  ultimately show thesis using ps req that [of k' ?v ps] by (auto simp: good_chain_def)
qed

section \<open>Reading and writing\<close>

lemma writebytes_apply:
  "writebytes m a cs x = (if a \<le> x \<and> x < a + length cs then cs ! (x - a) else m x)"
proof (induction cs arbitrary: m a)
  case (Cons c cs)
  consider "x < a" | "x = a" | "a < x" by linarith
  then show ?case unfolding writebytes.simps Cons.IH by cases (auto simp: nth_Cons' Suc_diff_Suc)
qed auto

lemma readbytes_eq_iff: "readbytes m a n = cs \<longleftrightarrow> length cs = n \<and> (\<forall>i<n. m (a + i) = cs ! i)"
  by (auto simp: readbytes_def list_eq_iff_nth_eq)

lemma length_readbytes [simp]: "length (readbytes m a n) = n"
  by (simp add: readbytes_def)

lemma elements_fit:
  assumes "1 \<le> ts" "ts \<le> PGSIZE - pointersspace"
  shows "0 < elementsperpage ts" "pointersspace + (i mod elementsperpage ts) * ts + ts \<le> PGSIZE"
proof -
  show pos: "0 < elementsperpage ts" using assms by (simp add: elementsperpage_def div_greater_zero_iff)
  have "(i mod elementsperpage ts) * ts + ts = Suc (i mod elementsperpage ts) * ts" by simp
  also have "\<dots> \<le> elementsperpage ts * ts" using pos by (intro mult_le_mono1) (simp add: Suc_leI)
  also have "\<dots> \<le> PGSIZE - pointersspace" unfolding elementsperpage_def by (rule div_times_less_eq_dividend)
  finally show "pointersspace + (i mod elementsperpage ts) * ts + ts \<le> PGSIZE" by (simp add: PGSIZE_def pointersspace_def)
qed

lemma page_of_index:
  fixes e i n :: nat
  assumes "0 < e" "i < n" 
  shows "i div e < n div e + (if n mod e \<noteq> 0 then 1 else 0)"
proof -
  have "i div e * e \<le> i" by simp
  also have "i < n" by fact
  also have "n \<le> (n div e + (if n mod e \<noteq> 0 then 1 else 0)) * e"
  proof (cases "n mod e = 0")
    case False
    have "n = n div e * e + n mod e" by simp
    also have "\<dots> \<le> n div e * e + e" using mod_less_divisor [OF assms(1), of n] by (intro add_left_mono less_imp_le)
    finally show ?thesis using False by (simp add: add_mult_distrib)
  qed auto
  finally show ?thesis using assms(1) by (simp only: mult_less_cancel2)
qed

text \<open>Where element \<open>i\<close> is, given the segments.\<close>

definition elem_addr :: "vector \<Rightarrow> nat list \<Rightarrow> nat \<Rightarrow> nat" where
  "elem_addr v ps i =
    ps ! (i div elementsperpage (typesize v)) + (pointersspace + (i mod elementsperpage (typesize v)) * typesize v)"

lemma elem_page:
  assumes "vec_ok kend m v ps" "i < vectorsize v"
  shows "i div elementsperpage (typesize v) < length ps"
  using page_of_index [OF elements_fit(1) assms(2), of "typesize v"] assms(1)
  by (auto simp: vec_ok_def requiredpages_def)

lemma getelementpointer_addr:
  assumes "vec_ok kend m v ps" "i < vectorsize v"
  shows "getelementpointer m v i = elem_addr v ps i"
  using assms walkpages_chain [OF _ elem_page [OF assms], of m 0 "head v"]
  by (simp add: getelementpointer_def getpageforindex_def elem_addr_def vec_ok_def)

lemma setelement_write:
  assumes "vec_ok kend m v ps" "i < vectorsize v" "length cs = typesize v"
  shows "setelement m v i cs = (writebytes m (elem_addr v ps i) cs, 1)"
  using assms walkpages_chain [OF _ elem_page [OF assms(1,2)], of m 0 "head v"]
  by (simp add: setelement_def getpageforindex_def elem_addr_def vec_ok_def)

lemma in_page:
  assumes "vec_ok kend m v ps" "i < vectorsize v" "k < typesize v"
  obtains j off where "j < length ps" "elem_addr v ps i + k = ps ! j + off" "pointersspace \<le> off" "off < PGSIZE"
    "j = i div elementsperpage (typesize v)" "off = pointersspace + (i mod elementsperpage (typesize v)) * typesize v + k"
proof -
  have "pointersspace + (i mod elementsperpage (typesize v)) * typesize v + typesize v \<le> PGSIZE"
    using assms(1) by (intro elements_fit(2)) (simp_all add: vec_ok_def)
  then show thesis
    using that [of "i div elementsperpage (typesize v)"] elem_page [OF assms(1,2)] assms(3) by (simp add: elem_addr_def)
qed

lemma elem_addr_inj:
  assumes ok: "vec_ok kend m v ps" and i: "i < vectorsize v" "a < typesize v" and j: "j < vectorsize v" "b < typesize v"
    and eq: "elem_addr v ps i + a = elem_addr v ps j + b"
  shows "i = j \<and> a = b"
proof -
  let ?e = "elementsperpage (typesize v)"
  obtain p off where p: "p < length ps" "elem_addr v ps i + a = ps ! p + off" "off < PGSIZE" "p = i div ?e"
    "off = pointersspace + (i mod ?e) * typesize v + a" using in_page [OF ok i] .
  obtain q off' where q: "q < length ps" "elem_addr v ps j + b = ps ! q + off'" "off' < PGSIZE" "q = j div ?e"
    "off' = pointersspace + (j mod ?e) * typesize v + b" using in_page [OF ok j] .
  have m: "managed kend (ps ! p)" "managed kend (ps ! q)" using ok p(1) q(1) by (auto simp: vec_ok_def list_all_iff)
  have "ps ! p = ps ! q"
    using managed_disjoint [OF m(1,2) _ p(3)] managed_disjoint [OF m(2,1) _ q(3)] eq p(2) q(2) by (metis add_less_cancel_left linorder_not_le nat_add_left_cancel_le not_add_less1 q(3) p(3))
  then have pq: "p = q" "off = off'" using ok p q eq by (auto simp: vec_ok_def nth_eq_iff_index_eq)
  then have "(i mod ?e) * typesize v + a = (j mod ?e) * typesize v + b" using p(5) q(5) by simp
  then have "i mod ?e = j mod ?e" "a = b"
    using i(2) j(2) by (metis div_mult_self3 mod_mult_self3 mod_less div_less add_cancel_right_right less_nat_zero_code)+
  moreover have "i div ?e = j div ?e" using pq p(4) q(4) by simp
  ultimately show ?thesis by (metis div_mult_mod_eq)
qed


text \<open>A write inside the elements does not touch the pointers.\<close>

lemma vec_ok_frame:
  assumes ok: "vec_ok kend m v ps" and "\<And>j off. j < length ps \<Longrightarrow> off < pointersspace \<Longrightarrow> m' (ps ! j + off) = m (ps ! j + off)"
  shows "vec_ok kend m' v ps"
proof -
  have "chain m' 0 (head v) ps = chain m 0 (head v) ps"
    by (rule chain_cong) (metis assms(2) in_set_conv_nth)
  then show ?thesis using ok by (simp add: vec_ok_def)
qed

lemma page_off_inj:
  assumes "vec_ok kend m v ps" "j < length ps" "j' < length ps" "off < PGSIZE" "off' < PGSIZE" "ps ! j + off = ps ! j' + off'"
  shows "j = j' \<and> off = off'"
proof -
  have m: "managed kend (ps ! j)" "managed kend (ps ! j')" using assms(1-3) by (auto simp: vec_ok_def list_all_iff)
  have "ps ! j = ps ! j'"
  proof (rule ccontr)
    assume ne: "ps ! j \<noteq> ps ! j'"
    from managed_disjoint [OF m ne assms(4)] managed_disjoint [OF m(2,1) ne [symmetric] assms(5)] assms(4-6)
    show False by linarith
  qed
  then show ?thesis using assms by (auto simp: vec_ok_def nth_eq_iff_index_eq)
qed

section \<open>Stores of fixed-size cells\<close>

fun put_all :: "('s \<Rightarrow> nat \<Rightarrow> 'a \<Rightarrow> 's) \<Rightarrow> 's \<Rightarrow> nat \<Rightarrow> 'a list \<Rightarrow> 's" where
  "put_all put s off [] = s"
| "put_all put s off (x # xs) = put_all put (put s off x) (off + 1) xs"

locale cell_store =
  fixes get :: "'s \<Rightarrow> nat \<Rightarrow> 'a"
    and put :: "'s \<Rightarrow> nat \<Rightarrow> 'a \<Rightarrow> 's"
    and len :: nat
    and ok :: "'s \<Rightarrow> bool"
    and fits :: "'a \<Rightarrow> bool"
  assumes put_ok: "ok s \<Longrightarrow> i < len \<Longrightarrow> fits x \<Longrightarrow> ok (put s i x)"
    and get_put: "ok s \<Longrightarrow> i < len \<Longrightarrow> j < len \<Longrightarrow> fits x \<Longrightarrow> get (put s i x) j = (if j = i then x else get s j)"
begin

lemma put_all_ok: "ok s \<Longrightarrow> off + length xs \<le> len \<Longrightarrow> list_all fits xs \<Longrightarrow> ok (put_all put s off xs)"
proof (induction xs arbitrary: s off)
  case (Cons x xs)
  then have "ok (put s off x)" by (intro put_ok) auto
  then show ?case using Cons by simp
qed simp

lemma get_put_all:
  "ok s \<Longrightarrow> off + length xs \<le> len \<Longrightarrow> list_all fits xs \<Longrightarrow> j < len \<Longrightarrow>
   get (put_all put s off xs) j = (if off \<le> j \<and> j < off + length xs then xs ! (j - off) else get s j)"
proof (induction xs arbitrary: s off)
  case (Cons x xs)
  have "ok (put s off x)" using Cons.prems by (intro put_ok) auto
  then have "get (put_all put (put s off x) (off + 1) xs) j =
    (if off + 1 \<le> j \<and> j < off + 1 + length xs then xs ! (j - (off + 1)) else get (put s off x) j)"
    using Cons.prems by (intro Cons.IH) auto
  moreover have "get (put s off x) j = (if j = off then x else get s j)" using Cons.prems by (intro get_put) auto
  ultimately show ?case by (auto simp: nth_Cons')
qed auto

lemma get_all:
  assumes "ok s" "off + length xs \<le> len" "list_all fits xs"
  shows "map (get (put_all put s off xs)) [0..<len] = take off (map (get s) [0..<len]) @ xs @ drop (off + length xs) (map (get s) [0..<len])"
proof (rule nth_equalityI)
  fix j assume "j < length (map (get (put_all put s off xs)) [0..<len])"
  then show "map (get (put_all put s off xs)) [0..<len] ! j =
    (take off (map (get s) [0..<len]) @ xs @ drop (off + length xs) (map (get s) [0..<len])) ! j"
    using assms get_put_all [of s off xs j] by (auto simp: nth_append)
qed (use assms in simp)

end

abbreviation getelem :: "vector \<Rightarrow> mem \<Rightarrow> nat \<Rightarrow> u8 list" where
  "getelem v m i \<equiv> readbytes m (getelementpointer m v i) (typesize v)"

abbreviation putelem :: "vector \<Rightarrow> mem \<Rightarrow> nat \<Rightarrow> u8 list \<Rightarrow> mem" where
  "putelem v m i cs \<equiv> fst (setelement m v i cs)"

lemma putelem_ok:
  assumes "vec_ok kend m v ps" "i < vectorsize v" "length cs = typesize v"
  shows "vec_ok kend (putelem v m i cs) v ps"
proof (rule vec_ok_frame [OF assms(1)])
  fix j off assume j: "j < length ps" "off < pointersspace"
  have "\<not> (elem_addr v ps i \<le> ps ! j + off \<and> ps ! j + off < elem_addr v ps i + typesize v)"
  proof
    assume a: "elem_addr v ps i \<le> ps ! j + off \<and> ps ! j + off < elem_addr v ps i + typesize v"
    then obtain k where k: "k < typesize v" "ps ! j + off = elem_addr v ps i + k"
      by (metis add.commute less_diff_conv2 le_add_diff_inverse2)
    obtain j' off' where "j' < length ps" "elem_addr v ps i + k = ps ! j' + off'" "pointersspace \<le> off'" "off' < PGSIZE"
      using in_page [OF assms(1,2) k(1)] .
    then show False using page_off_inj [OF assms(1) j(1), of j' off off'] j(2) k(2) by (auto simp: PGSIZE_def pointersspace_def)
  qed
  then show "putelem v m i cs (ps ! j + off) = m (ps ! j + off)"
    using setelement_write [OF assms] assms(3) by (auto simp: writebytes_apply)
qed

lemma getelem_putelem:
  assumes "vec_ok kend m v ps" "i < vectorsize v" "j < vectorsize v" "length cs = typesize v"
  shows "getelem v (putelem v m i cs) j = (if j = i then cs else getelem v m j)"
proof -
  have p: "getelementpointer (putelem v m i cs) v j = elem_addr v ps j" "getelementpointer m v j = elem_addr v ps j"
    using putelem_ok [OF assms(1,2,4)] assms(1,3) by (auto intro: getelementpointer_addr)
  have "putelem v m i cs (elem_addr v ps j + b) = (if j = i then cs ! b else m (elem_addr v ps j + b))" if "b < typesize v" for b
  proof (cases "j = i")
    case True
    then show ?thesis using that setelement_write [OF assms(1,2,4)] assms(4) by (simp add: writebytes_apply)
  next
    case False
    have "\<not> (elem_addr v ps i \<le> elem_addr v ps j + b \<and> elem_addr v ps j + b < elem_addr v ps i + typesize v)"
    proof
      assume "elem_addr v ps i \<le> elem_addr v ps j + b \<and> elem_addr v ps j + b < elem_addr v ps i + typesize v"
      then obtain k where "k < typesize v" "elem_addr v ps i + k = elem_addr v ps j + b"
        by (metis add.commute less_diff_conv2 le_add_diff_inverse2)
      with elem_addr_inj [OF assms(1,2) _ assms(3) that] False show False by blast
    qed
    then show ?thesis using False setelement_write [OF assms(1,2,4)] assms(4) by (auto simp: writebytes_apply)
  qed
  then show ?thesis unfolding p using assms(4) by (auto simp: readbytes_def list_eq_iff_nth_eq)
qed

interpretation vec_elems: cell_store "getelem v" "putelem v" "vectorsize v" "\<lambda>m. vec_ok kend m v ps" "\<lambda>cs. length cs = typesize v"
  for v kend ps
  by unfold_locales (auto intro: putelem_ok simp: getelem_putelem)

section \<open>The byte view\<close>

abbreviation bytesperpage :: nat where
  "bytesperpage \<equiv> PGSIZE - pointersspace"

definition byte_addr :: "nat list \<Rightarrow> nat \<Rightarrow> nat" where
  "byte_addr ps b = ps ! (b div bytesperpage) + (pointersspace + b mod bytesperpage)"

definition bytes_ok :: "nat \<Rightarrow> mem \<Rightarrow> vector \<Rightarrow> nat list \<Rightarrow> bool" where
  "bytes_ok kend m v ps = (vec_ok kend m v ps \<and> vectorsize v * typesize v < 2 ^ 32)"

lemma bytesperpage_eq: "bytesperpage = 4088"
  by (simp add: PGSIZE_def pointersspace_def)

lemma byte_page:
  assumes "vec_ok kend m v ps" "b < vectorsize v * typesize v"
  shows "b div bytesperpage < length ps"
proof -
  let ?e = "elementsperpage (typesize v)"
  have ts: "1 \<le> typesize v" "typesize v \<le> bytesperpage" and req: "requiredpages (vectorsize v) (typesize v) \<le> length ps"
    using assms(1) by (simp_all add: vec_ok_def)
  have i: "b div typesize v < vectorsize v" using assms(2) ts(1) by (simp add: less_mult_imp_div_less)
  have "?e * typesize v \<le> bytesperpage" unfolding elementsperpage_def by (rule div_times_less_eq_dividend)
  then have "b div bytesperpage \<le> b div (?e * typesize v)"
    using elements_fit(1) [OF ts] ts(1) by (intro div_le_mono2) auto
  also have "\<dots> = b div typesize v div ?e" by (simp add: div_mult2_eq mult.commute)
  also have "\<dots> < length ps" by (rule elem_page [OF assms(1) i])
  finally show ?thesis .
qed

lemma setbyte_write:
  assumes "bytes_ok kend m v ps" "b < vectorsize v * typesize v"
  shows "setbyte m v b c = (m(byte_addr ps b := c), 1)"
  using assms walkpages_chain [OF _ byte_page, of m 0 "head v" ps kend m v b]
  by (simp add: setbyte_def byte_addr_def bytes_ok_def vec_ok_def Let_def)

lemma byte_off: "pointersspace + b mod bytesperpage < PGSIZE"
  by (simp add: PGSIZE_def pointersspace_def)

lemma byte_addr_inj:
  assumes "vec_ok kend m v ps" "b < vectorsize v * typesize v" "c < vectorsize v * typesize v"
  shows "byte_addr ps b = byte_addr ps c \<longleftrightarrow> b = c"
proof
  assume "byte_addr ps b = byte_addr ps c"
  from page_off_inj [OF assms(1) byte_page [OF assms(1,2)] byte_page [OF assms(1,3)] byte_off byte_off, of b c] this
  have "b div bytesperpage = c div bytesperpage" "b mod bytesperpage = c mod bytesperpage"
    by (simp_all add: byte_addr_def)
  then show "b = c" by (metis div_mult_mod_eq)
qed simp

abbreviation getbyte :: "nat list \<Rightarrow> mem \<Rightarrow> nat \<Rightarrow> u8" where
  "getbyte ps m b \<equiv> m (byte_addr ps b)"

abbreviation putbyte :: "vector \<Rightarrow> mem \<Rightarrow> nat \<Rightarrow> u8 \<Rightarrow> mem" where
  "putbyte v m b c \<equiv> fst (setbyte m v b c)"

lemma putbyte_ok:
  assumes "bytes_ok kend m v ps" "b < vectorsize v * typesize v"
  shows "bytes_ok kend (putbyte v m b c) v ps"
proof -
  have ok: "vec_ok kend m v ps" using assms(1) by (simp add: bytes_ok_def)
  have "vec_ok kend (putbyte v m b c) v ps"
  proof (rule vec_ok_frame [OF ok])
    fix j off assume j: "j < length ps" "off < pointersspace"
    have "ps ! j + off \<noteq> byte_addr ps b"
      using page_off_inj [OF ok j(1) byte_page [OF ok assms(2)] _ byte_off, of off] j(2)
      by (auto simp: byte_addr_def PGSIZE_def pointersspace_def)
    then show "putbyte v m b c (ps ! j + off) = m (ps ! j + off)" using setbyte_write [OF assms] by simp
  qed
  then show ?thesis using assms(1) by (simp add: bytes_ok_def)
qed

interpretation vec_bytes: cell_store "getbyte ps" "putbyte v" "vectorsize v * typesize v" "\<lambda>m. bytes_ok kend m v ps" "\<lambda>_. True"
  for ps v kend
proof
  fix m b c d
  assume ok: "bytes_ok kend m v ps" and b: "b < vectorsize v * typesize v" "d < vectorsize v * typesize v"
  have "vec_ok kend m v ps" using ok by (simp add: bytes_ok_def)
  from byte_addr_inj [OF this b(2,1)] show "getbyte ps (putbyte v m b c) d = (if d = b then c else getbyte ps m d)"
    using setbyte_write [OF ok b(1)] by simp
qed (auto intro: putbyte_ok)

lemma memmove_into_vector_bytes_put: "memmove_into_vector_bytes m v off src = put_all (putbyte v) m off src"
  by (induction src arbitrary: m off) auto

text \<open>When the element size divides the space of a segment, elements are consecutive bytes.\<close>

lemma byte_of_elem:
  assumes "vec_ok kend m v ps" "typesize v dvd bytesperpage" "k < typesize v"
  shows "byte_addr ps (i * typesize v + k) = elem_addr v ps i + k"
proof -
  let ?ts = "typesize v" and ?e = "elementsperpage (typesize v)"
  have bp: "bytesperpage = ?ts * ?e" using assms(2) by (simp add: elementsperpage_def)
  have d: "(i * ?ts + k) div ?ts = i" "(i * ?ts + k) mod ?ts = k" using assms(3) by simp_all
  have "(i * ?ts + k) div bytesperpage = i div ?e" unfolding bp div_mult2_eq d ..
  moreover have "(i * ?ts + k) mod bytesperpage = ?ts * (i mod ?e) + k" unfolding bp mod_mult2_eq d ..
  ultimately show ?thesis by (simp add: byte_addr_def elem_addr_def mult.commute)
qed

lemma map_upt_mult:
  "map f [0..<n * k] = concat (map (\<lambda>i. map (\<lambda>j. f (i * k + j)) [0..<k]) [0..<n])"
proof (induction n)
  case (Suc n)
  have "[0..<Suc n * k] = [0..<n * k] @ map (\<lambda>j. n * k + j) [0..<k]"
    by (simp add: upt_add_eq_append [of 0 "n * k" k, simplified] map_add_upt add.commute)
      (metis add.commute add_0 map_add_upt upt_add_eq_append zero_le)
  then show ?case using Suc by (simp add: comp_def)
qed simp

lemma memmove_from_vector_bytes:
  assumes "vec_ok kend m v ps" "typesize v dvd bytesperpage"
  shows "memmove_from_vector m v 0 (vectorsize v) = map (getbyte ps m) [0..<vectorsize v * typesize v]"
proof -
  have "getelem v m i = map (\<lambda>k. getbyte ps m (i * typesize v + k)) [0..<typesize v]" if "i < vectorsize v" for i
    using that assms by (simp add: readbytes_def getelementpointer_addr [OF assms(1)] byte_of_elem)
  then have "map (getelem v m) [0..<vectorsize v] =
      map (\<lambda>i. map (\<lambda>k. getbyte ps m (i * typesize v + k)) [0..<typesize v]) [0..<vectorsize v]" by simp
  then show ?thesis by (simp only: memmove_from_vector_def map_upt_mult add_0)
qed

section \<open>Freeing\<close>

lemma kfree_frame:
  assumes "kfree kend v k = Ret k'" "managed kend v" "managed kend x" "x \<noteq> v" "i < PGSIZE"
  shows "ram k' (x + i) = ram k (x + i)"
proof -
  have "x + i < v \<or> v + PGSIZE \<le> x + i" by (rule managed_disjoint [OF assms(3,2,4,5)])
  then show ?thesis using assms(1) by (auto simp: kfree_def memset_apply PGSIZE_def Let_def split: if_splits)
qed

lemma freevector_loop_chain:
  assumes "kmem_inv kend k" "chain (ram k) q p ps" "distinct ps" "list_all (managed kend) ps" "set ps \<inter> set (free_pages k) = {}"
  shows "\<exists>k'. freevector_loop kend k p = Some (Ret k') \<and> kmem_inv kend k' \<and> free_pages k' = rev ps @ free_pages k"
  using assms
proof (induction ps arbitrary: k q p)
  case Nil
  then show ?case by (subst freevector_loop.simps) simp
next
  case (Cons x xs)
  have x: "managed kend x" "x \<notin> set (free_pages k)" "p = x" "p \<noteq> 0"
    using Cons.prems managed_bounds [of kend x] by (auto simp: kmem_inv_def Let_def)
  obtain k1 where k1: "kfree kend x k = Ret k1" "kmem_inv kend k1" "free_pages k1 = x # free_pages k"
    by (rule kfree_inv [OF Cons.prems(1) x(1,2)])
  have "chain (ram k1) x (getnext (ram k) x) xs = chain (ram k) x (getnext (ram k) x) xs"
  proof (rule chain_cong)
    fix y i assume "y \<in> set xs" "i < pointersspace"
    then show "ram k1 (y + i) = ram k (y + i)"
      using Cons.prems(3,4) by (intro kfree_frame [OF k1(1) x(1)]) (auto simp: list_all_iff PGSIZE_def pointersspace_def)
  qed
  then have "chain (ram k1) x (getnext (ram k) x) xs" using Cons.prems(2) by simp
  from Cons.IH [OF k1(2) this] obtain k' where
    "freevector_loop kend k1 (getnext (ram k) x) = Some (Ret k')" "kmem_inv kend k'" "free_pages k' = rev xs @ free_pages k1"
    using Cons.prems k1(3) by auto
  then show ?case using x k1 by (subst freevector_loop.simps) (simp add: Let_def)
qed


section \<open>Properties\<close>

text \<open>
  Claim C12. Bytes moved into a vector at any offset and then read back element by element are
  found where they were put, across segment boundaries, and the other bytes are unchanged, for
  every element size that divides the space of a segment.
\<close>

theorem vector_bytes_roundtrip:
  assumes "vec_ok kend m v ps" "typesize v dvd bytesperpage" "vectorsize v * typesize v < 2 ^ 32"
    and "off + length src \<le> vectorsize v * typesize v"
  defines "old \<equiv> memmove_from_vector m v 0 (vectorsize v)"
    and "m' \<equiv> memmove_into_vector_bytes m v off src"
  shows "memmove_from_vector m' v 0 (vectorsize v) = take off old @ src @ drop (off + length src) old \<and> vec_ok kend m' v ps"
proof -
  have ok: "bytes_ok kend m v ps" using assms(1,3) by (simp add: bytes_ok_def)
  have m': "m' = put_all (putbyte v) m off src" by (simp add: m'_def memmove_into_vector_bytes_put)
  have t: "list_all (\<lambda>_. True) src" by (simp add: list_all_iff)
  have ok': "vec_ok kend m' v ps"
    using vec_bytes.put_all_ok [OF ok assms(4) t] by (simp add: m' bytes_ok_def)
  have "memmove_from_vector m' v 0 (vectorsize v) = map (getbyte ps m') [0..<vectorsize v * typesize v]"
    by (rule memmove_from_vector_bytes [OF ok' assms(2)])
  also have "\<dots> = take off old @ src @ drop (off + length src) old"
    unfolding old_def memmove_from_vector_bytes [OF assms(1,2)] unfolding m' by (rule vec_bytes.get_all [OF ok assms(4) t])
  finally show ?thesis using ok' by blast
qed

text \<open>
  An element written by \<open>setelement\<close> is read back through \<open>getelementpointer\<close>, every
  other element keeps its value, and the segments stay linked, for every element size up to a
  segment.
\<close>

theorem setelement_getelement:
  assumes "vec_ok kend m v ps" "i < vectorsize v" "j < vectorsize v" "length cs = typesize v"
  shows "case setelement m v i cs of (m', r) \<Rightarrow>
    r = 1 \<and> vec_ok kend m' v ps \<and>
    readbytes m' (getelementpointer m' v j) (typesize v) = (if j = i then cs else readbytes m (getelementpointer m v j) (typesize v))"
  using putelem_ok [OF assms(1,2,4)] getelem_putelem [OF assms] setelement_write [OF assms(1,2,4)] by simp

lemma zeroed_elem:
  assumes "vec_ok kend m v ps" "list_all (zeroed m) ps" "i < vectorsize v"
  shows "getelem v m i = replicate (typesize v) 0"
proof -
  have "m (elem_addr v ps i + k) = 0" if k: "k < typesize v" for k
  proof -
    obtain j off where j: "j < length ps" "elem_addr v ps i + k = ps ! j + off" "pointersspace \<le> off" "off < PGSIZE"
      by (rule in_page [OF assms(1,3) k])
    then have "zeroed m (ps ! j)" using assms(2) by (simp add: list_all_iff)
    with j show ?thesis by (auto simp: zeroed_def list_all_iff)
  qed
  then show ?thesis
    by (simp add: readbytes_def getelementpointer_addr [OF assms(1,3)] list_eq_iff_nth_eq)
qed

lemma concat_replicate_replicate: "concat (replicate n (replicate k x)) = replicate (n * k) x"
  by (induction n) (simp_all add: replicate_add)

text \<open>
  A vector takes its pages from the allocator and \<open>freevector\<close> gives all of them back,
  also when the allocation failed after at least one page: the free pages are the same set as
  before, and a valid new vector reads as zero bytes.
\<close>

theorem newvector_freevector:
  assumes "kmem_inv kend k" "1 \<le> ts" "ts \<le> bytesperpage" "0 < sz" "snd (kalloc k) \<noteq> 0"
  shows "\<exists>k' v k'' v'. newvector g1 g2 sz ts k = Ret (k', v) \<and> freevector kend k' v = Some (Ret (k'', v')) \<and>
    kmem_inv kend k'' \<and> set (free_pages k'') = set (free_pages k) \<and> \<not> valid v' \<and>
    (valid v \<longrightarrow> memmove_from_vector (ram k') v 0 sz = replicate (sz * ts) 0)"
proof -
  obtain k' v ps where v: "newvector g1 g2 sz ts k = Ret (k', v)" "kmem_inv kend k'" "vectorsize v = sz" "typesize v = ts"
    "free_pages k = ps @ free_pages k'" "list_all (zeroed (ram k')) ps" "valid v \<longrightarrow> vec_ok kend (ram k') v ps"
    "ps \<noteq> [] \<longrightarrow> chain (ram k') 0 (head v) ps" "snd (kalloc k) \<noteq> 0 \<longrightarrow> ps \<noteq> []"
    by (rule newvector_good [OF assms(1-4), of g1 g2])
  have ps: "chain (ram k') 0 (head v) ps" "distinct ps" "list_all (managed kend) ps" "set ps \<inter> set (free_pages k') = {}"
    using assms(1,5) v by (auto simp: kmem_inv_def Let_def)
  obtain k'' where k'': "freevector_loop kend k' (head v) = Some (Ret k'')" "kmem_inv kend k''"
    "free_pages k'' = rev ps @ free_pages k'"
    using freevector_loop_chain [OF v(2) ps] by blast
  have "memmove_from_vector (ram k') v 0 sz = replicate (sz * ts) 0" if "valid v"
  proof -
    have "getelem v (ram k') i = replicate ts 0" if "i < sz" for i
      using zeroed_elem [OF _ v(6), of kend v i] v(7) \<open>valid v\<close> that v(3,4) by simp
    then have "map (getelem v (ram k')) [0..<sz] = replicate sz (replicate ts 0)"
      by (intro nth_equalityI) simp_all
    then show ?thesis by (simp only: memmove_from_vector_def add_0 concat_replicate_replicate)
  qed
  then show ?thesis using v(1,5) k'' by (auto simp: freevector_def)
qed

text \<open>
  Claim C13. A vector of no elements is valid although its \<open>head\<close> was never set: freeing it, as
  \<open>sys_read\<close> does after a read of zero bytes, follows whatever the stack held, and panics where that is not the address of a page.
\<close>

theorem empty_vector_frees_garbage:
  assumes "1 \<le> ts" "ts \<le> bytesperpage" "g1 \<noteq> 0" "g1 mod PGSIZE \<noteq> 0"
  shows "\<exists>v. newvector g1 g2 0 ts k = Ret (k, v) \<and> valid v \<and> head v = g1 \<and> freevector kend k v = Some (Panic ''kfree'')"
proof -
  have "freevector_loop kend k g1 = Some (Panic ''kfree'')"
    using assms(3,4) by (subst freevector_loop.simps) (simp add: kfree_def)
  then show ?thesis using assms(1,2)
    by (simp add: newvector_def constructarray_def requiredpages_def freevector_def)
qed

theorem empty_vector_frees_garbage_witness:
  "\<exists>v. newvector 7 0 0 1 (boot_kmem (\<lambda>_. 0)) = Ret (boot_kmem (\<lambda>_. 0), v) \<and> valid v \<and> head v = 7 \<and>
     freevector KERNBASE (boot_kmem (\<lambda>_. 0)) v = Some (Panic ''kfree'')"
  by (rule empty_vector_frees_garbage) (simp_all add: PGSIZE_def pointersspace_def)

text \<open>
  \<open>vectormemcmp\<close> reports equality for every vector and every memory: it returns at the
  first element that compares equal and returns zero at the end.
\<close>

theorem vectormemcmp_always_zero: "vectormemcmp mem v m bytes = 0"
proof -
  have "vectormemcmp_loop mem v m i left n = 0" for i left n
    by (induction n arbitrary: i left) (simp_all add: Let_def)
  then show ?thesis by (simp add: vectormemcmp_def)
qed

lemma slicevector_returns_original: "slicevector g1 g2 k v from to = Ret (k', v') \<Longrightarrow> v' = v"
  by (auto simp: slicevector_def Let_def bindO_Ret_iff)

text \<open>A vector of five two-byte elements in one page.\<close>

definition sample_vec :: vector where
  "sample_vec = \<lparr>vectorsize = 5, typesize = 2, head = KERNBASE, tail = KERNBASE, lastaccessed = 0,
     lastindexaccessed = 2 ^ 32 - 1, valid = True\<rparr>"

lemma sample_vec_ok: "vec_ok KERNBASE (\<lambda>_. 0) sample_vec [KERNBASE]"
  by (simp add: vec_ok_def sample_vec_def PGSIZE_def pointersspace_def managed_def KERNBASE_def PHYSTOP_def
      getprev_def getnext_def load32_def requiredpages_def elementsperpage_def)

theorem vector_bytes_roundtrip_witness:
  "let old = memmove_from_vector (\<lambda>_. 0) sample_vec 0 5; m' = memmove_into_vector_bytes (\<lambda>_. 0) sample_vec 3 [7, 8, 9]
   in memmove_from_vector m' sample_vec 0 5 = take 3 old @ [7, 8, 9] @ drop 6 old"
  using vector_bytes_roundtrip [OF sample_vec_ok, of 3 "[7, 8, 9]"] by (simp add: sample_vec_def PGSIZE_def pointersspace_def Let_def)

theorem setelement_getelement_witness:
  "case setelement (\<lambda>_. 0) sample_vec 4 [1, 2] of (m', r) \<Rightarrow>
    r = 1 \<and> readbytes m' (getelementpointer m' sample_vec 4) 2 = [1, 2]"
  using setelement_getelement [OF sample_vec_ok, of 4 4 "[1, 2]"] by (simp add: sample_vec_def split: prod.splits)

theorem newvector_freevector_witness:
  "\<exists>k k' v k'' v'. kinit1 KERNBASE KERNBASE (KERNBASE + 3 * PGSIZE) (boot_kmem (\<lambda>_. 0)) = Ret k \<and>
    newvector 0 0 5000 1 k = Ret (k', v) \<and> freevector KERNBASE k' v = Some (Ret (k'', v')) \<and>
    kmem_inv KERNBASE k'' \<and> set (free_pages k'') = set (free_pages k)"
proof -
  obtain k where k: "kinit1 KERNBASE KERNBASE (KERNBASE + 3 * PGSIZE) (boot_kmem (\<lambda>_. 0)) = Ret k" "kmem_inv KERNBASE k"
    "page_protect k = 0" "set (free_pages k) = {q. KERNBASE \<le> q \<and> q + PGSIZE \<le> KERNBASE + 3 * PGSIZE \<and> PGSIZE dvd q}"
    using kinit1_inv [of KERNBASE "KERNBASE + 3 * PGSIZE" "\<lambda>_. 0"] by (auto simp: PHYSTOP_def PGSIZE_def)
  have "KERNBASE \<in> set (free_pages k)" unfolding k(4) by (simp add: KERNBASE_def PGSIZE_def)
  then have ne: "free_pages k \<noteq> []" by auto
  then have "0 < page_cnt k" using page_cnt_free_pages [OF k(2)] by simp
  then have "snd (kalloc k) \<noteq> 0" using kalloc_inv [OF k(2) prod.collapse [symmetric]] k(3) ne by (auto split: if_splits)
  from newvector_freevector [OF k(2) _ _ _ this, of 1 5000 0 0] k(1) show ?thesis
    by (simp add: PGSIZE_def pointersspace_def) blast
qed

end
