(* ===== verification/Pipe.thy ===== *)
theory Pipe
  imports Prelude
begin

text \<open>
  The pipe of \<open>kernel/pipe.c\<close>: a ring buffer of \<open>PIPESIZE\<close> bytes indexed by two free-running
  32-bit counters, shared by any number of readers and writers that sleep and wake each other.
  A call holds the pipe's lock from its start, or from a wake-up, until it returns or sleeps;
  that stretch is one step, and the steps of different processes interleave freely.
\<close>

section \<open>Definitions\<close>

definition PIPESIZE :: nat where "PIPESIZE = 512"

record pipe =
  data :: "u8 list"
  nread :: u32
  nwrite :: u32
  readopen :: bool
  writeopen :: bool

text \<open>\<open>pipealloc\<close> on the page returned by \<open>kalloc\<close>, whose bytes become \<open>data\<close>.\<close>

definition pipe_init :: "u8 list \<Rightarrow> pipe" where
  "pipe_init junk = \<lparr>data = junk, nread = 0, nwrite = 0, readopen = True, writeopen = True\<rparr>"

definition pipe_full :: "pipe \<Rightarrow> bool" where
  "pipe_full p = (nwrite p = nread p + of_nat PIPESIZE)"

definition pipe_empty :: "pipe \<Rightarrow> bool" where
  "pipe_empty p = (nread p = nwrite p)"

definition pipe_put :: "pipe \<Rightarrow> u8 \<Rightarrow> pipe" where
  "pipe_put p c = p\<lparr>data := (data p)[unat (nwrite p mod of_nat PIPESIZE) := c], nwrite := nwrite p + 1\<rparr>"

definition pipe_get :: "pipe \<Rightarrow> u8 \<times> pipe" where
  "pipe_get p = (data p ! unat (nread p mod of_nat PIPESIZE), p\<lparr>nread := nread p + 1\<rparr>)"

text \<open>
  One stretch of \<open>pipewrite\<close> over the bytes it has left: it returns the number of bytes, fails, or
  sleeps on \<open>nwrite\<close>. A returning or sleeping writer has called \<open>wakeup(&p->nread)\<close>; a failing
  one has not.
\<close>

datatype write_end = WRet | WFail | WSleep "u8 list"

fun pipewrite :: "bool \<Rightarrow> pipe \<Rightarrow> u8 list \<Rightarrow> pipe \<times> write_end" where
  "pipewrite killed p [] = (p, WRet)"
| "pipewrite killed p (c # cs) =
    (if pipe_full p then
       if \<not> readopen p \<or> killed then (p, WFail) else (p, WSleep (c # cs))
     else pipewrite killed (pipe_put p c) cs)"

fun wakes_readers :: "write_end \<Rightarrow> bool" where
  "wakes_readers WRet = True"
| "wakes_readers (WSleep cs) = True"
| "wakes_readers WFail = False"

text \<open>
  One stretch of \<open>piperead\<close>: it returns the bytes it copied, fails, or sleeps on \<open>nread\<close>. A
  returning reader has called \<open>wakeup(&p->nwrite)\<close>.
\<close>

datatype read_end = RRet "u8 list" | RFail | RSleep

fun piperead_copy :: "pipe \<Rightarrow> nat \<Rightarrow> pipe \<times> u8 list" where
  "piperead_copy p 0 = (p, [])"
| "piperead_copy p (Suc n) =
    (if pipe_empty p then (p, [])
     else case pipe_get p of (c, p) \<Rightarrow> case piperead_copy p n of (p, cs) \<Rightarrow> (p, c # cs))"

definition piperead :: "bool \<Rightarrow> pipe \<Rightarrow> nat \<Rightarrow> pipe \<times> read_end" where
  "piperead killed p n =
    (if pipe_empty p \<and> writeopen p then if killed then (p, RFail) else (p, RSleep)
     else case piperead_copy p n of (p, cs) \<Rightarrow> (p, RRet cs))"

text \<open>\<open>pipeclose\<close>: the pipe, and whether its page was freed.\<close>

definition pipeclose :: "pipe \<Rightarrow> bool \<Rightarrow> pipe \<times> bool" where
  "pipeclose p writable =
    (let p = (if writable then p\<lparr>writeopen := False\<rparr> else p\<lparr>readopen := False\<rparr>)
     in (p, \<not> readopen p \<and> \<not> writeopen p))"

section \<open>Bounded queues\<close>

text \<open>The two loops over any queue with a fullness and an emptiness test.\<close>

fun fill :: "('q \<Rightarrow> bool) \<Rightarrow> ('q \<Rightarrow> 'a \<Rightarrow> 'q) \<Rightarrow> 'q \<Rightarrow> 'a list \<Rightarrow> 'q \<times> 'a list" where
  "fill is_full put q [] = (q, [])"
| "fill is_full put q (x # xs) = (if is_full q then (q, x # xs) else fill is_full put (put q x) xs)"

fun drain :: "('q \<Rightarrow> bool) \<Rightarrow> ('q \<Rightarrow> 'a \<times> 'q) \<Rightarrow> 'q \<Rightarrow> nat \<Rightarrow> 'q \<times> 'a list" where
  "drain is_empty get q 0 = (q, [])"
| "drain is_empty get q (Suc n) =
    (if is_empty q then (q, [])
     else case get q of (x, q) \<Rightarrow> case drain is_empty get q n of (q, xs) \<Rightarrow> (q, x # xs))"

locale bounded_queue =
  fixes is_full is_empty :: "'q \<Rightarrow> bool"
    and put :: "'q \<Rightarrow> 'a \<Rightarrow> 'q"
    and get :: "'q \<Rightarrow> 'a \<times> 'q"
    and items :: "'q \<Rightarrow> 'a list"
    and inv :: "'q \<Rightarrow> bool"
    and capacity :: nat
  assumes items_bound: "inv q \<Longrightarrow> length (items q) \<le> capacity"
    and full_iff: "inv q \<Longrightarrow> is_full q \<longleftrightarrow> length (items q) = capacity"
    and empty_iff: "inv q \<Longrightarrow> is_empty q \<longleftrightarrow> items q = []"
    and put_item: "inv q \<Longrightarrow> \<not> is_full q \<Longrightarrow> inv (put q x) \<and> items (put q x) = items q @ [x]"
    and get_item: "inv q \<Longrightarrow> \<not> is_empty q \<Longrightarrow> get q = (x, q') \<Longrightarrow> inv q' \<and> items q = x # items q'"
begin

lemma fill_items:
  "inv q \<Longrightarrow> fill is_full put q xs = (q', rest) \<Longrightarrow>
   inv q' \<and> (\<exists>done. xs = done @ rest \<and> items q' = items q @ done) \<and> (rest \<noteq> [] \<longrightarrow> is_full q')"
proof (induction xs arbitrary: q)
  case (Cons x xs)
  show ?case
  proof (cases "is_full q")
    case False
    then have "inv (put q x)" "items (put q x) = items q @ [x]" using put_item Cons.prems by blast+
    with Cons.IH [of "put q x"] Cons.prems False obtain ys where
      "inv q'" "xs = ys @ rest" "items q' = items q @ x # ys" "rest \<noteq> [] \<longrightarrow> is_full q'" by auto
    then show ?thesis by auto
  qed (use Cons.prems in auto)
qed simp

lemma drain_items:
  "inv q \<Longrightarrow> drain is_empty get q n = (q', xs) \<Longrightarrow>
   inv q' \<and> xs = take n (items q) \<and> items q' = drop n (items q)"
proof (induction n arbitrary: q xs)
  case (Suc n)
  show ?case
  proof (cases "is_empty q")
    case True
    then show ?thesis using Suc.prems empty_iff by auto
  next
    case False
    obtain x q1 where g: "get q = (x, q1)" by (cases "get q")
    obtain ys where d: "drain is_empty get q1 n = (q', ys)" "xs = x # ys"
      using Suc.prems False g by (auto split: prod.splits)
    then show ?thesis using get_item [OF Suc.prems(1) False g] Suc.IH [of q1 ys] by auto
  qed
qed simp

end

section \<open>The ring buffer is a bounded queue\<close>

definition pipe_len :: "pipe \<Rightarrow> nat" where
  "pipe_len p = unat (nwrite p - nread p)"

definition pipe_items :: "pipe \<Rightarrow> u8 list" where
  "pipe_items p = map (\<lambda>i. data p ! ((unat (nread p) + i) mod PIPESIZE)) [0..<pipe_len p]"

definition pipe_inv :: "pipe \<Rightarrow> bool" where
  "pipe_inv p = (length (data p) = PIPESIZE \<and> pipe_len p \<le> PIPESIZE)"

lemma unat_mod_PIPESIZE: "unat (w mod of_nat PIPESIZE :: u32) = unat w mod PIPESIZE"
  by (simp add: unat_mod_distrib PIPESIZE_def)

lemma unat_add_mod_PIPESIZE: "unat (a + b :: u32) mod PIPESIZE = (unat a + unat b) mod PIPESIZE"
proof -
  have "unat (a + b) = (unat a + unat b) mod (PIPESIZE * 2 ^ 23)" by (simp add: unat_word_ariths PIPESIZE_def)
  then show ?thesis by (simp only: mod_mult_self2 mod_mod_cancel dvd_triv_left)
qed

lemma pipe_items_nth:
  "i < pipe_len p \<Longrightarrow> pipe_items p ! i = data p ! ((unat (nread p) + i) mod PIPESIZE)"
  by (simp add: pipe_items_def)

lemma length_pipe_items [simp]: "length (pipe_items p) = pipe_len p"
  by (simp add: pipe_items_def)

lemma pipe_full_iff: "pipe_full p \<longleftrightarrow> pipe_len p = PIPESIZE"
proof -
  have "pipe_full p \<longleftrightarrow> nwrite p - nread p = of_nat PIPESIZE"
    by (auto simp: pipe_full_def algebra_simps)
  also have "\<dots> \<longleftrightarrow> pipe_len p = PIPESIZE"
    by (auto simp: pipe_len_def PIPESIZE_def word_unat_eq_iff)
  finally show ?thesis .
qed

lemma pipe_empty_iff: "pipe_empty p \<longleftrightarrow> pipe_len p = 0"
  by (auto simp: pipe_empty_def pipe_len_def unat_eq_zero)

lemma ring_index_inj:
  fixes r i n :: nat
  assumes "i \<le> n" "n < PIPESIZE"
  shows "(r + i) mod PIPESIZE = (r + n) mod PIPESIZE \<longleftrightarrow> i = n"
proof
  assume "(r + i) mod PIPESIZE = (r + n) mod PIPESIZE"
  then have "PIPESIZE dvd (r + n) - (r + i)"
    using assms mod_eq_dvd_iff_nat [of "r + i" "r + n" PIPESIZE] by simp
  then have "PIPESIZE dvd n - i" by simp
  moreover have "n - i < PIPESIZE" using assms by simp
  ultimately have "n - i = 0" by (meson nat_dvd_not_less neq0_conv)
  then show "i = n" using assms by simp
qed simp

lemma pipe_put_items:
  assumes "pipe_inv p" "\<not> pipe_full p"
  shows "pipe_inv (pipe_put p c)" "pipe_items (pipe_put p c) = pipe_items p @ [c]"
proof -
  let ?n = "pipe_len p" and ?r = "unat (nread p)"
  have n: "?n < PIPESIZE" using assms by (simp add: pipe_inv_def pipe_full_iff)
  have len: "pipe_len (pipe_put p c) = Suc ?n"
  proof -
    have "nwrite p + 1 - nread p = (nwrite p - nread p) + 1" by simp
    then have "pipe_len (pipe_put p c) = unat ((nwrite p - nread p) + 1)"
      by (simp add: pipe_len_def pipe_put_def algebra_simps)
    also have "\<dots> = Suc ?n" using n by (simp only: unat_word_ariths) (simp add: pipe_len_def PIPESIZE_def)
    finally show ?thesis .
  qed
  show "pipe_inv (pipe_put p c)" using assms n len by (simp add: pipe_inv_def pipe_put_def)
  have w: "unat (nwrite p) mod PIPESIZE = (?r + ?n) mod PIPESIZE"
    using unat_add_mod_PIPESIZE [of "nread p" "nwrite p - nread p"] by (simp add: pipe_len_def)
  show "pipe_items (pipe_put p c) = pipe_items p @ [c]"
  proof (rule nth_equalityI)
    fix i assume "i < length (pipe_items (pipe_put p c))"
    then have i: "i < Suc ?n" by (simp add: len)
    have inj: "(?r + i) mod PIPESIZE = (?r + ?n) mod PIPESIZE \<longleftrightarrow> i = ?n"
      using i n by (intro ring_index_inj) simp_all
    have "pipe_items (pipe_put p c) ! i = (data p)[(?r + ?n) mod PIPESIZE := c] ! ((?r + i) mod PIPESIZE)"
      using i by (simp add: pipe_items_nth len) (simp add: pipe_put_def unat_mod_PIPESIZE w)
    moreover have "(?r + ?n) mod PIPESIZE < length (data p)" using assms(1) by (simp add: pipe_inv_def PIPESIZE_def)
    ultimately show "pipe_items (pipe_put p c) ! i = (pipe_items p @ [c]) ! i"
      using i inj by (auto simp: nth_list_update nth_append pipe_items_nth less_Suc_eq)
  qed (simp add: len)
qed

lemma pipe_get_items:
  assumes "pipe_inv p" "\<not> pipe_empty p" "pipe_get p = (c, p')"
  shows "pipe_inv p' \<and> pipe_items p = c # pipe_items p'"
proof -
  let ?n = "pipe_len p" and ?r = "unat (nread p)"
  have n: "0 < ?n" "?n \<le> PIPESIZE" using assms by (simp_all add: pipe_inv_def pipe_empty_iff)
  have p': "p' = p\<lparr>nread := nread p + 1\<rparr>" "c = data p ! (?r mod PIPESIZE)"
    using assms(3) by (auto simp: pipe_get_def unat_mod_PIPESIZE)
  have len: "Suc (pipe_len p') = ?n"
  proof -
    have "nwrite p - (nread p + 1) = (nwrite p - nread p) - 1" by simp
    then have "pipe_len p' = unat ((nwrite p - nread p) - 1)"
      by (simp add: pipe_len_def p' algebra_simps)
    also have "\<dots> = ?n - 1" using assms(2) by (simp add: pipe_len_def pipe_empty_def unat_minus_one)
    finally show ?thesis using n(1) by simp
  qed
  have idx: "(unat (nread p + 1) + i) mod PIPESIZE = (?r + Suc i) mod PIPESIZE" for i
  proof -
    have "(unat (nread p + 1) + i) mod PIPESIZE = (unat (nread p + 1) mod PIPESIZE + i) mod PIPESIZE"
      by (rule mod_add_left_eq [symmetric])
    also have "\<dots> = ((?r + 1) mod PIPESIZE + i) mod PIPESIZE"
      unfolding unat_add_mod_PIPESIZE unat_1 ..
    also have "\<dots> = (?r + Suc i) mod PIPESIZE" unfolding mod_add_left_eq by simp
    finally show ?thesis .
  qed
  have "pipe_items p = c # pipe_items p'"
  proof (rule nth_equalityI)
    fix i assume "i < length (pipe_items p)"
    then show "pipe_items p ! i = (c # pipe_items p') ! i"
      using len idx by (cases i) (simp_all add: pipe_items_nth p')
  qed (simp add: len)
  then show ?thesis using assms(1) len n by (simp add: pipe_inv_def p')
qed

interpretation ring: bounded_queue pipe_full pipe_empty pipe_put pipe_get pipe_items pipe_inv PIPESIZE
proof
  fix p c p'
  assume "pipe_inv p" "\<not> pipe_empty p" "pipe_get p = (c, p')"
  then show "pipe_inv p' \<and> pipe_items p = c # pipe_items p'" by (rule pipe_get_items)
qed (use pipe_put_items in \<open>auto simp: pipe_inv_def pipe_full_iff pipe_empty_iff length_0_conv [symmetric] simp del: length_0_conv\<close>)


section \<open>Readers and writers\<close>

lemma pipewrite_fill:
  "pipewrite killed p cs = (case fill pipe_full pipe_put p cs of (p', rest) \<Rightarrow>
     (p', if rest = [] then WRet else if \<not> readopen p' \<or> killed then WFail else WSleep rest))"
  by (induction cs arbitrary: p) (auto split: prod.splits)

lemma piperead_drain: "piperead_copy p n = drain pipe_empty pipe_get p n"
  by (induction n arbitrary: p) (auto split: prod.splits)

text \<open>
  A process that sleeps in a call is recorded with what is left of the call; \<open>wakeup\<close> moves it
  from \<open>asleep\<close> to \<open>woken\<close>. \<open>sent\<close> and \<open>received\<close> log the bytes that went through the pipe.
\<close>

datatype call = Writing "u8 list" | Reading nat

fun is_reading :: "call option \<Rightarrow> bool" where
  "is_reading (Some (Reading n)) = True"
| "is_reading _ = False"

fun is_writing :: "call option \<Rightarrow> bool" where
  "is_writing (Some (Writing cs)) = True"
| "is_writing _ = False"

record pipe_sys =
  the_pipe :: pipe
  asleep :: "nat \<Rightarrow> call option"
  woken :: "nat \<Rightarrow> call option"
  sent :: "u8 list"
  received :: "u8 list"

definition wakeup :: "(call option \<Rightarrow> bool) \<Rightarrow> pipe_sys \<Rightarrow> pipe_sys" where
  "wakeup on_chan s = s\<lparr>asleep := (\<lambda>q. if on_chan (asleep s q) then None else asleep s q),
     woken := (\<lambda>q. if on_chan (asleep s q) then asleep s q else woken s q)\<rparr>"

definition run_write :: "bool \<Rightarrow> nat \<Rightarrow> u8 list \<Rightarrow> pipe_sys \<Rightarrow> pipe_sys" where
  "run_write killed q cs s =
    (case pipewrite killed (the_pipe s) cs of (p, e) \<Rightarrow>
       let s = s\<lparr>the_pipe := p, sent := sent s @ take (pipe_len p - pipe_len (the_pipe s)) cs\<rparr>;
           s = (if wakes_readers e then wakeup is_reading s else s)
       in case e of WSleep rest \<Rightarrow> s\<lparr>asleep := (asleep s)(q \<mapsto> Writing rest)\<rparr> | _ \<Rightarrow> s)"

definition run_read :: "bool \<Rightarrow> nat \<Rightarrow> nat \<Rightarrow> pipe_sys \<Rightarrow> pipe_sys" where
  "run_read killed q n s =
    (case piperead killed (the_pipe s) n of
       (p, RRet cs) \<Rightarrow> wakeup is_writing (s\<lparr>the_pipe := p, received := received s @ cs\<rparr>)
     | (p, RFail) \<Rightarrow> s
     | (p, RSleep) \<Rightarrow> s\<lparr>asleep := (asleep s)(q \<mapsto> Reading n)\<rparr>)"

definition run_close :: "bool \<Rightarrow> pipe_sys \<Rightarrow> pipe_sys" where
  "run_close writable s =
    wakeup (if writable then is_reading else is_writing) (s\<lparr>the_pipe := fst (pipeclose (the_pipe s) writable)\<rparr>)"

text \<open>
  The steps. A process in a call holds its end of the pipe open, so an end is closed only when no
  call on it is pending. The first argument says whether the running process has been killed.
\<close>

inductive pipe_step :: "bool \<Rightarrow> pipe_sys \<Rightarrow> pipe_sys \<Rightarrow> bool" for killed where
  start_write: "asleep s q = None \<Longrightarrow> woken s q = None \<Longrightarrow> writeopen (the_pipe s) \<Longrightarrow>
    pipe_step killed s (run_write killed q cs s)"
| resume_write: "woken s q = Some (Writing cs) \<Longrightarrow>
    pipe_step killed s (run_write killed q cs (s\<lparr>woken := (woken s)(q := None)\<rparr>))"
| start_read: "asleep s q = None \<Longrightarrow> woken s q = None \<Longrightarrow> readopen (the_pipe s) \<Longrightarrow>
    pipe_step killed s (run_read killed q n s)"
| resume_read: "woken s q = Some (Reading n) \<Longrightarrow>
    pipe_step killed s (run_read killed q n (s\<lparr>woken := (woken s)(q := None)\<rparr>))"
| close_write: "(\<And>q. \<not> is_writing (asleep s q) \<and> \<not> is_writing (woken s q)) \<Longrightarrow>
    pipe_step killed s (run_close True s)"
| close_read: "(\<And>q. \<not> is_reading (asleep s q) \<and> \<not> is_reading (woken s q)) \<Longrightarrow>
    pipe_step killed s (run_close False s)"

definition pipe_start :: "u8 list \<Rightarrow> pipe_sys" where
  "pipe_start junk = \<lparr>the_pipe = pipe_init junk, asleep = (\<lambda>_. None), woken = (\<lambda>_. None), sent = [], received = []\<rparr>"

definition fifo :: "pipe_sys \<Rightarrow> bool" where
  "fifo s = (pipe_inv (the_pipe s) \<and> sent s = received s @ pipe_items (the_pipe s))"

lemma wakeup_simps [simp]:
  "the_pipe (wakeup c s) = the_pipe s" "sent (wakeup c s) = sent s" "received (wakeup c s) = received s"
  by (simp_all add: wakeup_def)

lemma pipewrite_items:
  assumes "pipe_inv p" "pipewrite killed p cs = (p', e)"
  shows "pipe_inv p'" "pipe_items p' = pipe_items p @ take (pipe_len p' - pipe_len p) cs"
    "e = WSleep rest \<Longrightarrow> pipe_full p' \<and> readopen p'" "e = WFail \<Longrightarrow> pipe_full p' \<and> (\<not> readopen p' \<or> killed)"
proof -
  obtain q rest' where f: "fill pipe_full pipe_put p cs = (q, rest')" by (cases "fill pipe_full pipe_put p cs")
  from ring.fill_items [OF assms(1) f] obtain d where
    d: "pipe_inv q" "cs = d @ rest'" "pipe_items q = pipe_items p @ d" "rest' \<noteq> [] \<longrightarrow> pipe_full q" by blast
  have e: "p' = q" "e = (if rest' = [] then WRet else if \<not> readopen q \<or> killed then WFail else WSleep rest')"
    using assms(2) f by (simp_all add: pipewrite_fill)
  have "pipe_len q = pipe_len p + length d" using arg_cong [OF d(3), of length] by simp
  then show "pipe_inv p'" "pipe_items p' = pipe_items p @ take (pipe_len p' - pipe_len p) cs"
    using d e by simp_all
  show "e = WSleep rest \<Longrightarrow> pipe_full p' \<and> readopen p'" "e = WFail \<Longrightarrow> pipe_full p' \<and> (\<not> readopen p' \<or> killed)"
    using d e by (auto split: if_splits)
qed

lemma piperead_items:
  assumes "pipe_inv p" "piperead killed p n = (p', e)"
  shows "pipe_inv p'" "case e of RRet cs \<Rightarrow> pipe_items p = cs @ pipe_items p' | _ \<Rightarrow> p' = p"
    "e = RSleep \<Longrightarrow> pipe_empty p \<and> writeopen p"
  using assms ring.drain_items [of p n]
  by (auto simp: piperead_def piperead_drain split: if_splits prod.splits)


lemma run_write_fifo:
  assumes "fifo s"
  shows "fifo (run_write killed q cs s)"
proof -
  obtain p e where w: "pipewrite killed (the_pipe s) cs = (p, e)" by (cases "pipewrite killed (the_pipe s) cs")
  have inv: "pipe_inv (the_pipe s)" using assms by (simp add: fifo_def)
  from pipewrite_items(1,2) [OF inv w] assms show ?thesis
    by (cases e) (simp_all add: run_write_def w Let_def fifo_def)
qed

lemma run_read_fifo: "fifo s \<Longrightarrow> fifo (run_read killed q n s)"
  using piperead_items [of "the_pipe s" killed n]
  by (auto simp: fifo_def run_read_def split: prod.splits read_end.splits)

lemma close_items [simp]:
  "pipe_items (fst (pipeclose p w)) = pipe_items p" "pipe_inv (fst (pipeclose p w)) = pipe_inv p"
  by (simp_all add: pipeclose_def pipe_items_def pipe_inv_def pipe_len_def)

lemma pipe_step_fifo: "pipe_step killed s s' \<Longrightarrow> fifo s \<Longrightarrow> fifo s'"
proof (induction rule: pipe_step.induct)
  case (resume_write s q cs)
  then show ?case by (intro run_write_fifo) (simp add: fifo_def)
next
  case (resume_read s q n)
  then show ?case by (intro run_read_fifo) (simp add: fifo_def)
next
  case (close_write s)
  then show ?case by (simp add: run_close_def fifo_def)
next
  case (close_read s)
  then show ?case by (simp add: run_close_def fifo_def)
qed (auto intro: run_write_fifo run_read_fifo)

lemma fifo_start: "length junk = PIPESIZE \<Longrightarrow> fifo (pipe_start junk)"
  by (simp add: fifo_def pipe_start_def pipe_init_def pipe_inv_def pipe_items_def pipe_len_def)

text \<open>
  Claim C9. However the calls of any number of readers and writers interleave, killed or not, and
  although the two counters wrap around at 32 bits, the bytes received are exactly the first bytes
  sent, in order; the rest are in the buffer, which never holds more than \<open>PIPESIZE\<close> bytes.
\<close>

theorem pipe_is_fifo:
  assumes "(\<lambda>s s'. \<exists>killed. pipe_step killed s s')\<^sup>*\<^sup>* (pipe_start junk) s" "length junk = PIPESIZE"
  shows "sent s = received s @ pipe_items (the_pipe s) \<and> length (pipe_items (the_pipe s)) \<le> PIPESIZE"
proof -
  from assms have "fifo s"
    by (induction rule: rtranclp_induct) (auto intro: fifo_start pipe_step_fifo)
  then show ?thesis by (simp add: fifo_def pipe_inv_def)
qed

lemma two_bytes_in_one_out:
  assumes "length junk = PIPESIZE"
  defines "s0 \<equiv> pipe_start junk"
  defines "s1 \<equiv> run_write False 1 [7, 8] s0"
  defines "s2 \<equiv> run_read False 2 1 s1"
  shows "pipe_step False s0 s1" "pipe_step False s1 s2" "received s2 = [7]"
proof -
  have "pipewrite False (pipe_init junk) [7, 8] = (\<lparr>data = junk[0 := 7, 1 := 8], nread = 0, nwrite = 2,
    readopen = True, writeopen = True\<rparr>, WRet)"
    by (simp add: pipe_init_def pipe_full_def pipe_put_def PIPESIZE_def)
  then have s1: "the_pipe s1 = \<lparr>data = junk[0 := 7, 1 := 8], nread = 0, nwrite = 2, readopen = True, writeopen = True\<rparr>"
    "asleep s1 = (\<lambda>_. None)" "woken s1 = (\<lambda>_. None)" "received s1 = []"
    by (simp_all add: s1_def s0_def run_write_def pipe_start_def wakeup_def Let_def)
  show "pipe_step False s0 s1" unfolding s1_def by (rule start_write) (simp_all add: s0_def pipe_start_def pipe_init_def)
  show "pipe_step False s1 s2" unfolding s2_def by (rule start_read) (simp_all add: s1)
  show "received s2 = [7]"
    using assms(1) by (simp add: s2_def run_read_def piperead_def s1 pipe_empty_def pipe_get_def PIPESIZE_def)
qed

theorem pipe_is_fifo_witness:
  "let s = run_read False 2 1 (run_write False 1 [7, 8] (pipe_start (replicate PIPESIZE 0)))
   in received s = [7] \<and> sent s = received s @ pipe_items (the_pipe s) \<and> length (pipe_items (the_pipe s)) \<le> PIPESIZE"
proof -
  note d = two_bytes_in_one_out [of "replicate PIPESIZE 0", OF length_replicate]
  let ?R = "\<lambda>s s'. \<exists>killed. pipe_step killed s s'" and ?s1 = "run_write False 1 [7, 8] (pipe_start (replicate PIPESIZE 0))"
  have "?R (pipe_start (replicate PIPESIZE 0)) ?s1" "?R ?s1 (run_read False 2 1 ?s1)" using d(1,2) by blast+
  then have "?R\<^sup>*\<^sup>* (pipe_start (replicate PIPESIZE 0)) (run_read False 2 1 ?s1)"
    by (rule converse_rtranclp_into_rtranclp [OF _ r_into_rtranclp])
  from pipe_is_fifo [OF this length_replicate] d(3) show ?thesis unfolding Let_def by blast
qed

text \<open>Sleepers have a reason to sleep, as long as no writer is killed.\<close>

definition sleep_ok :: "pipe_sys \<Rightarrow> bool" where
  "sleep_ok s = (pipe_inv (the_pipe s) \<and>
    (\<forall>q. is_reading (asleep s q) \<longrightarrow> pipe_empty (the_pipe s) \<and> writeopen (the_pipe s)) \<and>
    (\<forall>q. is_writing (asleep s q) \<longrightarrow> pipe_full (the_pipe s) \<and> readopen (the_pipe s)) \<and>
    (\<forall>q. is_reading (asleep s q) \<or> is_reading (woken s q) \<longrightarrow> readopen (the_pipe s)) \<and>
    (\<forall>q. is_writing (asleep s q) \<or> is_writing (woken s q) \<longrightarrow> writeopen (the_pipe s)) \<and>
    (\<forall>q. asleep s q = None \<or> woken s q = None))"


lemma wakeup_asleep [simp]:
  "asleep (wakeup c s) q = (if c (asleep s q) then None else asleep s q)"
  "woken (wakeup c s) q = (if c (asleep s q) then asleep s q else woken s q)"
  by (simp_all add: wakeup_def)

lemma pipewrite_keeps: "pipewrite killed p cs = (p', e) \<Longrightarrow> readopen p' = readopen p \<and> writeopen p' = writeopen p"
  by (induction killed p cs rule: pipewrite.induct) (auto simp: pipe_put_def split: if_splits)

lemma piperead_copy_keeps: "piperead_copy p n = (p', cs) \<Longrightarrow> readopen p' = readopen p \<and> writeopen p' = writeopen p"
  by (induction p n arbitrary: p' cs rule: piperead_copy.induct) (auto simp: pipe_get_def split: if_splits prod.splits)

lemma reading_not_writing: "is_reading c \<Longrightarrow> \<not> is_writing c"
  by (induction c rule: is_reading.induct) auto

lemma run_write_sleep:
  assumes ok: "sleep_ok s" and q: "asleep s q = None" "woken s q = None" "writeopen (the_pipe s)"
  shows "sleep_ok (run_write False q cs s)"
proof -
  obtain p e where w: "pipewrite False (the_pipe s) cs = (p, e)" by (cases "pipewrite False (the_pipe s) cs")
  have inv: "pipe_inv (the_pipe s)" using ok by (simp add: sleep_ok_def)
  note it = pipewrite_items [OF inv w] and keep = pipewrite_keeps [OF w]
  have full: "pipe_full p" if "pipe_full (the_pipe s)"
    using that w by (cases cs) (auto split: if_splits)
  show ?thesis
  proof (cases e)
    case WFail
    then have "\<not> readopen (the_pipe s)" using it(4) keep by simp
    then show ?thesis using ok it(1) keep WFail by (auto simp: sleep_ok_def run_write_def w Let_def)
  next
    case WRet
    then show ?thesis using ok it(1) keep full by (auto simp: sleep_ok_def run_write_def w Let_def)
  next
    case (WSleep rest)
    then have "pipe_full p" "readopen p" using it(3) by simp_all
    then show ?thesis using ok it(1) keep WSleep q by (auto simp: sleep_ok_def run_write_def w Let_def)
  qed
qed

lemma run_read_sleep:
  assumes ok: "sleep_ok s" and q: "asleep s q = None" "woken s q = None" "readopen (the_pipe s)"
  shows "sleep_ok (run_read killed q n s)"
proof -
  obtain p e where w: "piperead killed (the_pipe s) n = (p, e)" by (cases "piperead killed (the_pipe s) n")
  have inv: "pipe_inv (the_pipe s)" using ok by (simp add: sleep_ok_def)
  note it = piperead_items [OF inv w]
  show ?thesis
  proof (cases e)
    case RFail
    then show ?thesis using ok by (simp add: run_read_def w)
  next
    case (RRet cs)
    then have ne: "\<not> (pipe_empty (the_pipe s) \<and> writeopen (the_pipe s))"
      and "piperead_copy (the_pipe s) n = (p, cs)"
      using w by (auto simp: piperead_def split: if_splits prod.splits)
    from piperead_copy_keeps [OF this(2)] ne show ?thesis
      using ok it(1) RRet by (auto simp: sleep_ok_def run_read_def w)
  next
    case RSleep
    then show ?thesis using ok it(3) w q by (auto simp: sleep_ok_def run_read_def)
  qed
qed

lemma pipe_step_sleep: "pipe_step False s s' \<Longrightarrow> sleep_ok s \<Longrightarrow> sleep_ok s'"
proof (induction rule: pipe_step.induct)
  case (resume_write s q cs)
  then have "is_writing (woken s q)" by simp
  with resume_write have "asleep s q = None" "writeopen (the_pipe s)" unfolding sleep_ok_def by (metis option.distinct(1), blast)
  with resume_write show ?case by (intro run_write_sleep) (auto simp: sleep_ok_def)
next
  case (resume_read s q n)
  then have "is_reading (woken s q)" by simp
  with resume_read have "asleep s q = None" "readopen (the_pipe s)" unfolding sleep_ok_def by (metis option.distinct(1), blast)
  with resume_read show ?case by (intro run_read_sleep) (auto simp: sleep_ok_def)
next
  case (close_write s)
  then show ?case by (auto simp: run_close_def sleep_ok_def pipeclose_def Let_def pipe_inv_def pipe_len_def pipe_empty_def pipe_full_def)
next
  case (close_read s)
  then show ?case by (auto simp: run_close_def sleep_ok_def pipeclose_def Let_def pipe_inv_def pipe_len_def pipe_empty_def pipe_full_def)
qed (auto intro: run_write_sleep run_read_sleep)

lemma sleep_ok_start: "length junk = PIPESIZE \<Longrightarrow> sleep_ok (pipe_start junk)"
  by (simp add: sleep_ok_def pipe_start_def pipe_init_def pipe_inv_def pipe_len_def)

text \<open>
  Claim C10. No wake-up is lost between unkilled processes: at every moment a process asleep in a
  read sees an empty pipe whose write end is open, and a process asleep in a write sees a full pipe
  whose read end is open.
\<close>

theorem no_lost_wakeup:
  assumes "(pipe_step False)\<^sup>*\<^sup>* (pipe_start junk) s" "length junk = PIPESIZE"
  shows "(is_reading (asleep s q) \<longrightarrow> pipe_items (the_pipe s) = [] \<and> writeopen (the_pipe s)) \<and>
    (is_writing (asleep s q) \<longrightarrow> length (pipe_items (the_pipe s)) = PIPESIZE \<and> readopen (the_pipe s))"
proof -
  from assms have "sleep_ok s"
    by (induction rule: rtranclp_induct) (auto intro: sleep_ok_start pipe_step_sleep)
  then show ?thesis
    by (auto simp: sleep_ok_def pipe_full_iff pipe_empty_iff length_0_conv [symmetric] simp del: length_0_conv)
qed

theorem no_lost_wakeup_witness:
  "let s = run_read False 3 5 (pipe_start (replicate PIPESIZE 0)) in
    is_reading (asleep s 3) \<and> pipe_items (the_pipe s) = [] \<and> writeopen (the_pipe s)"
proof -
  let ?init = "pipe_start (replicate PIPESIZE 0)"
  let ?s = "run_read False 3 5 ?init"
  have "pipe_step False ?init ?s" by (rule start_read) (simp_all add: pipe_start_def pipe_init_def)
  then have "(pipe_step False)\<^sup>*\<^sup>* ?init ?s" by blast
  note no_lost_wakeup [OF this length_replicate, of 3]
  moreover have "is_reading (asleep ?s 3)"
    by (simp add: run_read_def piperead_def pipe_start_def pipe_init_def pipe_empty_def)
  ultimately show ?thesis by (simp only: Let_def simp_thms)
qed

text \<open>
  Claim C11. A killed writer loses a wake-up: it can fill an empty pipe and then fail without having
  called \<open>wakeup(&p->nread)\<close>, so a reader that went to sleep before stays asleep although the pipe
  is full of data for it.
\<close>

theorem killed_writer_loses_wakeup:
  assumes "fifo s" "pipe_empty (the_pipe s)" "is_reading (asleep s r)" "length cs > PIPESIZE"
  shows "let s' = run_write True q cs s in
    is_reading (asleep s' r) \<and> length (pipe_items (the_pipe s')) = PIPESIZE"
proof -
  obtain p e where w: "pipewrite True (the_pipe s) cs = (p, e)" by (cases "pipewrite True (the_pipe s) cs")
  have inv: "pipe_inv (the_pipe s)" using assms(1) by (simp add: fifo_def)
  obtain p' rest where f: "fill pipe_full pipe_put (the_pipe s) cs = (p', rest)"
    by (cases "fill pipe_full pipe_put (the_pipe s) cs")
  from ring.fill_items [OF inv f] obtain d where
    d: "pipe_inv p'" "cs = d @ rest" "pipe_items p' = pipe_items (the_pipe s) @ d" "rest \<noteq> [] \<longrightarrow> pipe_full p'" by blast
  have "length d \<le> PIPESIZE" using d(1) arg_cong [OF d(3), of length] by (simp add: pipe_inv_def)
  then have "rest \<noteq> []" using d(2) assms(4) by auto
  then have "e = WFail" "p = p'" "pipe_full p'" using w f d(4) by (simp_all add: pipewrite_fill)
  then show ?thesis using assms(3) w by (simp add: run_write_def pipe_full_iff)
qed

theorem killed_writer_loses_wakeup_witness:
  "let s = run_read False 3 5 (pipe_start (replicate PIPESIZE 0)); s' = run_write True 1 (replicate 513 1) s in
    is_reading (asleep s' 3) \<and> length (pipe_items (the_pipe s')) = PIPESIZE"
proof -
  let ?s = "run_read False 3 5 (pipe_start (replicate PIPESIZE 0))"
  have "fifo ?s" by (intro run_read_fifo fifo_start) simp
  moreover have "pipe_empty (the_pipe ?s)" "is_reading (asleep ?s 3)"
    by (simp_all add: run_read_def piperead_def pipe_start_def pipe_init_def pipe_empty_def)
  ultimately show ?thesis
    using killed_writer_loses_wakeup [of ?s 3 "replicate 513 1" 1] by (simp add: PIPESIZE_def Let_def)
qed

end
