(* ===== verification/Spinlock.thy ===== *)
theory Spinlock
  imports Kalloc
begin

text \<open>
  The spin locks of \<open>kernel/spinlock.c\<close> and the sleep locks of \<open>kernel/sleeplock.c\<close>.

  A machine has any number of processors and locks. \<open>acquire\<close> and \<open>release\<close> are not atomic: each
  memory access to the lock is a step of its own, and the steps of the processors interleave
  freely. Two fields are not in the code: \<open>held\<close> records, in the order of acquisition, the locks a processor's code has acquired
  and not released, and \<open>before\<close> whether interrupts were on when it began to acquire the first of them.
\<close>

section \<open>Spin locks\<close>

record spinlock =
  locked :: bool
  lcpu :: "nat option"

text \<open>Where a processor is: in ordinary code, or after some part of \<open>acquire\<close> or \<open>release\<close>.\<close>

datatype place = Run | Checking nat | Spinning nat | Taking nat | Dropping nat | Popping | Panicked string

record cpu =
  ncli :: int
  intena :: bool
  eflags_if :: bool
  place :: place
  held :: "nat list"
  before :: bool

record machine =
  locks :: "nat \<Rightarrow> spinlock"
  cpus :: "nat \<Rightarrow> cpu"

definition initlock :: spinlock where
  "initlock = \<lparr>locked = False, lcpu = None\<rparr>"

definition holding :: "spinlock \<Rightarrow> nat \<Rightarrow> bool" where
  "holding lk c = (locked lk \<and> lcpu lk = Some c)"

definition pushcli :: "cpu \<Rightarrow> cpu" where
  "pushcli c =
    (let eflags = eflags_if c;
         c = c\<lparr>eflags_if := False\<rparr>;
         c = (if ncli c = 0 then c\<lparr>intena := eflags\<rparr> else c)
     in c\<lparr>ncli := ncli c + 1\<rparr>)"

definition popcli :: "cpu \<Rightarrow> cpu outcome" where
  "popcli c =
    (if eflags_if c then Panic ''popcli - interruptible''
     else
       let c = c\<lparr>ncli := ncli c - 1\<rparr> in
       if ncli c < 0 then Panic ''popcli''
       else Ret (if ncli c = 0 \<and> intena c then c\<lparr>eflags_if := True\<rparr> else c))"

definition xchg :: "spinlock \<Rightarrow> spinlock \<times> bool" where
  "xchg lk = (lk\<lparr>locked := True\<rparr>, locked lk)"

text \<open>The steps of \<open>acquire\<close> and \<open>release\<close> on processor \<open>i\<close>.\<close>

definition upd_cpu :: "nat \<Rightarrow> cpu \<Rightarrow> machine \<Rightarrow> machine" where
  "upd_cpu i c m = m\<lparr>cpus := (cpus m)(i := c)\<rparr>"

definition upd_lock :: "nat \<Rightarrow> spinlock \<Rightarrow> machine \<Rightarrow> machine" where
  "upd_lock l lk m = m\<lparr>locks := (locks m)(l := lk)\<rparr>"

definition acquire_enter :: "nat \<Rightarrow> nat \<Rightarrow> machine \<Rightarrow> machine" where
  "acquire_enter i l m =
    upd_cpu i ((pushcli (cpus m i))\<lparr>place := Checking l,
      before := (if held (cpus m i) = [] then eflags_if (cpus m i) else before (cpus m i))\<rparr>) m"

definition acquire_check :: "nat \<Rightarrow> nat \<Rightarrow> machine \<Rightarrow> machine" where
  "acquire_check i l m =
    upd_cpu i ((cpus m i)\<lparr>place := (if holding (locks m l) i then Panicked ''acquire'' else Spinning l)\<rparr>) m"

definition acquire_spin :: "nat \<Rightarrow> nat \<Rightarrow> machine \<Rightarrow> machine" where
  "acquire_spin i l m =
    (case xchg (locks m l) of (lk, old) \<Rightarrow>
       upd_lock l lk (if old then m else upd_cpu i ((cpus m i)\<lparr>place := Taking l\<rparr>) m))"

definition acquire_record :: "nat \<Rightarrow> nat \<Rightarrow> machine \<Rightarrow> machine" where
  "acquire_record i l m =
    upd_lock l ((locks m l)\<lparr>lcpu := Some i\<rparr>) (upd_cpu i ((cpus m i)\<lparr>place := Run, held := l # held (cpus m i)\<rparr>) m)"

definition release_enter :: "nat \<Rightarrow> nat \<Rightarrow> machine \<Rightarrow> machine" where
  "release_enter i l m =
    (if \<not> holding (locks m l) i then upd_cpu i ((cpus m i)\<lparr>place := Panicked ''release''\<rparr>) m
     else upd_lock l ((locks m l)\<lparr>lcpu := None\<rparr>)
       (upd_cpu i ((cpus m i)\<lparr>place := Dropping l, held := remove1 l (held (cpus m i))\<rparr>) m))"

definition release_drop :: "nat \<Rightarrow> nat \<Rightarrow> machine \<Rightarrow> machine" where
  "release_drop i l m =
    upd_lock l ((locks m l)\<lparr>locked := False\<rparr>) (upd_cpu i ((cpus m i)\<lparr>place := Popping\<rparr>) m)"

definition release_pop :: "nat \<Rightarrow> machine \<Rightarrow> machine" where
  "release_pop i m =
    (case popcli (cpus m i) of
       Panic msg \<Rightarrow> upd_cpu i ((cpus m i)\<lparr>place := Panicked msg\<rparr>) m
     | Ret c \<Rightarrow> upd_cpu i (c\<lparr>place := Run\<rparr>) m)"

text \<open>
  Ordinary code may acquire any lock, release any lock, and switch interrupts while it holds no
  lock.
\<close>

inductive lock_step :: "machine \<Rightarrow> machine \<Rightarrow> bool" where
  acquire_enter: "place (cpus m i) = Run \<Longrightarrow> lock_step m (acquire_enter i l m)"
| acquire_check: "place (cpus m i) = Checking l \<Longrightarrow> lock_step m (acquire_check i l m)"
| acquire_spin: "place (cpus m i) = Spinning l \<Longrightarrow> lock_step m (acquire_spin i l m)"
| acquire_record: "place (cpus m i) = Taking l \<Longrightarrow> lock_step m (acquire_record i l m)"
| release_enter: "place (cpus m i) = Run \<Longrightarrow> lock_step m (release_enter i l m)"
| release_drop: "place (cpus m i) = Dropping l \<Longrightarrow> lock_step m (release_drop i l m)"
| release_pop: "place (cpus m i) = Popping \<Longrightarrow> lock_step m (release_pop i m)"
| interrupts: "place (cpus m i) = Run \<Longrightarrow> ncli (cpus m i) = 0 \<Longrightarrow>
    lock_step m (upd_cpu i ((cpus m i)\<lparr>eflags_if := b\<rparr>) m)"

definition lock_start :: machine where
  "lock_start = \<lparr>locks = (\<lambda>_. initlock),
     cpus = (\<lambda>_. \<lparr>ncli = 0, intena = False, eflags_if = False, place = Run, held = [], before = False\<rparr>)\<rparr>"

section \<open>Mutual exclusion\<close>

text \<open>Processor \<open>i\<close> has lock \<open>l\<close> from its successful exchange until it stores zero.\<close>

definition owns :: "machine \<Rightarrow> nat \<Rightarrow> nat \<Rightarrow> bool" where
  "owns m i l = (place (cpus m i) = Taking l \<or> place (cpus m i) = Dropping l \<or> l \<in> set (held (cpus m i)))"

definition in_hand :: "machine \<Rightarrow> nat \<Rightarrow> nat \<Rightarrow> bool" where
  "in_hand m i l = (place (cpus m i) = Taking l \<or> place (cpus m i) = Dropping l)"

text \<open>The words of a lock agree with what the processors' code believes.\<close>

definition lock_inv :: "machine \<Rightarrow> bool" where
  "lock_inv m = (
    (\<forall>i l. l \<in> set (held (cpus m i)) \<longleftrightarrow> lcpu (locks m l) = Some i) \<and>
    (\<forall>i l. lcpu (locks m l) = Some i \<longrightarrow> locked (locks m l)) \<and>
    (\<forall>i l. in_hand m i l \<longrightarrow> locked (locks m l) \<and> lcpu (locks m l) = None) \<and>
    (\<forall>i j l. in_hand m i l \<longrightarrow> in_hand m j l \<longrightarrow> i = j) \<and>
    (\<forall>i. distinct (held (cpus m i))))"

text \<open>
  The nesting counter counts the locks held and the call in progress, and \<open>intena\<close> has the interrupt flag from before
  the first of them.
\<close>

fun pending :: "place \<Rightarrow> int" where
  "pending Run = 0"
| "pending _ = 1"

fun panicked :: "place \<Rightarrow> bool" where
  "panicked (Panicked msg) = True"
| "panicked _ = False"

definition cli_inv :: "cpu \<Rightarrow> bool" where
  "cli_inv c = (panicked (place c) \<or>
     ncli c = int (length (held c)) + pending (place c) \<and> (0 < ncli c \<longrightarrow> \<not> eflags_if c \<and> intena c = before c))"

lemma upd_simps [simp]:
  "cpus (upd_cpu i c m) j = (if j = i then c else cpus m j)" "locks (upd_cpu i c m) = locks m"
  "locks (upd_lock l lk m) k = (if k = l then lk else locks m k)" "cpus (upd_lock l lk m) = cpus m"
  by (simp_all add: upd_cpu_def upd_lock_def)

lemma pushcli_simps [simp]:
  "ncli (pushcli c) = ncli c + 1" "eflags_if (pushcli c) = False" "held (pushcli c) = held c" "place (pushcli c) = place c" "before (pushcli c) = before c"
  "intena (pushcli c) = (if ncli c = 0 then eflags_if c else intena c)"
  by (simp_all add: pushcli_def Let_def)

lemma acquire_enter_simps [simp]:
  "locks (acquire_enter i l m) = locks m" "held (cpus (acquire_enter i l m) j) = held (cpus m j)"
  "place (cpus (acquire_enter i l m) j) = (if j = i then Checking l else place (cpus m j))"
  "j \<noteq> i \<Longrightarrow> cpus (acquire_enter i l m) j = cpus m j"
  by (simp_all add: acquire_enter_def)

lemma popcli_inv:
  assumes "cli_inv c" "place c = Popping"
  obtains c' where "popcli c = Ret c'" "cli_inv (c'\<lparr>place := Run\<rparr>)" "held c' = held c"
    "eflags_if c' = (held c = [] \<and> before c)"
proof -
  let ?c = "c\<lparr>ncli := ncli c - 1\<rparr>"
  have "\<not> eflags_if c" "ncli c = int (length (held c)) + 1" "intena c = before c" using assms by (auto simp: cli_inv_def)
  then show thesis
    using that [of "if held c = [] \<and> intena c then ?c\<lparr>eflags_if := True\<rparr> else ?c"]
    by (auto simp: popcli_def Let_def cli_inv_def split: if_splits)
qed

lemma lock_start_inv: "lock_inv lock_start" "cli_inv (cpus lock_start i)"
  by (simp_all add: lock_inv_def cli_inv_def lock_start_def in_hand_def initlock_def)

lemma lock_step_inv: "lock_step m m' \<Longrightarrow> lock_inv m \<Longrightarrow> lock_inv m'"
proof (induction rule: lock_step.induct)
  case (acquire_enter m i l)
  then show ?case by (auto simp: lock_inv_def in_hand_def)
next
  case (acquire_check m i l)
  then show ?case by (auto simp: lock_inv_def acquire_check_def in_hand_def)
next
  case (acquire_spin m i l)
  then show ?case
    by (cases "locked (locks m l)"; cases "lcpu (locks m l)") (auto simp: lock_inv_def acquire_spin_def xchg_def in_hand_def)
next
  case (acquire_record m i l)
  then have "in_hand m i l" by (simp add: in_hand_def)
  with acquire_record show ?case by (auto simp: lock_inv_def acquire_record_def in_hand_def)
next
  case (release_enter m i l)
  then show ?case by (auto simp: lock_inv_def release_enter_def holding_def in_hand_def)
next
  case (release_drop m i l)
  then have "in_hand m i l" by (simp add: in_hand_def)
  with release_drop show ?case by (auto simp: lock_inv_def release_drop_def in_hand_def)
next
  case (release_pop m i)
  then show ?case
    by (cases "popcli (cpus m i)") (auto simp: lock_inv_def release_pop_def popcli_def Let_def in_hand_def split: if_splits)
next
  case (interrupts m i b)
  then show ?case by (auto simp: lock_inv_def in_hand_def)
qed

lemma lock_step_cli:
  assumes "lock_step m m'" "lock_inv m" "\<forall>i. cli_inv (cpus m i)"
  shows "\<forall>i. cli_inv (cpus m' i)"
  using assms
proof (induction rule: lock_step.induct)
  case (release_pop m i)
  then obtain c where "popcli (cpus m i) = Ret c" "cli_inv (c\<lparr>place := Run\<rparr>)" using popcli_inv by blast
  then show ?case using release_pop by (simp add: release_pop_def)
next
  case (release_enter m i l)
  have "cli_inv (cpus m i)" using release_enter by blast
  moreover have "holding (locks m l) i \<Longrightarrow> l \<in> set (held (cpus m i)) \<and> 0 < length (held (cpus m i))"
    using release_enter(2) by (metis holding_def length_pos_if_in_set lock_inv_def)
  ultimately have "cli_inv (cpus (release_enter i l m) i)"
    using release_enter(1) by (auto simp: release_enter_def cli_inv_def length_remove1 of_nat_diff Suc_le_eq)
  then show ?case using release_enter by (auto simp: release_enter_def split: if_splits)
next
  case (interrupts m i b)
  then have "cli_inv ((cpus m i)\<lparr>eflags_if := b\<rparr>)" by (auto simp: cli_inv_def dest: spec [of _ i])
  then show ?case using interrupts by simp
next
  case (acquire_enter m i l)
  then have "cli_inv (cpus (acquire_enter i l m) i)" by (auto simp: acquire_enter_def cli_inv_def dest: spec [of _ i])
  then show ?case using acquire_enter by (metis acquire_enter_simps(4))
next
  case (acquire_check m i l)
  then have "cli_inv (cpus (acquire_check i l m) i)" by (auto simp: acquire_check_def cli_inv_def dest: spec [of _ i])
  then show ?case using acquire_check by (auto simp: acquire_check_def split: if_splits)
next
  case (acquire_spin m i l)
  then have "cli_inv (cpus (acquire_spin i l m) i)" by (auto simp: acquire_spin_def xchg_def cli_inv_def dest: spec [of _ i])
  then show ?case using acquire_spin by (auto simp: acquire_spin_def xchg_def split: if_splits)
next
  case (acquire_record m i l)
  then have "cli_inv (cpus (acquire_record i l m) i)" by (auto simp: acquire_record_def cli_inv_def dest: spec [of _ i])
  then show ?case using acquire_record by (simp add: acquire_record_def)
next
  case (release_drop m i l)
  then have "cli_inv (cpus (release_drop i l m) i)" by (auto simp: release_drop_def cli_inv_def dest: spec [of _ i])
  then show ?case using release_drop by (simp add: release_drop_def)
qed

lemma lock_reach_inv:
  "lock_step\<^sup>*\<^sup>* lock_start m \<Longrightarrow> lock_inv m \<and> (\<forall>i. cli_inv (cpus m i))"
  by (induction rule: rtranclp_induct) (auto simp: lock_start_inv intro: lock_step_inv dest: lock_step_cli)


text \<open>
  Claim C14. Spin locks exclude: however the processors interleave, two of them are never both
  between the successful exchange in \<open>acquire\<close> and the store of zero in \<open>release\<close> of the same lock,
  a held lock is marked locked, and a processor that holds a lock has its interrupts off.
\<close>

theorem spinlock_mutual_exclusion:
  assumes "lock_step\<^sup>*\<^sup>* lock_start m"
  shows "(owns m i l \<longrightarrow> owns m j l \<longrightarrow> i = j) \<and> (owns m i l \<longrightarrow> locked (locks m l)) \<and>
    (held (cpus m i) \<noteq> [] \<longrightarrow> \<not> panicked (place (cpus m i)) \<longrightarrow> \<not> eflags_if (cpus m i))"
proof -
  have inv: "lock_inv m" "cli_inv (cpus m i)" using lock_reach_inv [OF assms] by blast+
  have own: "owns m k l \<longleftrightarrow> in_hand m k l \<or> lcpu (locks m l) = Some k" for k
    using inv(1) by (simp add: lock_inv_def owns_def in_hand_def)
  have "i = j" if "owns m i l" "owns m j l" using that inv(1) unfolding own lock_inv_def by fastforce
  moreover have "locked (locks m l)" if "owns m i l" using that inv(1) unfolding own lock_inv_def by blast
  moreover have "0 < int (length (held (cpus m i))) + pending (place (cpus m i))" if "held (cpus m i) \<noteq> []"
    using that by (cases "place (cpus m i)") auto
  ultimately show ?thesis using inv(2) by (auto simp: cli_inv_def)
qed

theorem spinlock_mutual_exclusion_witness:
  "\<exists>m. lock_step\<^sup>*\<^sup>* lock_start m \<and> owns m 0 5 \<and> (owns m 1 5 \<longrightarrow> 0 = (1 :: nat)) \<and> locked (locks m 5)"
proof -
  let ?m1 = "acquire_enter 0 5 lock_start"
  let ?m2 = "acquire_check 0 5 ?m1"
  let ?m3 = "acquire_spin 0 5 ?m2"
  note d = acquire_enter_def acquire_check_def acquire_spin_def xchg_def holding_def lock_start_def initlock_def
  have "lock_step lock_start ?m1" by (rule lock_step.acquire_enter) (simp add: lock_start_def)
  moreover have "lock_step ?m1 ?m2" by (rule lock_step.acquire_check) (simp add: acquire_enter_def)
  moreover have "lock_step ?m2 ?m3" by (rule lock_step.acquire_spin) (simp add: d)
  ultimately have r: "lock_step\<^sup>*\<^sup>* lock_start ?m3" by (meson rtranclp.rtrancl_into_rtrancl rtranclp.rtrancl_refl)
  have "owns ?m3 0 5" by (simp add: owns_def d)
  with spinlock_mutual_exclusion [OF r, of 0 5 1] show ?thesis using r by blast
qed

text \<open>
  Claim C15. The panics of \<open>acquire\<close> and \<open>release\<close> are exact: \<open>acquire\<close> panics precisely when the
  processor already holds the lock, \<open>release\<close> precisely when it does not, and the \<open>popcli\<close> in
  \<open>release\<close> never panics and turns interrupts back on exactly when the last lock is gone and they
  were on before the first.
\<close>

theorem spinlock_panics_exact:
  assumes "lock_step\<^sup>*\<^sup>* lock_start m"
  shows "(place (cpus m i) = Checking l \<longrightarrow>
      panicked (place (cpus (acquire_check i l m) i)) = (l \<in> set (held (cpus m i)))) \<and>
    (place (cpus m i) = Run \<longrightarrow>
      panicked (place (cpus (release_enter i l m) i)) = (l \<notin> set (held (cpus m i)))) \<and>
    (place (cpus m i) = Popping \<longrightarrow>
      place (cpus (release_pop i m) i) = Run \<and>
      eflags_if (cpus (release_pop i m) i) = (held (cpus m i) = [] \<and> before (cpus m i)))"
proof -
  have inv: "lock_inv m" "cli_inv (cpus m i)" using lock_reach_inv [OF assms] by blast+
  have hold: "holding (locks m l) i \<longleftrightarrow> l \<in> set (held (cpus m i))"
    using inv(1) by (auto simp: lock_inv_def holding_def)
  have "place (cpus (release_pop i m) i) = Run \<and>
      eflags_if (cpus (release_pop i m) i) = (held (cpus m i) = [] \<and> before (cpus m i))" if "place (cpus m i) = Popping"
    by (rule popcli_inv [OF inv(2) that]) (simp add: release_pop_def)
  then show ?thesis by (auto simp: acquire_check_def release_enter_def hold)
qed

text \<open>A processor that turned interrupts on, took lock 5 and is about to leave \<open>release\<close>.\<close>

definition leaving :: machine where
  "leaving = release_drop 0 5 (release_enter 0 5 (acquire_record 0 5 (acquire_spin 0 5 (acquire_check 0 5 (acquire_enter 0 5
     (upd_cpu 0 ((cpus lock_start 0)\<lparr>eflags_if := True\<rparr>) lock_start))))))"

lemma leaving_reachable: "lock_step\<^sup>*\<^sup>* lock_start leaving"
proof -
  let ?m0 = "upd_cpu 0 ((cpus lock_start 0)\<lparr>eflags_if := True\<rparr>) lock_start"
  let ?m1 = "acquire_enter 0 5 ?m0"
  let ?m2 = "acquire_check 0 5 ?m1"
  let ?m3 = "acquire_spin 0 5 ?m2"
  let ?m4 = "acquire_record 0 5 ?m3"
  let ?m5 = "release_enter 0 5 ?m4"
  note d = acquire_enter_def acquire_check_def acquire_spin_def acquire_record_def release_enter_def xchg_def holding_def lock_start_def initlock_def
  have "lock_step lock_start ?m0" by (rule lock_step.interrupts) (simp_all add: lock_start_def)
  moreover have "lock_step ?m0 ?m1" by (rule lock_step.acquire_enter) (simp add: d)
  moreover have "lock_step ?m1 ?m2" by (rule lock_step.acquire_check) (simp add: d)
  moreover have "lock_step ?m2 ?m3" by (rule lock_step.acquire_spin) (simp add: d)
  moreover have "lock_step ?m3 ?m4" by (rule lock_step.acquire_record) (simp add: d)
  moreover have "lock_step ?m4 ?m5" by (rule lock_step.release_enter) (simp add: d)
  moreover have "lock_step ?m5 leaving" unfolding leaving_def by (rule lock_step.release_drop) (simp add: d)
  ultimately show ?thesis by (meson rtranclp.rtrancl_into_rtrancl rtranclp.rtrancl_refl)
qed

theorem spinlock_panics_exact_witness:
  "place (cpus leaving 0) = Popping \<and> \<not> eflags_if (cpus leaving 0) \<and> eflags_if (cpus (release_pop 0 leaving) 0) \<and>
   panicked (place (cpus (acquire_check 1 5 (acquire_enter 1 5 leaving)) 1)) = False"
proof -
  note d = leaving_def acquire_enter_def acquire_check_def acquire_spin_def acquire_record_def release_enter_def release_drop_def
    xchg_def holding_def lock_start_def initlock_def
  have p: "place (cpus leaving 0) = Popping" "held (cpus leaving 0) = []" "before (cpus leaving 0)" "\<not> eflags_if (cpus leaving 0)"
      "place (cpus leaving 1) = Run" "held (cpus leaving 1) = []"
    by (simp_all add: d)
  have "lock_step leaving (acquire_enter 1 5 leaving)" by (rule lock_step.acquire_enter) (rule p(5))
  then have r: "lock_step\<^sup>*\<^sup>* lock_start (acquire_enter 1 5 leaving)" using leaving_reachable by (meson rtranclp.rtrancl_into_rtrancl)
  have "place (cpus (acquire_enter 1 5 leaving) 1) = Checking 5" "held (cpus (acquire_enter 1 5 leaving) 1) = []"
    using p(6) by (simp_all add: acquire_enter_def)
  then show ?thesis using spinlock_panics_exact [OF leaving_reachable, of 0 5] spinlock_panics_exact [OF r, of 1 5] p by simp
qed

section \<open>Sleep locks\<close>

text \<open>
  A sleep lock's own spin lock makes each stretch of its routines one step. A process that finds
  the lock taken sleeps; \<open>releasesleep\<close> wakes all sleepers, which then try again. The field \<open>pid\<close> gets
  the \<open>ns_pid\<close> of the caller, its number in its own namespace: two processes may have the same.
\<close>

record sleeplock =
  slocked :: bool
  spid :: nat

definition initsleeplock :: sleeplock where
  "initsleeplock = \<lparr>slocked = False, spid = 0\<rparr>"

text \<open>One turn of the loop in \<open>acquiresleep\<close>: \<open>None\<close> when the caller goes to sleep.\<close>

definition acquiresleep :: "nat \<Rightarrow> sleeplock \<Rightarrow> sleeplock option" where
  "acquiresleep pid lk = (if slocked lk then None else Some \<lparr>slocked = True, spid = pid\<rparr>)"

definition releasesleep :: "sleeplock \<Rightarrow> sleeplock" where
  "releasesleep lk = lk\<lparr>slocked := False, spid := 0\<rparr>"

definition holdingsleep :: "sleeplock \<Rightarrow> bool" where
  "holdingsleep lk = slocked lk"

text \<open>
  The lock with the processes that sleep on it, and those whose \<open>acquiresleep\<close> has returned and that have not
  called \<open>releasesleep\<close>. \<open>sleeplock_acquire\<close> is one turn of \<open>acquiresleep\<close>, with the call of \<open>sleep\<close>, and tells whether
  it took the lock; \<open>sleeplock_release\<close> is \<open>releasesleep\<close> with its call of \<open>wakeup\<close>.
\<close>

record sleep_sys =
  slk :: sleeplock
  sleepers :: "nat set"
  holders :: "nat set"

definition sleeplock_acquire :: "nat \<Rightarrow> nat \<Rightarrow> sleep_sys \<Rightarrow> bool \<times> sleep_sys" where
  "sleeplock_acquire p pid s =
    (case acquiresleep pid (slk s) of
       None \<Rightarrow> (False, s\<lparr>sleepers := insert p (sleepers s)\<rparr>)
     | Some lk \<Rightarrow> (True, s\<lparr>slk := lk\<rparr>))"

definition sleeplock_release :: "sleep_sys \<Rightarrow> sleep_sys" where
  "sleeplock_release s = s\<lparr>slk := releasesleep (slk s), sleepers := {}\<rparr>"

inductive sleep_step :: "(nat \<Rightarrow> nat) \<Rightarrow> sleep_sys \<Rightarrow> sleep_sys \<Rightarrow> bool" for ns_pid where
  acquire: "p \<notin> sleepers s \<Longrightarrow> p \<notin> holders s \<Longrightarrow> sleeplock_acquire p (ns_pid p) s = (got, s') \<Longrightarrow>
    sleep_step ns_pid s (s'\<lparr>holders := (if got then insert p (holders s) else holders s)\<rparr>)"
| release: "p \<in> holders s \<Longrightarrow> sleep_step ns_pid s ((sleeplock_release s)\<lparr>holders := holders s - {p}\<rparr>)"

definition sleep_start :: sleep_sys where
  "sleep_start = \<lparr>slk = initsleeplock, sleepers = {}, holders = {}\<rparr>"

definition sleep_inv :: "(nat \<Rightarrow> nat) \<Rightarrow> sleep_sys \<Rightarrow> bool" where
  "sleep_inv ns_pid s = ((slocked (slk s) \<longleftrightarrow> holders s \<noteq> {}) \<and> (\<forall>p\<in>holders s. holders s = {p} \<and> spid (slk s) = ns_pid p) \<and>
     (\<not> slocked (slk s) \<longrightarrow> sleepers s = {}))"

lemma sleep_step_inv: "sleep_step ns_pid s s' \<Longrightarrow> sleep_inv ns_pid s \<Longrightarrow> sleep_inv ns_pid s'"
  by (induction rule: sleep_step.induct)
    (auto simp: sleep_inv_def sleeplock_acquire_def sleeplock_release_def acquiresleep_def releasesleep_def split: if_splits)

text \<open>
  Claim C16. When only holders call \<open>releasesleep\<close>, in every state the processes can reach: a sleep lock has at most one
  holder, it is locked exactly when it has one, its \<open>pid\<close> field is the holder's \<open>ns_pid\<close>, and no process sleeps on it
  while it is free.
\<close>

theorem sleeplock_exclusive:
  assumes "(sleep_step ns_pid)\<^sup>*\<^sup>* sleep_start s"
  shows "(p \<in> holders s \<longrightarrow> holders s = {p} \<and> spid (slk s) = ns_pid p) \<and> (holdingsleep (slk s) \<longleftrightarrow> holders s \<noteq> {}) \<and>
    (holders s = {} \<longrightarrow> sleepers s = {})"
proof -
  have "sleep_inv ns_pid sleep_start" by (simp add: sleep_inv_def sleep_start_def initsleeplock_def)
  with assms have "sleep_inv ns_pid s" by (induction rule: rtranclp_induct) (blast intro: sleep_step_inv)+
  then show ?thesis by (auto simp: sleep_inv_def holdingsleep_def)
qed

theorem sleeplock_exclusive_witness:
  "\<exists>s s'. (sleep_step (\<lambda>_. 1))\<^sup>*\<^sup>* sleep_start s \<and> holders s = {7} \<and> spid (slk s) = 1 \<and> sleepers s = {8} \<and>
     sleep_step (\<lambda>_. 1) s s' \<and> holders s' = {} \<and> sleepers s' = {}"
proof -
  let ?s1 = "sleep_start\<lparr>slk := \<lparr>slocked = True, spid = 1\<rparr>, holders := {7}\<rparr>"
  let ?s2 = "?s1\<lparr>sleepers := {8}\<rparr>"
  let ?s3 = "(sleeplock_release ?s2)\<lparr>holders := holders ?s2 - {7}\<rparr>"
  note d = sleep_start_def sleeplock_acquire_def acquiresleep_def initsleeplock_def
  have "sleep_step (\<lambda>_. 1) sleep_start ?s1"
    using sleep_step.acquire [of 7 sleep_start "\<lambda>_. 1" True] by (simp add: d)
  moreover have "sleep_step (\<lambda>_. 1) ?s1 ?s2"
    using sleep_step.acquire [of 8 ?s1 "\<lambda>_. 1" False] by (simp add: d)
  ultimately have r: "(sleep_step (\<lambda>_. 1))\<^sup>*\<^sup>* sleep_start ?s2" by (meson rtranclp.rtrancl_into_rtrancl rtranclp.rtrancl_refl)
  have s: "sleep_step (\<lambda>_. 1) ?s2 ?s3" by (rule sleep_step.release) simp
  then have r3: "(sleep_step (\<lambda>_. 1))\<^sup>*\<^sup>* sleep_start ?s3" using r by (meson rtranclp.rtrancl_into_rtrancl)
  have "sleepers ?s3 = {}" using sleeplock_exclusive [OF r3, of 7] by simp
  moreover have "spid (slk ?s2) = 1" using sleeplock_exclusive [OF r, of 7] by simp
  ultimately show ?thesis using r s by (intro exI [of _ ?s2] exI [of _ ?s3]) simp
qed

text \<open>\<open>holdingsleep\<close> says whether anyone holds the lock, not whether the caller does.\<close>

lemma holdingsleep_any_holder: "acquiresleep p lk = Some lk' \<Longrightarrow> holdingsleep lk'"
  by (auto simp: acquiresleep_def holdingsleep_def split: if_splits)

section \<open>Call stacks\<close>

text \<open>\<open>getcallerpcs\<close> follows the chain of frame pointers for at most ten frames.\<close>

fun getcallerpcs_loop :: "mem \<Rightarrow> nat \<Rightarrow> nat \<Rightarrow> u32 list" where
  "getcallerpcs_loop m ebp 0 = []"
| "getcallerpcs_loop m ebp (Suc n) =
    (if ebp = 0 \<or> ebp < KERNBASE \<or> ebp = 0xffffffff then replicate (Suc n) 0
     else load32 m (ebp + 4) # getcallerpcs_loop m (unat (load32 m ebp)) n)"

definition getcallerpcs :: "mem \<Rightarrow> nat \<Rightarrow> u32 list" where
  "getcallerpcs m v = getcallerpcs_loop m (v - 8) 10"

lemma length_getcallerpcs: "length (getcallerpcs m v) = 10"
proof -
  have "length (getcallerpcs_loop m ebp n) = n" for ebp n
    by (induction n arbitrary: ebp) auto
  then show ?thesis by (simp add: getcallerpcs_def)
qed

end
