(* ===== verification/Buf_Cache.thy ===== *)
theory Buf_Cache
  imports Spinlock
begin

text \<open>
  The buffer cache of \<open>kernel/device/buf_cache.c\<close>, the IDE driver's request queue of
  \<open>kernel/device/ide.c\<close> and the block interface of \<open>kernel/device/bio.c\<close>.

  Buffers are named by their index in the cache's array. The doubly linked list that orders them
  is the list of indices from \<open>head.next\<close> to \<open>head.prev\<close>. Devices are numbered, zero being the
  null pointer. The disk is the contents of the blocks behind each device; a block is a list of
  \<open>BSIZE\<close> bytes.
\<close>

section \<open>State\<close>

definition NBUF :: nat where "NBUF = 200"
definition FSSIZE :: nat where "FSSIZE = 2400"
definition BSIZE :: nat where "BSIZE = 1024"
definition B_VALID :: u32 where "B_VALID = 2"
definition B_DIRTY :: u32 where "B_DIRTY = 4"
definition BUF_ALLOC_NO_CACHE :: u32 where "BUF_ALLOC_NO_CACHE = 1"

type_synonym block = "u8 list"

text \<open>
  The union \<open>buf_id\<close> has 24 bytes: a block number, or an object's name and a block number. An
  initialiser that names only the block number leaves the rest zero.
\<close>

type_synonym buf_id = "u8 list"

definition blockno_id :: "u32 \<Rightarrow> buf_id" where
  "blockno_id n = [ucast n, ucast (drop_bit 8 n), ucast (drop_bit 16 n), ucast (drop_bit 24 n)] @ replicate 20 0"

definition id_blockno :: "buf_id \<Rightarrow> u32" where
  "id_blockno x = load32 (\<lambda>a. x ! a) 0"

record buf =
  bflags :: u32
  alloc_flags :: u32
  bdev :: nat
  bid :: buf_id
  block :: sleeplock
  refcnt :: u32
  bcgroup :: nat
  bdata :: block

record bio =
  bufs :: "buf list"
  order :: "nat list"
  is_cache_enabled :: bool
  idequeue :: "nat list"
  havedisk1 :: bool
  disk :: "nat \<Rightarrow> nat \<Rightarrow> block"
  trail :: "(nat \<times> nat \<times> block) list"

text \<open>\<open>trail\<close> is not in the code: it lists the block writes the disk has performed, latest first.\<close>

definition upd_buf :: "nat \<Rightarrow> (buf \<Rightarrow> buf) \<Rightarrow> bio \<Rightarrow> bio" where
  "upd_buf i f s = s\<lparr>bufs := (bufs s)[i := f (bufs s ! i)]\<rparr>"

definition valid :: "buf \<Rightarrow> bool" where
  "valid b = (bflags b AND B_VALID \<noteq> 0)"

definition dirty :: "buf \<Rightarrow> bool" where
  "dirty b = (bflags b AND B_DIRTY \<noteq> 0)"

section \<open>The cache\<close>

definition init_buf :: "buf \<Rightarrow> buf" where
  "init_buf b = b\<lparr>bflags := 0, refcnt := 0, block := initsleeplock\<rparr>"

definition buf_cache_init :: "bio \<Rightarrow> bio" where
  "buf_cache_init s = s\<lparr>bufs := map init_buf (bufs s), order := fold (#) [0..<length (bufs s)] [],
     is_cache_enabled := True\<rparr>"

definition buf_cache_invalidate_blocks :: "nat \<Rightarrow> bio \<Rightarrow> bio" where
  "buf_cache_invalidate_blocks dev s =
    s\<lparr>bufs := map (\<lambda>b. if bdev b = dev then b\<lparr>bflags := bflags b AND NOT (B_VALID OR B_DIRTY)\<rparr> else b) (bufs s)\<rparr>"

text \<open>
  The part of \<open>buf_cache_get\<close> under the cache's lock: the buffer, whether it was recycled (a
  major page fault in the control group's statistics), and the new state.
\<close>

definition recycle :: "nat \<Rightarrow> buf_id \<Rightarrow> u32 \<Rightarrow> buf \<Rightarrow> buf" where
  "recycle dev x af b = b\<lparr>bdev := dev, bid := x, bflags := 0, alloc_flags := af, bcgroup := 0, refcnt := 1\<rparr>"

definition buf_cache_get :: "nat \<Rightarrow> buf_id \<Rightarrow> u32 \<Rightarrow> bio \<Rightarrow> (nat \<times> bool \<times> bio) outcome" where
  "buf_cache_get dev x af s =
    (case find (\<lambda>i. bdev (bufs s ! i) = dev \<and> bid (bufs s ! i) = x) (order s) of
       Some i \<Rightarrow> Ret (i, False, upd_buf i (\<lambda>b. b\<lparr>refcnt := refcnt b + 1\<rparr>) s)
     | None \<Rightarrow>
        (case find (\<lambda>i. refcnt (bufs s ! i) = 0 \<and> bflags (bufs s ! i) AND B_DIRTY = 0) (rev (order s)) of
           Some i \<Rightarrow> Ret (i, True, upd_buf i (recycle dev x af) s)
         | None \<Rightarrow> Panic ''buf_cache_get: no buffers''))"

text \<open>Then \<open>buf_cache_get\<close> takes the buffer's sleep lock: \<open>None\<close> while it has to wait.\<close>

definition buf_cache_lock :: "nat \<Rightarrow> nat \<Rightarrow> bio \<Rightarrow> bio option" where
  "buf_cache_lock pid i s =
    map_option (\<lambda>lk. upd_buf i (\<lambda>b. b\<lparr>block := lk\<rparr>) s) (acquiresleep pid (block (bufs s ! i)))"

text \<open>\<open>buf_cache_release\<close>: first the sleep lock, then the reference under the cache's lock.\<close>

definition buf_cache_unlock :: "nat \<Rightarrow> bio \<Rightarrow> bio outcome" where
  "buf_cache_unlock i s =
    (if \<not> holdingsleep (block (bufs s ! i)) then Panic ''buf_cache_release''
     else Ret (upd_buf i (\<lambda>b. b\<lparr>block := releasesleep (block b)\<rparr>) s))"

definition buf_cache_drop :: "nat \<Rightarrow> bio \<Rightarrow> bio" where
  "buf_cache_drop i s =
    (let s = upd_buf i (\<lambda>b. b\<lparr>refcnt := refcnt b - 1\<rparr>) s;
         b = bufs s ! i
     in if refcnt b = 0 then
          let s' = (if \<not> is_cache_enabled s \<and> bflags b AND B_DIRTY = 0
                    then upd_buf i (\<lambda>b. b\<lparr>bflags := bflags b AND NOT B_VALID\<rparr>) s else s);
              insert_first = (is_cache_enabled s \<and> alloc_flags b AND BUF_ALLOC_NO_CACHE = 0);
              rest = remove1 i (order s)
          in s'\<lparr>order := (if insert_first then i # rest else rest @ [i])\<rparr>
        else s)"

definition buf_cache_release :: "nat \<Rightarrow> bio \<Rightarrow> bio outcome" where
  "buf_cache_release i s = bindO (buf_cache_unlock i s) (\<lambda>s. Ret (buf_cache_drop i s))"

definition buf_cache_enable_cache :: "bio \<Rightarrow> bio" where
  "buf_cache_enable_cache s = s\<lparr>is_cache_enabled := True\<rparr>"

definition buf_cache_disable_cache :: "bio \<Rightarrow> bio" where
  "buf_cache_disable_cache s =
    (if is_cache_enabled s then
       s\<lparr>bufs := map (\<lambda>b. if refcnt b = 0 \<and> bflags b AND B_DIRTY = 0
                            then b\<lparr>bflags := bflags b AND NOT B_VALID\<rparr> else b) (bufs s),
         is_cache_enabled := False\<rparr>
     else s)"

definition buf_cache_is_cache_enabled :: "bio \<Rightarrow> bool" where
  "buf_cache_is_cache_enabled s = is_cache_enabled s"

section \<open>The IDE driver\<close>

text \<open>
  \<open>idestart\<close> programs the controller: a write hands it the buffer's data, a read only asks.
  \<open>ideintr\<close> is the interrupt that ends the request at the head of the queue: a read copies the
  data in. The controller itself is the \<open>disk\<close>.
\<close>

definition idestart :: "nat \<Rightarrow> bio \<Rightarrow> bio outcome" where
  "idestart i s =
    (let b = bufs s ! i; n = unat (id_blockno (bid b)) in
     if FSSIZE \<le> n then Panic ''incorrect blockno''
     else if bflags b AND B_DIRTY \<noteq> 0 then
       Ret (s\<lparr>disk := (disk s)(bdev b := (disk s (bdev b))(n := bdata b)), trail := (bdev b, n, bdata b) # trail s\<rparr>)
     else Ret s)"

definition ideintr :: "bio \<Rightarrow> bio outcome" where
  "ideintr s =
    (case idequeue s of
       [] \<Rightarrow> Ret s
     | i # q \<Rightarrow>
        let s = s\<lparr>idequeue := q\<rparr>;
            s = (if bflags (bufs s ! i) AND B_DIRTY = 0 then
                   upd_buf i (\<lambda>b. b\<lparr>bdata := disk s (bdev b) (unat (id_blockno (bid b)))\<rparr>) s else s);
            s = upd_buf i (\<lambda>b. b\<lparr>bflags := (bflags b OR B_VALID) AND NOT B_DIRTY\<rparr>) s
        in (case q of [] \<Rightarrow> Ret s | j # _ \<Rightarrow> idestart j s))"

text \<open>\<open>iderw\<close> up to its loop: the checks, the queue and the start of an idle controller.\<close>

definition iderw_submit :: "nat \<Rightarrow> bio \<Rightarrow> bio outcome" where
  "iderw_submit i s =
    (let b = bufs s ! i in
     if \<not> holdingsleep (block b) then Panic ''iderw: buf not locked''
     else if bflags b AND (B_VALID OR B_DIRTY) = B_VALID then Panic ''iderw: nothing to do''
     else if bdev b \<noteq> 0 \<and> \<not> havedisk1 s then Panic ''iderw: ide disk 1 not present''
     else
       let s = s\<lparr>idequeue := idequeue s @ [i]\<rparr> in
       if List.hd (idequeue s) = i then idestart i s else Ret s)"

text \<open>The loop sleeps until interrupts have served the request; one turn is one interrupt.\<close>

fun iderw_wait :: "nat \<Rightarrow> nat \<Rightarrow> bio \<Rightarrow> bio outcome" where
  "iderw_wait 0 i s = Panic ''no interrupt''"
| "iderw_wait (Suc fuel) i s =
    (if bflags (bufs s ! i) AND (B_VALID OR B_DIRTY) = B_VALID then Ret s
     else bindO (ideintr s) (iderw_wait fuel i))"

definition iderw :: "nat \<Rightarrow> bio \<Rightarrow> bio outcome" where
  "iderw i s = bindO (iderw_submit i s) (\<lambda>s. iderw_wait (length (idequeue s) + 1) i s)"

section \<open>Blocks\<close>

text \<open>
  \<open>devicerw\<close> serves a buffer of a loop device from the inode behind it. It calls the inode's
  \<open>readi\<close> and \<open>writei\<close> through pointers: the first is an argument, the call of the second is
  returned as the offset and the data.
\<close>

definition devicerw :: "(nat \<Rightarrow> nat \<Rightarrow> block) \<Rightarrow> buf \<Rightarrow> buf \<times> (nat \<times> block) option" where
  "devicerw readi b =
    (let n = unat (id_blockno (bid b));
         (b, wr) = (if bflags b AND B_DIRTY = 0 then (b\<lparr>bdata := readi (BSIZE * n) BSIZE\<rparr>, None)
                    else (b, Some (BSIZE * n, bdata b)))
     in (b\<lparr>bflags := (bflags b OR B_VALID) AND NOT B_DIRTY\<rparr>, wr))"

text \<open>
  \<open>bread\<close> for a device that is not a loop device: \<open>None\<close> while another process has the buffer.
\<close>

definition bread :: "nat \<Rightarrow> nat \<Rightarrow> u32 \<Rightarrow> bio \<Rightarrow> (nat \<times> bio) option outcome" where
  "bread pid dev blockno s =
    bindO (buf_cache_get dev (blockno_id blockno) 0 s) (\<lambda>(i, _, s).
      case buf_cache_lock pid i s of
        None \<Rightarrow> Ret None
      | Some s \<Rightarrow>
         if bflags (bufs s ! i) AND B_VALID = 0 then bindO (iderw i s) (\<lambda>s. Ret (Some (i, s)))
         else Ret (Some (i, s)))"

definition bwrite :: "nat \<Rightarrow> bio \<Rightarrow> bio outcome" where
  "bwrite i s =
    (if \<not> holdingsleep (block (bufs s ! i)) then Panic ''bwrite''
     else iderw i (upd_buf i (\<lambda>b. b\<lparr>bflags := bflags b OR B_DIRTY\<rparr>) s))"

section \<open>Flags and names\<close>

named_theorems buf_simps

lemma valid_bit: "valid b \<longleftrightarrow> bit (bflags b) 1"
proof -
  have "bflags b AND 2 = 0 \<longleftrightarrow> \<not> bit (bflags b) 1"
    by (metis and_exp_eq_0_iff_not_bit power_one_right)
  then show ?thesis by (simp add: valid_def B_VALID_def)
qed

lemma dirty_bit: "dirty b \<longleftrightarrow> bit (bflags b) 2"
proof -
  have "bflags b AND 2 ^ 2 = 0 \<longleftrightarrow> \<not> bit (bflags b) 2"
    by (simp only: and_exp_eq_0_iff_not_bit)
  then show ?thesis by (simp add: dirty_def B_DIRTY_def)
qed

lemma flag_and_zero [buf_simps]:
  "(bflags b AND B_VALID = 0) = (\<not> valid b)" "(bflags b AND B_DIRTY = 0) = (\<not> dirty b)"
  by (simp_all add: valid_def dirty_def)


lemma bit_B_VALID: "bit B_VALID n \<longleftrightarrow> n = 1"
  using bit_exp_iff [where 'a = u32, of 1 n] by (auto simp: possible_bit_def B_VALID_def)

lemma bit_B_DIRTY: "bit B_DIRTY n \<longleftrightarrow> n = 2"
  using bit_exp_iff [where 'a = u32, of 2 n] by (auto simp: possible_bit_def B_DIRTY_def)

lemmas flag_bits = valid_bit dirty_bit bit_B_VALID bit_B_DIRTY bit_or_iff bit_and_iff bit_not_iff possible_bit_def

lemma flags_done [buf_simps]: "(bflags b AND (B_VALID OR B_DIRTY) = B_VALID) = (valid b \<and> \<not> dirty b)"
proof
  assume "bflags b AND (B_VALID OR B_DIRTY) = B_VALID"
  then have "bit (bflags b AND (B_VALID OR B_DIRTY)) n = bit B_VALID n" for n by simp
  from this [of 1] this [of 2] show "valid b \<and> \<not> dirty b" by (auto simp: flag_bits)
next
  assume "valid b \<and> \<not> dirty b"
  then show "bflags b AND (B_VALID OR B_DIRTY) = B_VALID" by (intro bit_word_eqI) (auto simp: flag_bits)
qed

lemma valid_flags [buf_simps]:
  "valid (b\<lparr>bflags := (f OR B_VALID) AND NOT B_DIRTY\<rparr>)" "valid (b\<lparr>bflags := bflags b OR B_DIRTY\<rparr>) = valid b"
  "\<not> valid (b\<lparr>bflags := f AND NOT (B_VALID OR B_DIRTY)\<rparr>)" "\<not> valid (b\<lparr>bflags := f AND NOT B_VALID\<rparr>)"
  "\<not> valid (b\<lparr>bflags := 0\<rparr>)"
  by (auto simp: flag_bits)

lemma dirty_flags [buf_simps]:
  "\<not> dirty (b\<lparr>bflags := (f OR B_VALID) AND NOT B_DIRTY\<rparr>)" "dirty (b\<lparr>bflags := f OR B_DIRTY\<rparr>)"
  "\<not> dirty (b\<lparr>bflags := f AND NOT (B_VALID OR B_DIRTY)\<rparr>)" "dirty (b\<lparr>bflags := bflags b AND NOT B_VALID\<rparr>) = dirty b"
  "\<not> dirty (b\<lparr>bflags := 0\<rparr>)"
  by (auto simp: flag_bits)

lemma valid_dirty_other [buf_simps]:
  "valid (b\<lparr>refcnt := r\<rparr>) = valid b" "dirty (b\<lparr>refcnt := r\<rparr>) = dirty b"
  "valid (b\<lparr>block := lk\<rparr>) = valid b" "dirty (b\<lparr>block := lk\<rparr>) = dirty b"
  "valid (b\<lparr>bdata := d\<rparr>) = valid b" "dirty (b\<lparr>bdata := d\<rparr>) = dirty b"
  "valid (b\<lparr>bcgroup := c\<rparr>) = valid b" "dirty (b\<lparr>bcgroup := c\<rparr>) = dirty b"
  "\<not> valid (recycle dev x af b)" "\<not> dirty (recycle dev x af b)"
  by (simp_all add: valid_def dirty_def recycle_def)

lemma id_blockno_id [simp]: "id_blockno (blockno_id n) = n"
proof -
  have "id_blockno (blockno_id n) = load32 (store32 (\<lambda>_. 0) 0 n) 0"
    unfolding id_blockno_def by (rule load32_cong) (auto simp: blockno_id_def store32_def less_Suc_eq numeral_eq_Suc)
  then show ?thesis by simp
qed

lemma blockno_id_inj [simp]: "blockno_id m = blockno_id n \<longleftrightarrow> m = n"
  by (metis id_blockno_id)

lemma bufs_upd_buf [simp]:
  "length (bufs (upd_buf i f s)) = length (bufs s)"
  "j < length (bufs s) \<Longrightarrow> bufs (upd_buf i f s) ! j = (if j = i then f (bufs s ! i) else bufs s ! j)"
  by (auto simp: upd_buf_def nth_list_update)

lemma upd_buf_other [simp]:
  "order (upd_buf i f s) = order s" "is_cache_enabled (upd_buf i f s) = is_cache_enabled s"
  "idequeue (upd_buf i f s) = idequeue s" "havedisk1 (upd_buf i f s) = havedisk1 s"
  "disk (upd_buf i f s) = disk s" "trail (upd_buf i f s) = trail s"
  by (simp_all add: upd_buf_def)

section \<open>One buffer per block\<close>

text \<open>
  Any number of processes use the cache. \<open>refs\<close> lists, for every process between
  \<open>buf_cache_get\<close> and the end of \<open>buf_cache_release\<close>, the buffer it was given and the block it
  asked for. A process may change the flags and data of a buffer it has.
\<close>

type_synonym refs = "(nat \<times> nat \<times> buf_id) list"

inductive cache_step :: "bio \<times> refs \<Rightarrow> bio \<times> refs \<Rightarrow> bool" where
  get: "dev \<noteq> 0 \<Longrightarrow> length rs < 2 ^ 32 - 1 \<Longrightarrow> buf_cache_get dev x af s = Ret (i, m, s') \<Longrightarrow>
    cache_step (s, rs) (s', (i, dev, x) # rs)"
| lock: "(i, dev, x) \<in> set rs \<Longrightarrow> buf_cache_lock pid i s = Some s' \<Longrightarrow> cache_step (s, rs) (s', rs)"
| change: "(i, dev, x) \<in> set rs \<Longrightarrow>
    cache_step (s, rs) (upd_buf i (\<lambda>b. b\<lparr>bflags := f, bdata := d, bcgroup := c\<rparr>) s, rs)"
| unlock: "(i, dev, x) \<in> set rs \<Longrightarrow> buf_cache_unlock i s = Ret s' \<Longrightarrow> cache_step (s, rs) (s', rs)"
| drop: "(i, dev, x) \<in> set rs \<Longrightarrow> cache_step (s, rs) (buf_cache_drop i s, remove1 (i, dev, x) rs)"
| invalidate: "cache_step (s, rs) (buf_cache_invalidate_blocks dev s, rs)"
| enable: "cache_step (s, rs) (buf_cache_enable_cache s, rs)"
| disable: "cache_step (s, rs) (buf_cache_disable_cache s, rs)"

text \<open>At boot the buffers are zero.\<close>

definition boot_buf :: buf where
  "boot_buf = \<lparr>bflags = 0, alloc_flags = 0, bdev = 0, bid = blockno_id 0, block = initsleeplock, refcnt = 0,
     bcgroup = 0, bdata = replicate BSIZE 0\<rparr>"

definition boot_bio :: "(nat \<Rightarrow> nat \<Rightarrow> block) \<Rightarrow> bio" where
  "boot_bio d = buf_cache_init \<lparr>bufs = replicate NBUF boot_buf, order = [], is_cache_enabled = False, idequeue = [],
     havedisk1 = True, disk = d, trail = []\<rparr>"

definition users :: "refs \<Rightarrow> nat \<Rightarrow> nat" where
  "users rs i = length (filter (\<lambda>r. fst r = i) rs)"

definition list_ok :: "bio \<Rightarrow> bool" where
  "list_ok s = (length (bufs s) = NBUF \<and> mset (order s) = mset [0..<NBUF])"

definition unique_ids :: "bio \<Rightarrow> bool" where
  "unique_ids s = (\<forall>i<NBUF. \<forall>j<NBUF. bdev (bufs s ! i) \<noteq> 0 \<longrightarrow> bdev (bufs s ! i) = bdev (bufs s ! j) \<longrightarrow>
     bid (bufs s ! i) = bid (bufs s ! j) \<longrightarrow> i = j)"

definition refs_ok :: "bio \<Rightarrow> refs \<Rightarrow> bool" where
  "refs_ok s rs = (length rs < 2 ^ 32 \<and> (\<forall>i<NBUF. refcnt (bufs s ! i) = of_nat (users rs i)) \<and>
     (\<forall>(i, dev, x)\<in>set rs. i < NBUF \<and> dev \<noteq> 0 \<and> bdev (bufs s ! i) = dev \<and> bid (bufs s ! i) = x))"

definition cache_inv :: "bio \<times> refs \<Rightarrow> bool" where
  "cache_inv = (\<lambda>(s, rs). list_ok s \<and> unique_ids s \<and> refs_ok s rs)"

lemma set_order: "list_ok s \<Longrightarrow> set (order s) = {..<NBUF}"
  by (metis list_ok_def atLeast0LessThan atLeast_upt set_mset_mset)

lemma users_zero: "users rs i = 0 \<Longrightarrow> (i, dev, x) \<notin> set rs"
  by (force simp: users_def filter_empty_conv)

lemma users_le: "users rs i \<le> length rs"
  by (simp add: users_def)

lemma users_remove1: "r \<in> set rs \<Longrightarrow> users (remove1 r rs) i = users rs i - (if fst r = i then 1 else 0)"
  by (auto simp: users_def filter_remove1 length_remove1)

lemma users_pos: "(i, dev, x) \<in> set rs \<Longrightarrow> 0 < users rs i"
  using users_zero by blast

lemma cache_inv_frame:
  assumes "cache_inv (s, rs)" "length (bufs s') = length (bufs s)" "mset (order s') = mset (order s)"
    "\<And>i. i < NBUF \<Longrightarrow> bdev (bufs s' ! i) = bdev (bufs s ! i) \<and> bid (bufs s' ! i) = bid (bufs s ! i) \<and>
       refcnt (bufs s' ! i) = refcnt (bufs s ! i)"
  shows "cache_inv (s', rs)"
  using assms by (auto simp: cache_inv_def list_ok_def unique_ids_def refs_ok_def)

lemma find_SomeD: "find P xs = Some x \<Longrightarrow> x \<in> set xs \<and> P x"
  by (induction xs) (auto split: if_splits)

lemma find_order:
  assumes "list_ok s"
  shows "find P (order s) = Some i \<Longrightarrow> i < NBUF \<and> P i" "find P (rev (order s)) = Some i \<Longrightarrow> i < NBUF \<and> P i"
    "find P (order s) = None \<longleftrightarrow> (\<forall>i<NBUF. \<not> P i)" "find P (rev (order s)) = None \<longleftrightarrow> (\<forall>i<NBUF. \<not> P i)"
  using set_order [OF assms] find_SomeD [of P "order s" i] find_SomeD [of P "rev (order s)" i]
  by (simp_all add: find_None_iff)

lemma unique_ids_frame:
  assumes "unique_ids s" "\<And>i. i < NBUF \<Longrightarrow> bdev (bufs s' ! i) = bdev (bufs s ! i) \<and> bid (bufs s' ! i) = bid (bufs s ! i)"
  shows "unique_ids s'"
  unfolding unique_ids_def
proof (intro allI impI)
  fix i j
  assume "i < NBUF" "j < NBUF" "bdev (bufs s' ! i) \<noteq> 0" "bdev (bufs s' ! i) = bdev (bufs s' ! j)"
    "bid (bufs s' ! i) = bid (bufs s' ! j)"
  then show "i = j" using assms(1) [unfolded unique_ids_def, rule_format, of i j] assms(2) by simp
qed

lemma unique_ids_recycle:
  assumes "unique_ids s" "list_ok s" "i < NBUF" "\<forall>j<NBUF. \<not> (bdev (bufs s ! j) = dev \<and> bid (bufs s ! j) = x)"
  shows "unique_ids (upd_buf i (recycle dev x af) s)"
  unfolding unique_ids_def
proof (intro allI impI)
  fix j k
  assume "j < NBUF" "k < NBUF" "bdev (bufs (upd_buf i (recycle dev x af) s) ! j) \<noteq> 0"
    "bdev (bufs (upd_buf i (recycle dev x af) s) ! j) = bdev (bufs (upd_buf i (recycle dev x af) s) ! k)"
    "bid (bufs (upd_buf i (recycle dev x af) s) ! j) = bid (bufs (upd_buf i (recycle dev x af) s) ! k)"
  then show "j = k" using assms(3,4) assms(1) [unfolded unique_ids_def, rule_format, of j k] assms(2)
    by (cases "j = i"; cases "k = i") (auto simp: list_ok_def recycle_def)
qed

lemma get_hit_inv:
  assumes "cache_inv (s, rs)" "i < NBUF" "bdev (bufs s ! i) = dev" "bid (bufs s ! i) = x" "dev \<noteq> 0"
    "length rs < 2 ^ 32 - 1"
  shows "cache_inv (upd_buf i (\<lambda>b. b\<lparr>refcnt := refcnt b + 1\<rparr>) s, (i, dev, x) # rs)"
proof -
  have len: "length (bufs s) = NBUF" using assms(1) by (simp add: cache_inv_def list_ok_def)
  have "unique_ids (upd_buf i (\<lambda>b. b\<lparr>refcnt := refcnt b + 1\<rparr>) s)"
    by (rule unique_ids_frame [of s]) (use assms(1) len in \<open>auto simp: cache_inv_def\<close>)
  moreover have "refs_ok (upd_buf i (\<lambda>b. b\<lparr>refcnt := refcnt b + 1\<rparr>) s) ((i, dev, x) # rs)"
    using assms by (auto simp: cache_inv_def refs_ok_def users_def len)
  ultimately show ?thesis using assms(1) by (simp add: cache_inv_def list_ok_def)
qed

lemma get_miss_inv:
  assumes "cache_inv (s, rs)" "i < NBUF" "refcnt (bufs s ! i) = 0" "dev \<noteq> 0" "length rs < 2 ^ 32 - 1"
    "\<forall>j<NBUF. \<not> (bdev (bufs s ! j) = dev \<and> bid (bufs s ! j) = x)"
  shows "cache_inv (upd_buf i (recycle dev x af) s, (i, dev, x) # rs)"
proof -
  have len: "length (bufs s) = NBUF" using assms(1) by (simp add: cache_inv_def list_ok_def)
  have "users rs i < 2 ^ 32" using users_le [of rs i] assms(5) by linarith
  moreover have "of_nat (users rs i) = (0 :: u32)" using assms(1-3) by (simp add: cache_inv_def refs_ok_def)
  ultimately have u: "users rs i = 0" by (simp add: word_of_nat_eq_0_iff) (meson linorder_not_le nat_dvd_not_less neq0_conv)
  then have "refs_ok (upd_buf i (recycle dev x af) s) ((i, dev, x) # rs)"
    using assms users_zero [OF u] by (fastforce simp: cache_inv_def refs_ok_def users_def recycle_def len)
  then show ?thesis using assms unique_ids_recycle by (simp add: cache_inv_def list_ok_def)
qed

lemma buf_cache_get_inv:
  assumes inv: "cache_inv (s, rs)" and g: "buf_cache_get dev x af s = Ret (i, m, s')"
    and "dev \<noteq> 0" "length rs < 2 ^ 32 - 1"
  shows "cache_inv (s', (i, dev, x) # rs)"
proof -
  have lo: "list_ok s" using inv by (simp add: cache_inv_def)
  show ?thesis
  proof (cases "find (\<lambda>i. bdev (bufs s ! i) = dev \<and> bid (bufs s ! i) = x) (order s)")
    case (Some j)
    from g Some have "j = i" "s' = upd_buf i (\<lambda>b. b\<lparr>refcnt := refcnt b + 1\<rparr>) s"
      by (auto simp: buf_cache_get_def)
    then show ?thesis using get_hit_inv [OF inv _ _ _ assms(3,4)] find_order(1) [OF lo Some] by blast
  next
    case None
    from g None have "find (\<lambda>i. refcnt (bufs s ! i) = 0 \<and> bflags (bufs s ! i) AND B_DIRTY = 0) (rev (order s)) = Some i"
      and eq: "s' = upd_buf i (recycle dev x af) s"
      by (auto simp: buf_cache_get_def split: option.splits)
    from find_order(2) [OF lo this(1)] None show ?thesis
      unfolding eq find_order(3) [OF lo] by (blast intro: get_miss_inv [OF inv _ _ assms(3,4)])
  qed
qed

lemma mset_remove1_order: "list_ok s \<Longrightarrow> i < NBUF \<Longrightarrow> add_mset i (mset (remove1 i (order s))) = mset (order s)"
  using set_order by (fastforce simp: )

lemma buf_cache_drop_inv:
  assumes inv: "cache_inv (s, rs)" and r: "(i, dev, x) \<in> set rs"
  shows "cache_inv (buf_cache_drop i s, remove1 (i, dev, x) rs)"
proof -
  let ?t = "upd_buf i (\<lambda>b. b\<lparr>refcnt := refcnt b - 1\<rparr>) s"
  have i: "i < NBUF" and lo: "list_ok s" using inv r by (auto simp: cache_inv_def refs_ok_def)
  have "0 < users rs i" using r by (rule users_pos)
  then have "\<forall>j<NBUF. refcnt (bufs ?t ! j) = of_nat (users (remove1 (i, dev, x) rs) j)" using inv r i
    by (simp add: cache_inv_def list_ok_def refs_ok_def users_remove1 of_nat_diff Suc_le_eq)
  moreover have "j < NBUF \<and> d \<noteq> 0 \<and> bdev (bufs ?t ! j) = d \<and> bid (bufs ?t ! j) = y"
    if "(j, d, y) \<in> set (remove1 (i, dev, x) rs)" for j d y
  proof -
    have "(j, d, y) \<in> set rs" using that by (meson notin_set_remove1)
    then show ?thesis using inv lo by (auto simp: cache_inv_def list_ok_def refs_ok_def)
  qed
  ultimately have "refs_ok ?t (remove1 (i, dev, x) rs)" using inv r
    by (auto simp: refs_ok_def cache_inv_def length_remove1)
  moreover have "unique_ids ?t"
    by (rule unique_ids_frame [of s]) (use inv in \<open>auto simp: cache_inv_def list_ok_def\<close>)
  ultimately have "cache_inv (?t, remove1 (i, dev, x) rs)" using inv by (simp add: cache_inv_def list_ok_def)
  moreover have "length (bufs (buf_cache_drop i s)) = length (bufs ?t)"
    by (simp add: buf_cache_drop_def Let_def)
  moreover have "mset (order (buf_cache_drop i s)) = mset (order ?t)"
    using mset_remove1_order [OF lo i] by (simp add: buf_cache_drop_def Let_def)
  ultimately show ?thesis using lo i
    by (elim cache_inv_frame) (auto simp: buf_cache_drop_def Let_def list_ok_def)
qed

lemma cache_step_inv:
  assumes "cache_step c c'" "cache_inv c"
  shows "cache_inv c'"
  using assms
proof (induction rule: cache_step.induct)
  case (get dev rs x af s i m s')
  then show ?case by (blast intro: buf_cache_get_inv)
next
  case (lock i dev x rs pid s s')
  from this(3) show ?case
    by (rule cache_inv_frame) (use lock(2,3) in \<open>auto simp: buf_cache_lock_def cache_inv_def list_ok_def\<close>)
next
  case (change i dev x rs s f d c)
  from this(2) show ?case
    by (rule cache_inv_frame) (use change(2) in \<open>auto simp: cache_inv_def list_ok_def\<close>)
next
  case (unlock i dev x rs s s')
  from this(3) show ?case
    by (rule cache_inv_frame)
      (use unlock(2,3) in \<open>auto simp: buf_cache_unlock_def cache_inv_def list_ok_def split: if_splits\<close>)
next
  case (drop i dev x rs s)
  then show ?case by (blast intro: buf_cache_drop_inv)
next
  case (invalidate s rs dev)
  then show ?case
    by (rule cache_inv_frame) (use invalidate in \<open>auto simp: buf_cache_invalidate_blocks_def cache_inv_def list_ok_def\<close>)
next
  case (enable s rs)
  then show ?case by (rule cache_inv_frame) (auto simp: buf_cache_enable_cache_def)
next
  case (disable s rs)
  then show ?case
    by (rule cache_inv_frame) (use disable in \<open>auto simp: buf_cache_disable_cache_def cache_inv_def list_ok_def\<close>)
qed

lemma fold_Cons: "fold (#) xs ys = rev xs @ ys"
  by (induction xs arbitrary: ys) auto

lemma boot_cache_inv: "cache_inv (boot_bio d, [])"
  by (auto simp: boot_bio_def buf_cache_init_def cache_inv_def list_ok_def unique_ids_def refs_ok_def users_def
      fold_Cons boot_buf_def init_buf_def)

text \<open>
  Claim C17. Every block has one buffer: however processes interleave on the cache, two processes
  that asked for the same block of the same device have the same buffer, and a buffer is not
  given to another block while some process still has it.
\<close>

theorem buf_cache_one_copy:
  assumes "cache_step\<^sup>*\<^sup>* (boot_bio d, []) (s, rs)" "(i, dev, x) \<in> set rs" "(j, dev, x) \<in> set rs"
  shows "i = j \<and> bdev (bufs s ! i) = dev \<and> bid (bufs s ! i) = x"
proof -
  from assms(1) have "cache_inv (s, rs)"
    by (induction rule: rtranclp_induct) (auto intro: cache_step_inv boot_cache_inv)
  then have u: "unique_ids s" and r: "refs_ok s rs" by (simp_all add: cache_inv_def)
  have "i < NBUF" "dev \<noteq> 0" "bdev (bufs s ! i) = dev" "bid (bufs s ! i) = x"
    "j < NBUF" "bdev (bufs s ! j) = dev" "bid (bufs s ! j) = x"
    using r assms(2,3) by (auto simp: refs_ok_def)
  then show ?thesis using u [unfolded unique_ids_def, rule_format, of i j] by simp
qed

section \<open>The idle driver\<close>

lemma upd_buf_same: "upd_buf i f (upd_buf i g s) = upd_buf i (\<lambda>b. f (g b)) s" if "i < length (bufs s)"
  using that by (simp add: upd_buf_def)

lemma flags_finished [buf_simps]: "((f OR B_VALID) AND NOT B_DIRTY) AND (B_VALID OR B_DIRTY) = B_VALID"
  by (intro bit_word_eqI) (auto simp: flag_bits)

lemma iderw_read:
  assumes "i < length (bufs s)" "idequeue s = []" "havedisk1 s" "slocked (block (bufs s ! i))" "\<not> valid (bufs s ! i)"
    "\<not> dirty (bufs s ! i)" "unat (id_blockno (bid (bufs s ! i))) < FSSIZE"
  shows "iderw i s = Ret (upd_buf i (\<lambda>b. b\<lparr>bdata := disk s (bdev b) (unat (id_blockno (bid b))),
    bflags := (bflags b OR B_VALID) AND NOT B_DIRTY\<rparr>) s)"
proof -
  have sub: "iderw_submit i s = Ret (s\<lparr>idequeue := [i]\<rparr>)" using assms
    by (simp add: iderw_submit_def holdingsleep_def idestart_def Let_def buf_simps)
  have "ideintr (s\<lparr>idequeue := [i]\<rparr>) = Ret (upd_buf i (\<lambda>b. b\<lparr>bdata := disk s (bdev b) (unat (id_blockno (bid b))),
    bflags := (bflags b OR B_VALID) AND NOT B_DIRTY\<rparr>) s)"
    using assms by (simp add: ideintr_def Let_def buf_simps upd_buf_def)
  then show ?thesis using assms by (simp add: iderw_def sub buf_simps)
qed

lemma iderw_write:
  assumes "i < length (bufs s)" "idequeue s = []" "havedisk1 s" "slocked (block (bufs s ! i))"
    "dirty (bufs s ! i)" "n = unat (id_blockno (bid (bufs s ! i)))" "n < FSSIZE" "d = bdev (bufs s ! i)"
  shows "iderw i s = Ret (upd_buf i (\<lambda>b. b\<lparr>bflags := (bflags b OR B_VALID) AND NOT B_DIRTY\<rparr>)
    (s\<lparr>disk := (disk s)(d := (disk s d)(n := bdata (bufs s ! i))), trail := (d, n, bdata (bufs s ! i)) # trail s\<rparr>))"
proof -
  let ?t = "s\<lparr>disk := (disk s)(d := (disk s d)(n := bdata (bufs s ! i))), trail := (d, n, bdata (bufs s ! i)) # trail s\<rparr>"
  have sub: "iderw_submit i s = Ret (?t\<lparr>idequeue := [i]\<rparr>)" using assms
    by (simp add: iderw_submit_def holdingsleep_def idestart_def Let_def buf_simps)
  have "ideintr (?t\<lparr>idequeue := [i]\<rparr>) = Ret (upd_buf i (\<lambda>b. b\<lparr>bflags := (bflags b OR B_VALID) AND NOT B_DIRTY\<rparr>) ?t)"
    using assms by (simp add: ideintr_def Let_def buf_simps upd_buf_def)
  then show ?thesis using assms by (simp add: iderw_def sub buf_simps)
qed

section \<open>Blocks as one process sees them\<close>

text \<open>
  \<open>bio_inv dev s H\<close>: no request is pending and exactly the buffers \<open>H\<close> are in use; a clean valid
  buffer that is not in use has the contents of its disk block. \<open>view dev s n\<close> is the contents of
  a block as \<open>bread\<close> gives it: the valid buffer's, else the disk's.
\<close>

definition at_block :: "nat \<Rightarrow> u32 \<Rightarrow> buf \<Rightarrow> bool" where
  "at_block dev n b = (bdev b = dev \<and> bid b = blockno_id n)"

definition dirty_bufs :: "bio \<Rightarrow> nat set" where
  "dirty_bufs s = {i. i < NBUF \<and> dirty (bufs s ! i)}"

definition buf_ok :: "nat \<Rightarrow> bio \<Rightarrow> nat set \<Rightarrow> nat \<Rightarrow> bool" where
  "buf_ok dev s H i = (slocked (block (bufs s ! i)) = (i \<in> H) \<and> refcnt (bufs s ! i) = (if i \<in> H then 1 else 0) \<and>
     (dirty (bufs s ! i) \<longrightarrow> valid (bufs s ! i)) \<and>
     (\<forall>n. at_block dev n (bufs s ! i) \<longrightarrow> valid (bufs s ! i) \<longrightarrow> \<not> dirty (bufs s ! i) \<longrightarrow> i \<notin> H \<longrightarrow>
        bdata (bufs s ! i) = disk s dev (unat n)))"

definition bio_inv :: "nat \<Rightarrow> bio \<Rightarrow> nat set \<Rightarrow> bool" where
  "bio_inv dev s H = (list_ok s \<and> unique_ids s \<and> idequeue s = [] \<and> havedisk1 s \<and> dev \<noteq> 0 \<and> H \<subseteq> {..<NBUF} \<and>
     (\<forall>i<NBUF. buf_ok dev s H i))"

definition view :: "nat \<Rightarrow> bio \<Rightarrow> u32 \<Rightarrow> block" where
  "view dev s n =
    (case find (\<lambda>i. at_block dev n (bufs s ! i) \<and> valid (bufs s ! i)) [0..<NBUF] of
       Some i \<Rightarrow> bdata (bufs s ! i)
     | None \<Rightarrow> disk s dev (unat n))"

lemma at_block_unique:
  assumes "unique_ids s" "dev \<noteq> 0" "i < NBUF" "j < NBUF" "at_block dev n (bufs s ! i)" "at_block dev n (bufs s ! j)"
  shows "i = j"
  using assms(1) [unfolded unique_ids_def, rule_format, of i j] assms(2-) by (simp add: at_block_def)

lemma at_block_same: "at_block dev m b \<Longrightarrow> at_block dev n b \<Longrightarrow> m = n"
  by (auto simp: at_block_def)

lemma view_cached:
  assumes "unique_ids s" "dev \<noteq> 0" "i < NBUF" "at_block dev n (bufs s ! i)" "valid (bufs s ! i)"
  shows "view dev s n = bdata (bufs s ! i)"
proof -
  have "find (\<lambda>i. at_block dev n (bufs s ! i) \<and> valid (bufs s ! i)) [0..<NBUF] \<noteq> None"
    using assms by (auto simp: find_None_iff)
  then obtain j where j: "find (\<lambda>i. at_block dev n (bufs s ! i) \<and> valid (bufs s ! i)) [0..<NBUF] = Some j" by blast
  with find_SomeD [OF j] have "j = i" using assms at_block_unique [of s dev j i n] by auto
  then show ?thesis using j by (simp add: view_def)
qed

lemma view_uncached:
  assumes "\<And>i. i < NBUF \<Longrightarrow> at_block dev n (bufs s ! i) \<Longrightarrow> \<not> valid (bufs s ! i)"
  shows "view dev s n = disk s dev (unat n)"
proof -
  have "find (\<lambda>i. at_block dev n (bufs s ! i) \<and> valid (bufs s ! i)) [0..<NBUF] = None"
    using assms by (auto simp: find_None_iff)
  then show ?thesis by (simp add: view_def)
qed

text \<open>A change to one buffer leaves the view of the blocks that buffer does not hold.\<close>

lemma view_upd:
  assumes "unique_ids s" "unique_ids s'" "dev \<noteq> 0"
    "\<And>j. j < NBUF \<Longrightarrow> j \<noteq> i \<Longrightarrow> bufs s' ! j = bufs s ! j" "disk s' dev (unat n) = disk s dev (unat n)"
    "\<not> at_block dev n (bufs s ! i) \<or> \<not> valid (bufs s ! i)" "\<not> at_block dev n (bufs s' ! i) \<or> \<not> valid (bufs s' ! i)"
  shows "view dev s' n = view dev s n"
proof (cases "\<exists>j<NBUF. at_block dev n (bufs s ! j) \<and> valid (bufs s ! j)")
  case True
  then obtain j where j: "j < NBUF" "at_block dev n (bufs s ! j)" "valid (bufs s ! j)" by blast
  with assms(6) have "j \<noteq> i" by blast
  with j assms show ?thesis by (simp add: view_cached [of s dev j] view_cached [of s' dev j])
next
  case False
  then have "\<not> valid (bufs s' ! j)" if "j < NBUF" "at_block dev n (bufs s' ! j)" for j
    using that assms(4) [of j] assms(7) by (cases "j = i") auto
  then show ?thesis using False view_uncached [of dev n s] view_uncached [of dev n s'] assms(5) by auto
qed


lemma bio_inv_buf: "bio_inv dev s H \<Longrightarrow> i < NBUF \<Longrightarrow> buf_ok dev s H i"
  by (simp add: bio_inv_def)

lemma bio_inv_len: "bio_inv dev s H \<Longrightarrow> length (bufs s) = NBUF"
  by (simp add: bio_inv_def list_ok_def)

lemma bio_inv_unique: "bio_inv dev s H \<Longrightarrow> unique_ids s \<and> list_ok s \<and> dev \<noteq> 0"
  by (simp add: bio_inv_def)

lemma view_disk:
  assumes inv: "bio_inv dev s H"
    and "\<And>j. j < NBUF \<Longrightarrow> at_block dev n (bufs s ! j) \<Longrightarrow> valid (bufs s ! j) \<Longrightarrow> \<not> dirty (bufs s ! j) \<and> j \<notin> H"
  shows "view dev s n = disk s dev (unat n)"
proof (cases "\<exists>j<NBUF. at_block dev n (bufs s ! j) \<and> valid (bufs s ! j)")
  case True
  then obtain j where j: "j < NBUF" "at_block dev n (bufs s ! j)" "valid (bufs s ! j)" by blast
  then have "view dev s n = bdata (bufs s ! j)" using bio_inv_unique [OF inv] by (blast intro: view_cached)
  then show ?thesis using bio_inv_buf [OF inv j(1)] assms(2) j by (simp add: buf_ok_def)
next
  case False
  then show ?thesis by (intro view_uncached) blast
qed

lemma unique_ids_set:
  assumes "unique_ids s" "list_ok s" "i < NBUF" "at_block dev n b"
    "at_block dev n (bufs s ! i) \<or> (\<forall>j<NBUF. \<not> at_block dev n (bufs s ! j))"
  shows "unique_ids (upd_buf i (\<lambda>_. b) s)"
proof (cases "at_block dev n (bufs s ! i)")
  case True
  show ?thesis by (rule unique_ids_frame [OF assms(1)]) (use True assms in \<open>auto simp: at_block_def list_ok_def\<close>)
next
  case False
  with assms have "unique_ids (upd_buf i (recycle dev (blockno_id n) 0) s)"
    by (intro unique_ids_recycle) (auto simp: at_block_def)
  then show ?thesis
    by (rule unique_ids_frame) (use assms in \<open>auto simp: at_block_def list_ok_def recycle_def\<close>)
qed

lemma free_buf_exists:
  assumes "bio_inv dev s H" "card (H \<union> dirty_bufs s) < NBUF"
  shows "\<exists>i<NBUF. i \<notin> H \<and> \<not> dirty (bufs s ! i)"
proof (rule ccontr)
  assume "\<not> ?thesis"
  then have "{..<NBUF} \<subseteq> H \<union> dirty_bufs s" by (auto simp: dirty_bufs_def)
  moreover have "finite (H \<union> dirty_bufs s)" using assms(1) finite_subset [of H "{..<NBUF}"]
    by (simp add: bio_inv_def dirty_bufs_def)
  ultimately have "card {..<NBUF} \<le> card (H \<union> dirty_bufs s)" by (intro card_mono)
  then show False using assms(2) by simp
qed

text \<open>What \<open>bread\<close> returns, and that it only changes the buffer it returns.\<close>

lemma get_cases:
  assumes inv: "bio_inv dev s H" and nh: "\<And>i. i \<in> H \<Longrightarrow> \<not> at_block dev n (bufs s ! i)"
    and free: "card (H \<union> dirty_bufs s) < NBUF"
  shows "\<exists>i m b. buf_cache_get dev (blockno_id n) 0 s = Ret (i, m, upd_buf i (\<lambda>_. b) s) \<and> i < NBUF \<and> i \<notin> H \<and>
    block b = block (bufs s ! i) \<and> refcnt b = 1 \<and> at_block dev n b \<and> (dirty b \<longleftrightarrow> dirty (bufs s ! i)) \<and>
    (at_block dev n (bufs s ! i) \<and> valid b = valid (bufs s ! i) \<and> bdata b = bdata (bufs s ! i) \<and> bcgroup b = bcgroup (bufs s ! i)
     \<or> \<not> dirty (bufs s ! i) \<and> \<not> valid b \<and> (\<forall>j<NBUF. \<not> at_block dev n (bufs s ! j)))"
proof -
  have lo: "list_ok s" and u: "unique_ids s" using bio_inv_unique [OF inv] by auto
  have ref: "refcnt (bufs s ! i) = (if i \<in> H then 1 else 0)" if "i < NBUF" for i
    using bio_inv_buf [OF inv that] by (simp add: buf_ok_def)
  show ?thesis
  proof (cases "find (\<lambda>i. bdev (bufs s ! i) = dev \<and> bid (bufs s ! i) = blockno_id n) (order s)")
    case (Some i)
    from find_order(1) [OF lo Some] have i: "i < NBUF" "at_block dev n (bufs s ! i)" by (auto simp: at_block_def)
    then have "i \<notin> H" using nh by blast
    then show ?thesis using Some i ref [OF i(1)]
      by (intro exI [of _ i] exI [of _ False] exI [of _ "(bufs s ! i)\<lparr>refcnt := refcnt (bufs s ! i) + 1\<rparr>"])
        (simp add: buf_cache_get_def buf_simps upd_buf_def, simp add: at_block_def)
  next
    case None
    obtain i where "find (\<lambda>i. refcnt (bufs s ! i) = 0 \<and> bflags (bufs s ! i) AND B_DIRTY = 0) (rev (order s)) = Some i"
      using free_buf_exists [OF inv free] ref find_order(4) [OF lo] by (fastforce simp: buf_simps)
    note i = this find_order(2) [OF lo this]
    then have "i \<notin> H" using ref [of i] by auto
    have fresh: "\<forall>j<NBUF. \<not> at_block dev n (bufs s ! j)" using None unfolding find_order(3) [OF lo] by (simp add: at_block_def)
    from \<open>i \<notin> H\<close> show ?thesis using None i fresh
      by (intro exI [of _ i] exI [of _ True] exI [of _ "recycle dev (blockno_id n) 0 (bufs s ! i)"])
        (simp add: buf_cache_get_def buf_simps upd_buf_def, auto simp: at_block_def recycle_def)
  qed
qed

lemma bread_spec:
  assumes inv: "bio_inv dev s H" and nh: "\<And>i. i \<in> H \<Longrightarrow> \<not> at_block dev n (bufs s ! i)"
    and free: "card (H \<union> dirty_bufs s) < NBUF" and n: "unat n < FSSIZE"
  shows "\<exists>i b. bread pid dev n s = Ret (Some (i, upd_buf i (\<lambda>_. b) s)) \<and> i < NBUF \<and> i \<notin> H \<and>
    slocked (block b) \<and> refcnt b = 1 \<and> at_block dev n b \<and> valid b \<and> (dirty b \<longleftrightarrow> dirty (bufs s ! i)) \<and>
    bdata b = view dev s n \<and>
    (at_block dev n (bufs s ! i) \<and> bcgroup b = bcgroup (bufs s ! i)
     \<or> \<not> dirty (bufs s ! i) \<and> (\<forall>j<NBUF. \<not> at_block dev n (bufs s ! j)))"
proof -
  from get_cases [OF inv nh free] obtain i m b where
    g: "buf_cache_get dev (blockno_id n) 0 s = Ret (i, m, upd_buf i (\<lambda>_. b) s)" and i: "i < NBUF" "i \<notin> H"
    and b: "block b = block (bufs s ! i)" "refcnt b = 1" "at_block dev n b" "dirty b \<longleftrightarrow> dirty (bufs s ! i)"
    and c: "at_block dev n (bufs s ! i) \<and> valid b = valid (bufs s ! i) \<and> bdata b = bdata (bufs s ! i) \<and> bcgroup b = bcgroup (bufs s ! i)
     \<or> \<not> dirty (bufs s ! i) \<and> \<not> valid b \<and> (\<forall>j<NBUF. \<not> at_block dev n (bufs s ! j))"
    by blast
  note len = bio_inv_len [OF inv] and u = bio_inv_unique [OF inv] and ok = bio_inv_buf [OF inv i(1)]
  let ?b1 = "b\<lparr>block := \<lparr>slocked = True, spid = pid\<rparr>\<rparr>"
  have lk: "buf_cache_lock pid i (upd_buf i (\<lambda>_. b) s) = Some (upd_buf i (\<lambda>_. ?b1) s)"
    using ok i b len by (simp add: buf_cache_lock_def buf_ok_def acquiresleep_def upd_buf_same)
  show ?thesis
  proof (cases "valid b")
    case True
    with c ok i b have "at_block dev n (bufs s ! i)" "view dev s n = bdata b" using u view_cached [of s dev i n] by auto
    then show ?thesis using g lk True i b c len
      by (intro exI [of _ i] exI [of _ ?b1]) (simp add: bread_def buf_simps, simp add: at_block_def)
  next
    case False
    let ?b2 = "?b1\<lparr>bdata := disk s dev (unat n), bflags := (bflags ?b1 OR B_VALID) AND NOT B_DIRTY\<rparr>"
    have nd: "\<not> dirty b" using False ok c b by (auto simp: buf_ok_def)
    have "iderw i (upd_buf i (\<lambda>_. ?b1) s) = Ret (upd_buf i (\<lambda>_. ?b2) s)"
      using False nd i len n inv b(3) by (subst iderw_read) (simp_all add: buf_simps bio_inv_def at_block_def upd_buf_same)
    moreover have "view dev s n = disk s dev (unat n)"
      by (rule view_uncached) (use c False u i at_block_unique [of s dev _ i n] in blast)
    ultimately show ?thesis using g lk False nd i b c len
      by (intro exI [of _ i] exI [of _ ?b2]) (simp add: bread_def buf_simps, auto simp: at_block_def)
  qed
qed


text \<open>Dirty buffers are pinned: nothing but a write to disk changes which there are and what they hold.\<close>

definition pinned :: "bio \<Rightarrow> bio \<Rightarrow> bool" where
  "pinned s s' = (dirty_bufs s' = dirty_bufs s \<and> (\<forall>j\<in>dirty_bufs s. bdev (bufs s' ! j) = bdev (bufs s ! j) \<and>
     bid (bufs s' ! j) = bid (bufs s ! j) \<and> bcgroup (bufs s' ! j) = bcgroup (bufs s ! j)))"

lemma pinned_refl [simp]: "pinned s s"
  by (simp add: pinned_def)

lemma pinned_trans [trans]: "pinned s t \<Longrightarrow> pinned t u \<Longrightarrow> pinned s u"
  by (simp add: pinned_def)

text \<open>The view outside the changed buffer, when the changed buffer held nothing newer than the disk.\<close>

lemma view_take:
  assumes inv: "bio_inv dev s H" and i: "i < NBUF" "i \<notin> H" and b: "at_block dev n b" "valid b" "bdata b = view dev s n"
    and u: "unique_ids (upd_buf i (\<lambda>_. b) s)" and c: "at_block dev n (bufs s ! i) \<or> \<not> dirty (bufs s ! i)"
  shows "view dev (upd_buf i (\<lambda>_. b) s) = view dev s"
proof
  fix m
  let ?s = "upd_buf i (\<lambda>_. b) s"
  note len = bio_inv_len [OF inv] and us = bio_inv_unique [OF inv]
  consider "m = n" | "m \<noteq> n" "at_block dev m (bufs s ! i)" | "m \<noteq> n" "\<not> at_block dev m (bufs s ! i)" by blast
  then show "view dev ?s m = view dev s m"
  proof cases
    case 1
    then show ?thesis using view_cached [OF u, of dev i n] us i b len by simp
  next
    case 2
    have only: "j = i" if "j < NBUF" "at_block dev m (bufs s ! j)" for j
      using at_block_unique [of s dev j i m] us that i 2 by blast
    have nd: "\<not> dirty (bufs s ! i)" using c 2 at_block_same by blast
    have "view dev s m = disk s dev (unat m)"
      by (rule view_disk [OF inv]) (use only nd i in blast)
    moreover have "view dev ?s m = disk ?s dev (unat m)"
    proof (rule view_uncached)
      fix j assume j: "j < NBUF" "at_block dev m (bufs ?s ! j)"
      have "j \<noteq> i" using j at_block_same [OF b(1), of m] 2(1) len by auto
      then show "\<not> valid (bufs ?s ! j)" using j len only by auto
    qed
    ultimately show ?thesis by simp
  next
    case 3
    have nb: "\<not> at_block dev m b" using 3(1) at_block_same [OF b(1), of m] by blast
    show ?thesis by (rule view_upd [where i = i, OF _ u]) (simp_all add: us 3(2) nb i len)
  qed
qed

lemma bread_inv:
  assumes inv: "bio_inv dev s H" and nh: "\<And>i. i \<in> H \<Longrightarrow> \<not> at_block dev n (bufs s ! i)"
    and free: "card (H \<union> dirty_bufs s) < NBUF" and n: "unat n < FSSIZE"
  obtains i s' where "bread pid dev n s = Ret (Some (i, s'))" "bio_inv dev s' (insert i H)" "i < NBUF" "i \<notin> H"
    "at_block dev n (bufs s' ! i)" "valid (bufs s' ! i)" "bdata (bufs s' ! i) = view dev s n"
    "view dev s' = view dev s" "disk s' = disk s" "trail s' = trail s" "pinned s s'"
    "\<forall>j<NBUF. j \<noteq> i \<longrightarrow> bufs s' ! j = bufs s ! j"
    "\<not> dirty (bufs s' ! i) \<longrightarrow> view dev s n = disk s dev (unat n)"
proof -
  from bread_spec [OF inv nh free n, of pid] obtain i b where
    r: "bread pid dev n s = Ret (Some (i, upd_buf i (\<lambda>_. b) s))" and i: "i < NBUF" "i \<notin> H"
    and b: "slocked (block b)" "refcnt b = 1" "at_block dev n b" "valid b" "dirty b \<longleftrightarrow> dirty (bufs s ! i)" "bdata b = view dev s n"
    and c: "at_block dev n (bufs s ! i) \<and> bcgroup b = bcgroup (bufs s ! i)
     \<or> \<not> dirty (bufs s ! i) \<and> (\<forall>j<NBUF. \<not> at_block dev n (bufs s ! j))" by blast
  note len = bio_inv_len [OF inv] and us = bio_inv_unique [OF inv]
  let ?s = "upd_buf i (\<lambda>_. b) s"
  have u: "unique_ids ?s" using us i b(3) c by (intro unique_ids_set) auto
  have "view dev ?s = view dev s" using c by (intro view_take [OF inv i b(3,4,6) u]) blast
  moreover have "bio_inv dev ?s (insert i H)" unfolding bio_inv_def
  proof (intro conjI allI impI)
    fix j assume j: "j < NBUF"
    show "buf_ok dev ?s (insert i H) j"
      using bio_inv_buf [OF inv j] j b len by (cases "j = i") (simp_all add: buf_ok_def)
  qed (use inv u i in \<open>auto simp: bio_inv_def list_ok_def\<close>)
  moreover have "view dev s n = disk s dev (unat n)" if "\<not> dirty b"
    by (rule view_disk [OF inv]) (use that b(5) c i us at_block_unique [of s dev _ i n] in blast)
  moreover have "dirty_bufs ?s = dirty_bufs s" using b(5) len i by (auto simp: dirty_bufs_def split: if_splits)
  moreover have "pinned s ?s" unfolding pinned_def
  proof (intro conjI ballI)
    fix j assume "j \<in> dirty_bufs s"
    then have "j < NBUF" "j = i \<Longrightarrow> at_block dev n (bufs s ! i) \<and> bcgroup b = bcgroup (bufs s ! i)"
      using c by (auto simp: dirty_bufs_def)
    then show "bdev (bufs ?s ! j) = bdev (bufs s ! j)" "bid (bufs ?s ! j) = bid (bufs s ! j)"
      "bcgroup (bufs ?s ! j) = bcgroup (bufs s ! j)" using b(3) len by (auto simp: at_block_def)
  qed fact
  ultimately show ?thesis using that [OF r] i b len by simp
qed

lemma view_drop:
  assumes inv: "bio_inv dev s H" and u: "unique_ids s'"
    and i: "i < NBUF" "bufs s' = (bufs s)[i := b]" "disk s' = disk s" "at_block dev n b \<longleftrightarrow> at_block dev n (bufs s ! i)"
    "bdata b = bdata (bufs s ! i)" "valid b \<longrightarrow> valid (bufs s ! i)"
    "at_block dev n (bufs s ! i) \<Longrightarrow> valid (bufs s ! i) \<Longrightarrow> \<not> valid b \<Longrightarrow> bdata (bufs s ! i) = disk s dev (unat n)"
  shows "view dev s' n = view dev s n"
proof -
  note len = bio_inv_len [OF inv] and us = bio_inv_unique [OF inv]
  have nth: "bufs s' ! i = b" "\<And>j. j < NBUF \<Longrightarrow> j \<noteq> i \<Longrightarrow> bufs s' ! j = bufs s ! j" using i len by simp_all
  consider "at_block dev n (bufs s ! i)" "valid b" | "at_block dev n (bufs s ! i)" "valid (bufs s ! i)" "\<not> valid b"
    | "\<not> at_block dev n (bufs s ! i) \<or> \<not> valid (bufs s ! i)" by blast
  then show ?thesis
  proof cases
    case 1
    then show ?thesis using i nth us u view_cached [of s dev i n] view_cached [of s' dev i n] by simp
  next
    case 2
    have "view dev s' n = disk s' dev (unat n)"
    proof (rule view_uncached)
      fix j assume "j < NBUF" "at_block dev n (bufs s' ! j)"
      then show "\<not> valid (bufs s' ! j)" using at_block_unique [OF u, of dev j i n] nth us i 2 by auto
    qed
    then show ?thesis using 2 i us view_cached [of s dev i n] by simp
  next
    case 3
    then show ?thesis using us u nth i by (intro view_upd [where i = i]) auto
  qed
qed

lemma release_explicit:
  assumes "i < length (bufs s)" "slocked (block (bufs s ! i))" "refcnt (bufs s ! i) = 1"
  shows "buf_cache_release i s = Ret (s\<lparr>bufs := (bufs s)[i := (bufs s ! i)\<lparr>block := releasesleep (block (bufs s ! i)), refcnt := 0,
      bflags := (if \<not> is_cache_enabled s \<and> \<not> dirty (bufs s ! i) then bflags (bufs s ! i) AND NOT B_VALID else bflags (bufs s ! i))\<rparr>],
    order := (if is_cache_enabled s \<and> alloc_flags (bufs s ! i) AND BUF_ALLOC_NO_CACHE = 0
      then i # remove1 i (order s) else remove1 i (order s) @ [i])\<rparr>)"
  using assms by (simp add: buf_cache_release_def buf_cache_unlock_def holdingsleep_def buf_cache_drop_def Let_def
      upd_buf_def buf_simps)

lemma release_inv:
  assumes inv: "bio_inv dev s H" and i: "i \<in> H"
    and clean: "\<And>n. at_block dev n (bufs s ! i) \<Longrightarrow> valid (bufs s ! i) \<Longrightarrow> \<not> dirty (bufs s ! i) \<Longrightarrow>
      bdata (bufs s ! i) = disk s dev (unat n)"
  obtains s' where "buf_cache_release i s = Ret s'" "bio_inv dev s' (H - {i})" "view dev s' = view dev s"
    "disk s' = disk s" "trail s' = trail s" "pinned s s'" "\<forall>j<NBUF. j \<noteq> i \<longrightarrow> bufs s' ! j = bufs s ! j"
proof -
  note len = bio_inv_len [OF inv] and us = bio_inv_unique [OF inv]
  have iN: "i < NBUF" using inv i by (auto simp: bio_inv_def)
  have ok: "slocked (block (bufs s ! i))" "refcnt (bufs s ! i) = 1" "dirty (bufs s ! i) \<longrightarrow> valid (bufs s ! i)"
    using bio_inv_buf [OF inv iN] i by (auto simp: buf_ok_def)
  let ?b = "(bufs s ! i)\<lparr>block := releasesleep (block (bufs s ! i)), refcnt := 0,
    bflags := (if \<not> is_cache_enabled s \<and> \<not> dirty (bufs s ! i) then bflags (bufs s ! i) AND NOT B_VALID else bflags (bufs s ! i))\<rparr>"
  obtain s' where s': "buf_cache_release i s = Ret s'" and bs: "bufs s' = (bufs s)[i := ?b]"
    and o: "mset (order s') = mset (order s)" "idequeue s' = idequeue s" "havedisk1 s' = havedisk1 s" "disk s' = disk s" "trail s' = trail s"
    using release_explicit [OF _ ok(1,2)] mset_remove1_order [OF _ iN, of s] us iN len by simp
  obtain b' where b': "bufs s' = (bufs s)[i := b']" "\<not> slocked (block b')" "refcnt b' = 0" "bdata b' = bdata (bufs s ! i)"
      "bdev b' = bdev (bufs s ! i)" "bid b' = bid (bufs s ! i)" "bcgroup b' = bcgroup (bufs s ! i)" "dirty b' = dirty (bufs s ! i)"
      "valid b' \<longrightarrow> valid (bufs s ! i)" "dirty b' \<longrightarrow> valid b'"
    by (rule that [OF bs]) (use ok(3) in \<open>auto simp: releasesleep_def flag_bits\<close>)
  have u: "unique_ids s'"
    by (rule unique_ids_frame [of s]) (use us b'(1,5,6) len iN in \<open>auto simp: nth_list_update split: if_splits\<close>)
  have at: "at_block dev n b' \<longleftrightarrow> at_block dev n (bufs s ! i)" for n using b' by (simp add: at_block_def)
  have "buf_ok dev s' (H - {i}) j" if j: "j < NBUF" for j
    using bio_inv_buf [OF inv j] b' clean iN len o(4) at by (cases "j = i") (simp_all add: buf_ok_def)
  then have "bio_inv dev s' (H - {i})" unfolding bio_inv_def
    by (intro conjI) (use inv u o b'(1) in \<open>auto simp: bio_inv_def list_ok_def\<close>)
  moreover have "view dev s' n = view dev s n" for n
    by (rule view_drop [OF inv u iN b'(1)]) (use b' at clean o in auto)
  moreover have "pinned s s'" using b' len iN by (auto simp: pinned_def dirty_bufs_def nth_list_update)
  ultimately show ?thesis using that [OF s'] o b' len by (simp add: fun_eq_iff)
qed


text \<open>Storing new contents in a buffer one has, and writing it through to the disk.\<close>

lemma bwrite_inv:
  assumes inv: "bio_inv dev s H" and i: "i \<in> H" and at: "at_block dev n (bufs s ! i)" and n: "unat n < FSSIZE"
  obtains s' where "bwrite i (upd_buf i (\<lambda>b. b\<lparr>bdata := x\<rparr>) s) = Ret s'" "bio_inv dev s' H"
    "view dev s' = (view dev s)(n := x)" "disk s' = (disk s)(dev := (disk s dev)(unat n := x))"
    "trail s' = (dev, unat n, x) # trail s" "dirty_bufs s' = dirty_bufs s - {i}"
    "\<forall>j<NBUF. j \<noteq> i \<longrightarrow> bufs s' ! j = bufs s ! j"
    "at_block dev n (bufs s' ! i)" "bdata (bufs s' ! i) = x" "bcgroup (bufs s' ! i) = bcgroup (bufs s ! i)"
proof -
  note len = bio_inv_len [OF inv] and us = bio_inv_unique [OF inv]
  have iN: "i < NBUF" using inv i by (auto simp: bio_inv_def)
  have lk: "slocked (block (bufs s ! i))" using bio_inv_buf [OF inv iN] i by (auto simp: buf_ok_def)
  let ?f = "\<lambda>b. b\<lparr>bdata := x, bflags := (bflags b OR B_DIRTY OR B_VALID) AND NOT B_DIRTY\<rparr>"
  let ?s = "upd_buf i ?f (s\<lparr>disk := (disk s)(dev := (disk s dev)(unat n := x)), trail := (dev, unat n, x) # trail s\<rparr>)"
  have r: "bwrite i (upd_buf i (\<lambda>b. b\<lparr>bdata := x\<rparr>) s) = Ret ?s"
    using lk iN len at n inv unfolding bwrite_def
    by (subst iderw_write [OF _ _ _ _ _ refl _ refl])
      (simp_all add: holdingsleep_def buf_simps bio_inv_def at_block_def upd_buf_same, simp add: upd_buf_def or.assoc)
  have b: "\<And>j. j < NBUF \<Longrightarrow> j \<noteq> i \<Longrightarrow> bufs ?s ! j = bufs s ! j" "bufs ?s ! i = ?f (bufs s ! i)"
    using iN len by (simp_all add: upd_buf_def)
  have fl: "valid (?f (bufs s ! i))" "\<not> dirty (?f (bufs s ! i))" "\<And>m. at_block dev m (?f b) = at_block dev m b" for b
    by (auto simp: flag_bits at_block_def)
  have u: "unique_ids ?s"
    by (rule unique_ids_frame [of s]) (use us len iN in \<open>auto simp: upd_buf_def nth_list_update\<close>)
  have "buf_ok dev ?s H j" if j: "j < NBUF" for j
  proof (cases "j = i")
    case True
    then show ?thesis using bio_inv_buf [OF inv j] i fl b(2) by (simp add: buf_ok_def)
  next
    case False
    have "\<not> at_block dev n (bufs s ! j)" using False at_block_unique [of s dev j i n] us j iN at by blast
    then have "unat m \<noteq> unat n" if "at_block dev m (bufs s ! j)" for m using that by (metis word_unat_eq_iff)
    then show ?thesis using bio_inv_buf [OF inv j] b(1) [OF j False] by (simp add: buf_ok_def)
  qed
  then have "bio_inv dev ?s H" using inv u by (simp add: bio_inv_def list_ok_def)
  moreover have "view dev ?s = (view dev s)(n := x)"
  proof
    fix m
    show "view dev ?s m = ((view dev s)(n := x)) m"
    proof (cases "m = n")
      case True
      then show ?thesis using view_cached [OF u, of dev i n] us iN at fl b(2) by simp
    next
      case False
      then have "\<not> at_block dev m (bufs s ! i)" using at at_block_same by blast
      then show ?thesis using False us b fl view_upd [OF _ u, of s dev i m] by (simp add: word_unat_eq_iff)
    qed
  qed
  moreover have "dirty (bufs ?s ! j) \<longleftrightarrow> j \<noteq> i \<and> dirty (bufs s ! j)" if "j < NBUF" for j
    using b(1) [OF that] b(2) fl(2) by (cases "j = i") simp_all
  then have "dirty_bufs ?s = dirty_bufs s - {i}" unfolding dirty_bufs_def by blast
  ultimately show ?thesis using that [OF r] b fl(3) at by simp
qed


section \<open>Boot and exhaustion\<close>

lemma boot_bio_inv: "dev \<noteq> 0 \<Longrightarrow> bio_inv dev (boot_bio d) {}"
  using boot_cache_inv [of d]
  by (auto simp: bio_inv_def cache_inv_def buf_ok_def boot_bio_def buf_cache_init_def boot_buf_def init_buf_def
      at_block_def initsleeplock_def valid_def dirty_def list_ok_def)

lemma boot_view [simp]: "view dev (boot_bio d) n = d dev (unat n)"
  by (subst view_uncached) (auto simp: boot_bio_def buf_cache_init_def boot_buf_def init_buf_def valid_def list_ok_def)

lemma boot_dirty [simp]: "dirty_bufs (boot_bio d) = {}"
  by (auto simp: dirty_bufs_def boot_bio_def buf_cache_init_def boot_buf_def init_buf_def dirty_def)

lemma boot_fields [simp]: "disk (boot_bio d) = d" "trail (boot_bio d) = []"
  by (simp_all add: boot_bio_def buf_cache_init_def)

lemma get_hit:
  assumes "list_ok s" "i < NBUF" "bdev (bufs s ! i) = dev" "bid (bufs s ! i) = x"
  shows "\<exists>j s'. buf_cache_get dev x af s = Ret (j, False, s')"
proof -
  have "find (\<lambda>i. bdev (bufs s ! i) = dev \<and> bid (bufs s ! i) = x) (order s) \<noteq> None"
    unfolding find_order(3) [OF assms(1)] using assms(2-) by blast
  then show ?thesis by (auto simp: buf_cache_get_def)
qed

theorem buf_cache_one_copy_witness:
  "\<exists>s i j. cache_step\<^sup>*\<^sup>* (boot_bio (\<lambda>_ _. []), []) (s, [(j, 1, blockno_id 3), (i, 1, blockno_id 3)]) \<and> i = j"
proof -
  let ?b = "boot_bio (\<lambda>_ _. [])"
  have "card ({} \<union> dirty_bufs ?b) < NBUF" by (simp add: NBUF_def)
  from get_cases [OF boot_bio_inv _ this, of 1 3] obtain i m b where
    g: "buf_cache_get 1 (blockno_id 3) 0 ?b = Ret (i, m, upd_buf i (\<lambda>_. b) ?b)" "i < NBUF" "at_block 1 3 b" by auto
  have s1: "cache_step (?b, []) (upd_buf i (\<lambda>_. b) ?b, [(i, 1, blockno_id 3)])" by (rule get) (use g in auto)
  then have inv: "list_ok (upd_buf i (\<lambda>_. b) ?b)" using cache_step_inv boot_cache_inv by (fastforce simp: cache_inv_def)
  have "i < length (bufs ?b)" using g(2) inv by (simp add: list_ok_def)
  then have "\<exists>j s'. buf_cache_get 1 (blockno_id 3) 0 (upd_buf i (\<lambda>_. b) ?b) = Ret (j, False, s')"
    using g by (intro get_hit [OF inv g(2)]) (auto simp: at_block_def)
  then obtain j s' where "buf_cache_get 1 (blockno_id 3) 0 (upd_buf i (\<lambda>_. b) ?b) = Ret (j, False, s')" by blast
  then have "cache_step (upd_buf i (\<lambda>_. b) ?b, [(i, 1, blockno_id 3)]) (s', [(j, 1, blockno_id 3), (i, 1, blockno_id 3)])"
    by (intro get) auto
  with s1 have r: "cache_step\<^sup>*\<^sup>* (?b, []) (s', [(j, 1, blockno_id 3), (i, 1, blockno_id 3)])" by simp
  from buf_cache_one_copy [OF r, of i 1 "blockno_id 3" j] show ?thesis using r by auto
qed

text \<open>
  \<open>buf_cache_get\<close> panics exactly when the block has no buffer and every buffer is
  referenced or dirty; when it recycles a buffer, it takes the least recently used one that is
  neither.
\<close>

theorem buf_cache_get_exhaustion:
  assumes "list_ok s"
  shows "(buf_cache_get dev x af s = Panic ''buf_cache_get: no buffers'' \<longleftrightarrow>
      (\<forall>i<NBUF. \<not> (bdev (bufs s ! i) = dev \<and> bid (bufs s ! i) = x) \<and> (refcnt (bufs s ! i) \<noteq> 0 \<or> dirty (bufs s ! i)))) \<and>
    (\<forall>i s'. buf_cache_get dev x af s = Ret (i, True, s') \<longrightarrow> refcnt (bufs s ! i) = 0 \<and> \<not> dirty (bufs s ! i) \<and>
      (\<exists>older newer. order s = newer @ i # older \<and> (\<forall>j\<in>set older. refcnt (bufs s ! j) \<noteq> 0 \<or> dirty (bufs s ! j))))"
    (is "?panics \<and> ?recycles")
proof
  have "buf_cache_get dev x af s = Panic ''buf_cache_get: no buffers'' \<longleftrightarrow>
      find (\<lambda>i. bdev (bufs s ! i) = dev \<and> bid (bufs s ! i) = x) (order s) = None \<and>
      find (\<lambda>i. refcnt (bufs s ! i) = 0 \<and> \<not> dirty (bufs s ! i)) (rev (order s)) = None"
    by (simp add: buf_cache_get_def buf_simps split: option.split)
  then show ?panics unfolding find_order(3,4) [OF assms] by blast
  show ?recycles
  proof (intro allI impI)
    fix i s' assume "buf_cache_get dev x af s = Ret (i, True, s')"
    then have f: "find (\<lambda>i. refcnt (bufs s ! i) = 0 \<and> \<not> dirty (bufs s ! i)) (rev (order s)) = Some i"
      by (auto simp: buf_cache_get_def buf_simps split: option.splits)
    have "\<exists>us vs. ys = us @ i # vs \<and> (\<forall>j\<in>set us. \<not> P j)" if "find P ys = Some i" for P ys
      using that by (induction ys) (auto split: if_splits, metis append_Nil empty_iff list.set(1), metis append_Cons set_ConsD)
    from this [OF f] obtain us vs where "rev (order s) = us @ i # vs"
        "\<forall>j\<in>set us. refcnt (bufs s ! j) \<noteq> 0 \<or> dirty (bufs s ! j)" by blast
    then have "order s = rev vs @ i # rev us" "\<forall>j\<in>set (rev us). refcnt (bufs s ! j) \<noteq> 0 \<or> dirty (bufs s ! j)"
      by (simp_all add: rev_swap)
    then show "refcnt (bufs s ! i) = 0 \<and> \<not> dirty (bufs s ! i) \<and>
      (\<exists>older newer. order s = newer @ i # older \<and> (\<forall>j\<in>set older. refcnt (bufs s ! j) \<noteq> 0 \<or> dirty (bufs s ! j)))"
      using find_SomeD [OF f] by blast
  qed
qed

theorem buf_cache_get_exhaustion_witness:
  "buf_cache_get 1 (blockno_id 3) 0 (boot_bio (\<lambda>_ _. [])) \<noteq> Panic ''buf_cache_get: no buffers''"
proof -
  let ?b = "boot_bio (\<lambda>_ _. [])"
  have "list_ok ?b" using boot_cache_inv [of "\<lambda>_ _. []"] by (simp add: cache_inv_def)
  from buf_cache_get_exhaustion [OF this, of 1 "blockno_id 3" 0]
  have "buf_cache_get 1 (blockno_id 3) 0 ?b = Panic ''buf_cache_get: no buffers'' \<Longrightarrow>
      refcnt (bufs ?b ! 0) \<noteq> 0 \<or> dirty (bufs ?b ! 0)" by (simp add: NBUF_def)
  moreover have "refcnt (bufs ?b ! 0) = 0" "\<not> dirty (bufs ?b ! 0)"
    by (simp_all add: boot_bio_def buf_cache_init_def boot_buf_def init_buf_def dirty_def NBUF_def)
  ultimately show ?thesis by blast
qed

end
