(* ===== verification/Native_Log.thy ===== *)
theory Native_Log
  imports Buf_Cache
begin

text \<open>
  The redo log of \<open>kernel/fs/native_log.c\<close> over the buffer cache.

  The routines run on the whole state: the log's bookkeeping and the buffer cache with its disk.
  A run in which \<open>bread\<close> would have to wait for another process ends in \<open>Panic ''wait''\<close>; the
  theorems show that it does not happen when no other process has a buffer. Counters of dirty file
  pages per control group are those of \<open>cgroup_mem_stat_file_dirty_incr\<close> and its companions.
\<close>

section \<open>State\<close>

definition LOGSIZE :: nat where "LOGSIZE = 30"
definition MAXOPBLOCKS :: nat where "MAXOPBLOCKS = 10"

record log =
  lstart :: nat
  lsize :: nat
  outstanding :: int
  committing :: bool
  ldev :: nat
  lh_n :: int
  lh_block :: "u32 list"
  lbio :: bio
  file_dirty :: "nat \<Rightarrow> int"
  file_dirty_aggregated :: "nat \<Rightarrow> int"

text \<open>32-bit fields of a block.\<close>

definition get32 :: "block \<Rightarrow> nat \<Rightarrow> u32" where
  "get32 b a = load32 (\<lambda>i. b ! i) a"

definition put32 :: "block \<Rightarrow> nat \<Rightarrow> u32 \<Rightarrow> block" where
  "put32 b a w = map (store32 (\<lambda>i. b ! i) a w) [0..<length b]"

section \<open>The buffer cache, on the log's device\<close>

definition lbread :: "u32 \<Rightarrow> log \<Rightarrow> (nat \<times> log) outcome" where
  "lbread n l = bindO (bread 0 (ldev l) n (lbio l)) (\<lambda>r.
     case r of None \<Rightarrow> Panic ''wait'' | Some (i, s) \<Rightarrow> Ret (i, l\<lparr>lbio := s\<rparr>))"

definition lbwrite :: "nat \<Rightarrow> log \<Rightarrow> log outcome" where
  "lbwrite i l = bindO (bwrite i (lbio l)) (\<lambda>s. Ret (l\<lparr>lbio := s\<rparr>))"

definition lrelease :: "nat \<Rightarrow> log \<Rightarrow> log outcome" where
  "lrelease i l = bindO (buf_cache_release i (lbio l)) (\<lambda>s. Ret (l\<lparr>lbio := s\<rparr>))"

definition lbuf :: "log \<Rightarrow> nat \<Rightarrow> buf" where
  "lbuf l i = bufs (lbio l) ! i"

definition lset :: "nat \<Rightarrow> block \<Rightarrow> log \<Rightarrow> log" where
  "lset i x l = l\<lparr>lbio := upd_buf i (\<lambda>b. b\<lparr>bdata := x\<rparr>) (lbio l)\<rparr>"

section \<open>Transactions on disk\<close>

definition slot :: "log \<Rightarrow> nat \<Rightarrow> u32" where
  "slot l tail = of_nat (lstart l + tail + 1)"

fun install_trans_loop :: "nat \<Rightarrow> nat \<Rightarrow> log \<Rightarrow> log outcome" where
  "install_trans_loop 0 tail l = Ret l"
| "install_trans_loop (Suc k) tail l =
    bindO (lbread (slot l tail) l) (\<lambda>(lb, l).
    bindO (lbread (lh_block l ! tail) l) (\<lambda>(db, l).
    bindO (lbwrite db (lset db (bdata (lbuf l lb)) l)) (\<lambda>l.
    let cg = bcgroup (lbuf l db);
        l = l\<lparr>file_dirty := (file_dirty l)(cg := file_dirty l cg - 1),
              file_dirty_aggregated := (file_dirty_aggregated l)(cg := file_dirty_aggregated l cg + 1)\<rparr> in
    bindO (lrelease lb l) (\<lambda>l.
    bindO (lrelease db l) (\<lambda>l.
    install_trans_loop k (tail + 1) l)))))"

definition install_trans :: "log \<Rightarrow> log outcome" where
  "install_trans l = install_trans_loop (nat (lh_n l)) 0 l"

text \<open>The log header is an array of words at the start of its block: the count, then the blocks.\<close>

fun read_head_loop :: "nat \<Rightarrow> nat \<Rightarrow> block \<Rightarrow> u32 list \<Rightarrow> u32 list outcome" where
  "read_head_loop 0 i b bs = Ret bs"
| "read_head_loop (Suc k) i b bs =
    (if i < length bs then read_head_loop k (i + 1) b (bs[i := get32 b (4 + 4 * i)])
     else Panic ''write past lh.block'')"

definition read_head :: "log \<Rightarrow> log outcome" where
  "read_head l =
    bindO (lbread (of_nat (lstart l)) l) (\<lambda>(i, l).
    let b = bdata (lbuf l i); l = l\<lparr>lh_n := sint (get32 b 0)\<rparr> in
    bindO (read_head_loop (nat (lh_n l)) 0 b (lh_block l)) (\<lambda>bs.
    lrelease i (l\<lparr>lh_block := bs\<rparr>)))"

fun write_head_loop :: "nat \<Rightarrow> nat \<Rightarrow> u32 list \<Rightarrow> block \<Rightarrow> block" where
  "write_head_loop 0 i bs b = b"
| "write_head_loop (Suc k) i bs b = write_head_loop k (i + 1) bs (put32 b (4 + 4 * i) (bs ! i))"

definition write_head :: "log \<Rightarrow> log outcome" where
  "write_head l =
    bindO (lbread (of_nat (lstart l)) l) (\<lambda>(i, l).
    let b = put32 (bdata (lbuf l i)) 0 (word_of_int (lh_n l));
        b = write_head_loop (nat (lh_n l)) 0 (lh_block l) b in
    bindO (lbwrite i (lset i b l)) (lrelease i))"

definition recover_from_log :: "log \<Rightarrow> log outcome" where
  "recover_from_log l =
    bindO (read_head l) (\<lambda>l. bindO (install_trans l) (\<lambda>l. write_head (l\<lparr>lh_n := 0\<rparr>)))"

definition initlog :: "nat \<Rightarrow> nat \<Rightarrow> nat \<Rightarrow> log \<Rightarrow> log outcome" where
  "initlog logstart nlog dev l = recover_from_log (l\<lparr>lstart := logstart, lsize := nlog, ldev := dev\<rparr>)"

fun write_log_loop :: "nat \<Rightarrow> nat \<Rightarrow> log \<Rightarrow> log outcome" where
  "write_log_loop 0 tail l = Ret l"
| "write_log_loop (Suc k) tail l =
    bindO (lbread (slot l tail) l) (\<lambda>(to, l).
    bindO (lbread (lh_block l ! tail) l) (\<lambda>(from, l).
    bindO (lbwrite to (lset to (bdata (lbuf l from)) l)) (\<lambda>l.
    bindO (lrelease from l) (\<lambda>l.
    bindO (lrelease to l) (\<lambda>l.
    write_log_loop k (tail + 1) l)))))"

definition write_log :: "log \<Rightarrow> log outcome" where
  "write_log l = write_log_loop (nat (lh_n l)) 0 l"

definition commit :: "log \<Rightarrow> log outcome" where
  "commit l =
    (if 0 < lh_n l then
       bindO (write_log l) (\<lambda>l.
       bindO (write_head l) (\<lambda>l.
       bindO (install_trans l) (\<lambda>l.
       write_head (l\<lparr>lh_n := 0\<rparr>))))
     else Ret l)"

section \<open>System calls\<close>

text \<open>One turn of the loop in \<open>begin_op\<close>: \<open>None\<close> when the caller sleeps.\<close>

definition begin_op :: "log \<Rightarrow> log option" where
  "begin_op l =
    (if committing l then None
     else if int LOGSIZE < lh_n l + (outstanding l + 1) * int MAXOPBLOCKS then None
     else Some (l\<lparr>outstanding := outstanding l + 1\<rparr>))"

text \<open>
  \<open>end_op\<close> up to the release of the lock, with whether to commit, and what it does after the
  commit.
\<close>

definition end_op_enter :: "log \<Rightarrow> (bool \<times> log) outcome" where
  "end_op_enter l =
    (let l = l\<lparr>outstanding := outstanding l - 1\<rparr> in
     if committing l then Panic ''log.committing''
     else if outstanding l = 0 then Ret (True, l\<lparr>committing := True\<rparr>)
     else Ret (False, l))"

definition end_op_finish :: "log \<Rightarrow> log" where
  "end_op_finish l = l\<lparr>committing := False\<rparr>"

definition end_op :: "log \<Rightarrow> log outcome" where
  "end_op l =
    bindO (end_op_enter l) (\<lambda>(do_commit, l).
    if do_commit then bindO (commit l) (\<lambda>l. Ret (end_op_finish l)) else Ret l)"

text \<open>
  \<open>log_write\<close> of buffer \<open>b\<close> by a process of group \<open>cg\<close>. A buffer of a loop device is written
  through at once: \<open>loop\<close> is then that \<open>bwrite\<close>. \<open>absorb\<close> is the position it stores a block number
  at: that of the same block, else the end.
\<close>

fun absorb :: "u32 list \<Rightarrow> nat \<Rightarrow> nat \<Rightarrow> u32 \<Rightarrow> nat" where
  "absorb bs i 0 b = i"
| "absorb bs i (Suc k) b = (if bs ! i = b then i else absorb bs (i + 1) k b)"

definition log_write :: "(nat \<Rightarrow> bio \<Rightarrow> bio outcome) option \<Rightarrow> nat \<Rightarrow> nat \<Rightarrow> log \<Rightarrow> log outcome" where
  "log_write loop cg b l =
    (if int LOGSIZE \<le> lh_n l \<or> int (lsize l) - 1 \<le> lh_n l then Panic ''too big a transaction''
     else if outstanding l < 1 then Panic ''log_write outside of trans''
     else case loop of
       Some bw \<Rightarrow> bindO (bw b (lbio l)) (\<lambda>s. Ret (l\<lparr>lbio := s\<rparr>))
     | None \<Rightarrow>
       let n = id_blockno (bid (lbuf l b));
           i = absorb (lh_block l) 0 (nat (lh_n l)) n;
           l = l\<lparr>lh_block := (lh_block l)[i := n]\<rparr>;
           l = (if int i = lh_n l then
                  l\<lparr>lh_n := lh_n l + 1, lbio := upd_buf b (\<lambda>b. b\<lparr>bcgroup := cg\<rparr>) (lbio l),
                    file_dirty := (file_dirty l)(cg := file_dirty l cg + 1)\<rparr>
                else l) in
       Ret (l\<lparr>lbio := upd_buf b (\<lambda>b. b\<lparr>bflags := bflags b OR B_DIRTY\<rparr>) (lbio l)\<rparr>))"

section \<open>What the disk operations do\<close>

text \<open>
  \<open>wrote l l' ws\<close>: the run from \<open>l\<close> to \<open>l'\<close> performed exactly the block writes \<open>ws\<close>, in order,
  and left no buffer in use.
\<close>

type_synonym writes = "(u32 \<times> block) list"

definition apply_view :: "writes \<Rightarrow> (u32 \<Rightarrow> block) \<Rightarrow> u32 \<Rightarrow> block" where
  "apply_view ws v = fold (\<lambda>(n, x) v. v(n := x)) ws v"

definition apply_disk :: "writes \<Rightarrow> (nat \<Rightarrow> block) \<Rightarrow> nat \<Rightarrow> block" where
  "apply_disk ws d = fold (\<lambda>(n, x) d. d(unat n := x)) ws d"

definition lview :: "log \<Rightarrow> u32 \<Rightarrow> block" where
  "lview l = view (ldev l) (lbio l)"

definition ldisk :: "log \<Rightarrow> nat \<Rightarrow> block" where
  "ldisk l = disk (lbio l) (ldev l)"

definition quiet :: "log \<Rightarrow> bool" where
  "quiet l = (bio_inv (ldev l) (lbio l) {} \<and> card (dirty_bufs (lbio l)) + 2 \<le> NBUF)"

definition wrote :: "log \<Rightarrow> log \<Rightarrow> writes \<Rightarrow> bool" where
  "wrote l l' ws = (quiet l' \<and> ldev l' = ldev l \<and> lstart l' = lstart l \<and> lsize l' = lsize l \<and> lh_n l' = lh_n l \<and>
     lh_block l' = lh_block l \<and> lview l' = apply_view ws (lview l) \<and> ldisk l' = apply_disk ws (ldisk l) \<and>
     trail (lbio l') = rev (map (\<lambda>(n, x). (ldev l, unat n, x)) ws) @ trail (lbio l))"

lemma apply_append:
  "apply_view (ws @ ws') v = apply_view ws' (apply_view ws v)" "apply_disk (ws @ ws') d = apply_disk ws' (apply_disk ws d)"
  by (simp_all add: apply_view_def apply_disk_def)

lemma apply_Nil [simp]: "apply_view [] v = v" "apply_disk [] d = d"
  by (simp_all add: apply_view_def apply_disk_def)

lemma apply_single [simp]: "apply_view [(n, x)] v = v(n := x)" "apply_disk [(n, x)] d = d(unat n := x)"
  by (simp_all add: apply_view_def apply_disk_def)

lemma apply_view_other: "n \<notin> fst ` set ws \<Longrightarrow> apply_view ws v n = v n"
  unfolding apply_view_def by (induction ws arbitrary: v) auto

lemma apply_disk_other: "n \<notin> (unat \<circ> fst) ` set ws \<Longrightarrow> apply_disk ws d n = d n"
  unfolding apply_disk_def by (induction ws arbitrary: d) auto

lemma wrote_refl: "quiet l \<Longrightarrow> wrote l l []"
  by (simp add: wrote_def)

lemma wrote_trans: "wrote l l' ws \<Longrightarrow> wrote l' l'' ws' \<Longrightarrow> wrote l l'' (ws @ ws')"
  by (simp add: wrote_def apply_append)

lemma wrote_lh_n: "wrote l l' ws \<Longrightarrow> wrote (l\<lparr>lh_n := n\<rparr>) (l'\<lparr>lh_n := n\<rparr>) ws"
  by (auto simp: wrote_def quiet_def lview_def ldisk_def)

text \<open>Two different blocks in use at once, then one written through.\<close>

lemma bread_two:
  assumes inv: "bio_inv dev s {}" and c: "card (dirty_bufs s) + 2 \<le> NBUF" and ab: "a \<noteq> b" "unat a < FSSIZE" "unat b < FSSIZE"
  obtains i s1 j s2 where "bread pid dev a s = Ret (Some (i, s1))" "bread pid dev b s1 = Ret (Some (j, s2))"
    "bio_inv dev s2 {i, j}" "i \<noteq> j" "i < NBUF" "j < NBUF" "at_block dev a (bufs s2 ! i)" "at_block dev b (bufs s2 ! j)"
    "bdata (bufs s2 ! i) = view dev s a" "bdata (bufs s2 ! j) = view dev s b"
    "view dev s2 = view dev s" "disk s2 = disk s" "trail s2 = trail s" "dirty_bufs s2 = dirty_bufs s"
    "\<not> dirty (bufs s2 ! i) \<longrightarrow> view dev s a = disk s dev (unat a)"
    "\<not> dirty (bufs s2 ! j) \<longrightarrow> view dev s b = disk s dev (unat b)"
proof -
  have c1: "card ({} \<union> dirty_bufs s) < NBUF" using c by simp
  obtain i s1 where 1: "bread pid dev a s = Ret (Some (i, s1))" "bio_inv dev s1 {i}" "i < NBUF"
    "at_block dev a (bufs s1 ! i)" "bdata (bufs s1 ! i) = view dev s a" "view dev s1 = view dev s" "disk s1 = disk s"
    "trail s1 = trail s" "dirty_bufs s1 = dirty_bufs s" "\<not> dirty (bufs s1 ! i) \<longrightarrow> view dev s a = disk s dev (unat a)"
    by (rule bread_inv [OF inv _ c1 ab(2), of pid]) (auto simp: pinned_def)
  have fin: "finite (dirty_bufs s)" by (simp add: dirty_bufs_def)
  have c2: "card ({i} \<union> dirty_bufs s1) < NBUF"
    using c 1(9) card_insert_if [OF fin, of i] by (simp split: if_splits)
  have nh: "\<And>k. k \<in> {i} \<Longrightarrow> \<not> at_block dev b (bufs s1 ! k)" using 1(4) ab(1) at_block_same by blast
  show ?thesis
    by (rule bread_inv [OF 1(2) nh c2 ab(3), of pid], assumption)
      (rule that [OF 1(1)], use 1 in \<open>auto simp: pinned_def insert_commute\<close>)
qed

lemma write_and_release_two:
  assumes inv: "bio_inv dev s {i, j}" and ij: "i \<noteq> j" and a: "at_block dev a (bufs s ! i)" and b: "at_block dev b (bufs s ! j)"
    and ab: "a \<noteq> b" "unat b < FSSIZE" and clean: "\<not> dirty (bufs s ! i) \<longrightarrow> bdata (bufs s ! i) = disk s dev (unat a)"
  obtains s1 s2 s3 where "bwrite j (upd_buf j (\<lambda>b. b\<lparr>bdata := x\<rparr>) s) = Ret s1"
    "buf_cache_release i s1 = Ret s2" "buf_cache_release j s2 = Ret s3" "bio_inv dev s3 {}"
    "view dev s3 = (view dev s)(b := x)" "disk s3 = (disk s)(dev := (disk s dev)(unat b := x))"
    "trail s3 = (dev, unat b, x) # trail s" "dirty_bufs s3 = dirty_bufs s - {j}" "bcgroup (bufs s1 ! j) = bcgroup (bufs s ! j)"
proof -
  have i: "i < NBUF" "j < NBUF" using inv by (auto simp: bio_inv_def)
  obtain s1 where 1: "bwrite j (upd_buf j (\<lambda>b. b\<lparr>bdata := x\<rparr>) s) = Ret s1" "bio_inv dev s1 {i, j}"
    "view dev s1 = (view dev s)(b := x)" "disk s1 = (disk s)(dev := (disk s dev)(unat b := x))"
    "trail s1 = (dev, unat b, x) # trail s" "dirty_bufs s1 = dirty_bufs s - {j}" "\<forall>k<NBUF. k \<noteq> j \<longrightarrow> bufs s1 ! k = bufs s ! k"
    "at_block dev b (bufs s1 ! j)" "bdata (bufs s1 ! j) = x" "bcgroup (bufs s1 ! j) = bcgroup (bufs s ! j)"
    by (rule bwrite_inv [OF inv _ b ab(2), of x]) auto
  have "unat a \<noteq> unat b" using ab by (simp add: word_unat_eq_iff)
  moreover have bi: "bufs s1 ! i = bufs s ! i" using 1(7) i ij by blast
  ultimately have "\<not> dirty (bufs s1 ! i) \<longrightarrow> bdata (bufs s1 ! i) = disk s1 dev (unat a)" using clean 1(4) by simp
  then have cl: "bdata (bufs s1 ! i) = disk s1 dev (unat n)" if "at_block dev n (bufs s1 ! i)" "\<not> dirty (bufs s1 ! i)" for n
    using that a bi at_block_same by metis
  obtain s2 where 2: "buf_cache_release i s1 = Ret s2" "bio_inv dev s2 ({i, j} - {i})" "view dev s2 = view dev s1"
    "disk s2 = disk s1" "trail s2 = trail s1" "dirty_bufs s2 = dirty_bufs s1" "\<forall>k<NBUF. k \<noteq> i \<longrightarrow> bufs s2 ! k = bufs s1 ! k"
    by (rule release_inv [OF 1(2), of i]) (use cl in \<open>auto simp: pinned_def\<close>)
  have inv2: "bio_inv dev s2 {j}" using 2(2) ij by (simp add: insert_Diff_if)
  have bj: "bufs s2 ! j = bufs s1 ! j" using 2(7) i ij by simp
  have cj: "bdata (bufs s2 ! j) = disk s2 dev (unat n)" if "at_block dev n (bufs s2 ! j)" for n
  proof -
    have "n = b" using that 1(8) bj at_block_same by metis
    then show ?thesis using 1(4,9) 2(4) bj by simp
  qed
  obtain s3 where 3: "buf_cache_release j s2 = Ret s3" "bio_inv dev s3 {}" "view dev s3 = view dev s2"
    "disk s3 = disk s2" "trail s3 = trail s2" "dirty_bufs s3 = dirty_bufs s2"
    by (rule release_inv [OF inv2, of j])
      (use cj in \<open>auto simp: pinned_def\<close>)
  show ?thesis by (rule that [OF 1(1) 2(1) 3(1,2)]) (use 1 2 3 in simp_all)
qed

text \<open>Where the log and the logged blocks lie.\<close>

definition in_log :: "log \<Rightarrow> nat \<Rightarrow> bool" where
  "in_log l n = (lstart l \<le> n \<and> n < lstart l + lsize l)"

definition layout :: "log \<Rightarrow> bool" where
  "layout l = (0 \<le> lh_n l \<and> lh_n l \<le> int (length (lh_block l)) \<and> lh_n l < int (lsize l) \<and> length (lh_block l) = LOGSIZE \<and>
     lstart l + lsize l \<le> FSSIZE \<and> (\<forall>t<nat (lh_n l). \<not> in_log l (unat (lh_block l ! t)) \<and> unat (lh_block l ! t) < FSSIZE))"

lemma unat_small: "n < FSSIZE \<Longrightarrow> unat (of_nat n :: u32) = n"
  by (simp add: FSSIZE_def unsigned_of_nat take_bit_nat_eq_self_iff)

lemma slot_unat: "layout l \<Longrightarrow> t < nat (lh_n l) \<Longrightarrow> unat (slot l t) = lstart l + t + 1 \<and> unat (slot l t) < FSSIZE \<and> in_log l (unat (slot l t))"
  using unat_small [of "lstart l + t + 1"] by (auto simp: slot_def layout_def in_log_def)

lemma slot_not_logged: "layout l \<Longrightarrow> t < nat (lh_n l) \<Longrightarrow> t' < nat (lh_n l) \<Longrightarrow> slot l t \<noteq> lh_block l ! t'"
  using slot_unat [of l t] by (auto simp: layout_def)

lemma layout_wrote: "wrote l l' ws \<Longrightarrow> layout l' = layout l"
  by (simp add: wrote_def layout_def in_log_def)

lemma slot_wrote: "wrote l l' ws \<Longrightarrow> slot l' t = slot l t"
  by (simp add: wrote_def slot_def)

lemma install_step:
  assumes q: "quiet l" and lay: "layout l" and t: "t < nat (lh_n l)"
  obtains l' where "wrote l l' [(lh_block l ! t, lview l (slot l t))]"
    "\<And>k. install_trans_loop (Suc k) t l = install_trans_loop k (t + 1) l'"
proof -
  have inv: "bio_inv (ldev l) (lbio l) {}" and c: "card (dirty_bufs (lbio l)) + 2 \<le> NBUF" using q by (simp_all add: quiet_def)
  have ab: "slot l t \<noteq> lh_block l ! t" "unat (slot l t) < FSSIZE" "unat (lh_block l ! t) < FSSIZE"
    using slot_not_logged [OF lay t t] slot_unat [OF lay t] lay t by (auto simp: layout_def)
  obtain i s1 j s2 where r: "bread 0 (ldev l) (slot l t) (lbio l) = Ret (Some (i, s1))" "bread 0 (ldev l) (lh_block l ! t) s1 = Ret (Some (j, s2))"
    "bio_inv (ldev l) s2 {i, j}" "i \<noteq> j" "at_block (ldev l) (slot l t) (bufs s2 ! i)" "at_block (ldev l) (lh_block l ! t) (bufs s2 ! j)"
    "bdata (bufs s2 ! i) = view (ldev l) (lbio l) (slot l t)"
    "view (ldev l) s2 = view (ldev l) (lbio l)" "disk s2 = disk (lbio l)" "trail s2 = trail (lbio l)" "dirty_bufs s2 = dirty_bufs (lbio l)"
    "\<not> dirty (bufs s2 ! i) \<longrightarrow> view (ldev l) (lbio l) (slot l t) = disk (lbio l) (ldev l) (unat (slot l t))"
    by (rule bread_two [OF inv c ab, of 0]) blast
  obtain u1 u2 u3 where w: "bwrite j (upd_buf j (\<lambda>b. b\<lparr>bdata := bdata (bufs s2 ! i)\<rparr>) s2) = Ret u1"
    "buf_cache_release i u1 = Ret u2" "buf_cache_release j u2 = Ret u3" "bio_inv (ldev l) u3 {}"
    "view (ldev l) u3 = (view (ldev l) s2)(lh_block l ! t := bdata (bufs s2 ! i))"
    "disk u3 = (disk s2)(ldev l := (disk s2 (ldev l))(unat (lh_block l ! t) := bdata (bufs s2 ! i)))"
    "trail u3 = (ldev l, unat (lh_block l ! t), bdata (bufs s2 ! i)) # trail s2" "dirty_bufs u3 = dirty_bufs s2 - {j}"
    by (rule write_and_release_two [OF r(3,4,5,6) ab(1,3), of "bdata (bufs s2 ! i)"]) (use r in auto)
  let ?cg = "bcgroup (bufs u1 ! j)"
  let ?l = "l\<lparr>file_dirty := (file_dirty l)(?cg := file_dirty l ?cg - 1),
    file_dirty_aggregated := (file_dirty_aggregated l)(?cg := file_dirty_aggregated l ?cg + 1), lbio := u3\<rparr>"
  have "card (dirty_bufs u3) + 2 \<le> NBUF"
    using c w(8) r(11) card_mono [of "dirty_bufs (lbio l)" "dirty_bufs (lbio l) - {j}"] by (simp add: dirty_bufs_def)
  then have "wrote l ?l [(lh_block l ! t, lview l (slot l t))]"
    using w r by (simp add: wrote_def quiet_def lview_def ldisk_def)
  moreover have "install_trans_loop (Suc k) t l = install_trans_loop k (t + 1) ?l" for k
    using r(1,2) w(1-3) by (simp add: lbread_def lbwrite_def lrelease_def lset_def lbuf_def Let_def)
  ultimately show ?thesis by (rule that)
qed

lemma write_log_step:
  assumes q: "quiet l" and lay: "layout l" and t: "t < nat (lh_n l)"
  obtains l' where "wrote l l' [(slot l t, lview l (lh_block l ! t))]"
    "\<And>k. write_log_loop (Suc k) t l = write_log_loop k (t + 1) l'"
proof -
  have inv: "bio_inv (ldev l) (lbio l) {}" and c: "card (dirty_bufs (lbio l)) + 2 \<le> NBUF" using q by (simp_all add: quiet_def)
  have ab: "slot l t \<noteq> lh_block l ! t" "unat (slot l t) < FSSIZE" "unat (lh_block l ! t) < FSSIZE"
    using slot_not_logged [OF lay t t] slot_unat [OF lay t] lay t by (auto simp: layout_def)
  obtain i s1 j s2 where r: "bread 0 (ldev l) (slot l t) (lbio l) = Ret (Some (i, s1))" "bread 0 (ldev l) (lh_block l ! t) s1 = Ret (Some (j, s2))"
    "bio_inv (ldev l) s2 {i, j}" "i \<noteq> j" "at_block (ldev l) (slot l t) (bufs s2 ! i)" "at_block (ldev l) (lh_block l ! t) (bufs s2 ! j)"
    "bdata (bufs s2 ! j) = view (ldev l) (lbio l) (lh_block l ! t)"
    "view (ldev l) s2 = view (ldev l) (lbio l)" "disk s2 = disk (lbio l)" "trail s2 = trail (lbio l)" "dirty_bufs s2 = dirty_bufs (lbio l)"
    "\<not> dirty (bufs s2 ! j) \<longrightarrow> view (ldev l) (lbio l) (lh_block l ! t) = disk (lbio l) (ldev l) (unat (lh_block l ! t))"
    by (rule bread_two [OF inv c ab, of 0]) blast
  have inv2: "bio_inv (ldev l) s2 {j, i}" using r(3) by (simp add: insert_commute)
  obtain u1 u2 u3 where w: "bwrite i (upd_buf i (\<lambda>b. b\<lparr>bdata := bdata (bufs s2 ! j)\<rparr>) s2) = Ret u1"
    "buf_cache_release j u1 = Ret u2" "buf_cache_release i u2 = Ret u3" "bio_inv (ldev l) u3 {}"
    "view (ldev l) u3 = (view (ldev l) s2)(slot l t := bdata (bufs s2 ! j))"
    "disk u3 = (disk s2)(ldev l := (disk s2 (ldev l))(unat (slot l t) := bdata (bufs s2 ! j)))"
    "trail u3 = (ldev l, unat (slot l t), bdata (bufs s2 ! j)) # trail s2" "dirty_bufs u3 = dirty_bufs s2 - {i}"
    by (rule write_and_release_two [OF inv2 r(4) [symmetric] r(6,5) ab(1) [symmetric] ab(2), of "bdata (bufs s2 ! j)"]) (use r in auto)
  have "card (dirty_bufs u3) + 2 \<le> NBUF"
    using c w(8) r(11) card_mono [of "dirty_bufs (lbio l)" "dirty_bufs (lbio l) - {i}"] by (simp add: dirty_bufs_def)
  then have "wrote l (l\<lparr>lbio := u3\<rparr>) [(slot l t, lview l (lh_block l ! t))]"
    using w r by (simp add: wrote_def quiet_def lview_def ldisk_def)
  moreover have "write_log_loop (Suc k) t l = write_log_loop k (t + 1) (l\<lparr>lbio := u3\<rparr>)" for k
    using r(1,2) w(1-3) by (simp add: lbread_def lbwrite_def lrelease_def lset_def lbuf_def Let_def)
  ultimately show ?thesis by (rule that)
qed

lemma install_trans_loop_wrote:
  assumes "quiet l" "layout l" "t + k \<le> nat (lh_n l)"
  shows "\<exists>l'. install_trans_loop k t l = Ret l' \<and> wrote l l' (map (\<lambda>t. (lh_block l ! t, lview l (slot l t))) [t..<t + k])"
  using assms
proof (induction k arbitrary: t l)
  case 0
  then show ?case by (auto intro: wrote_refl)
next
  case (Suc k)
  then have t: "t < nat (lh_n l)" by simp
  from install_step [OF Suc.prems(1,2) t] obtain l1 where
    w: "wrote l l1 [(lh_block l ! t, lview l (slot l t))]" and e: "install_trans_loop (Suc k) t l = install_trans_loop k (t + 1) l1" by metis
  have l1: "quiet l1" "layout l1" "t + 1 + k \<le> nat (lh_n l1)" "lh_block l1 = lh_block l" "\<And>t. slot l1 t = slot l t"
    using w Suc.prems layout_wrote [OF w] slot_wrote [OF w] by (auto simp: wrote_def)
  have "lview l1 (slot l t') = lview l (slot l t')" if "t' < nat (lh_n l)" for t'
    using w slot_not_logged [OF Suc.prems(2) that t] by (simp add: wrote_def)
  then have eq: "map (\<lambda>t. (lh_block l1 ! t, lview l1 (slot l1 t))) [t + 1..<t + 1 + k] =
      map (\<lambda>t. (lh_block l ! t, lview l (slot l t))) [t + 1..<t + Suc k]"
    using Suc.prems(3) l1(4,5) by auto
  from Suc.IH [OF l1(1-3)] obtain l' where "install_trans_loop k (t + 1) l1 = Ret l'"
      "wrote l1 l' (map (\<lambda>t. (lh_block l ! t, lview l (slot l t))) [t + 1..<t + Suc k])" unfolding eq by blast
  with w e show ?case using wrote_trans [OF w] upt_conv_Cons [of t "t + Suc k"] by fastforce
qed

lemma write_log_loop_wrote:
  assumes "quiet l" "layout l" "t + k \<le> nat (lh_n l)"
  shows "\<exists>l'. write_log_loop k t l = Ret l' \<and> wrote l l' (map (\<lambda>t. (slot l t, lview l (lh_block l ! t))) [t..<t + k])"
  using assms
proof (induction k arbitrary: t l)
  case 0
  then show ?case by (auto intro: wrote_refl)
next
  case (Suc k)
  then have t: "t < nat (lh_n l)" by simp
  from write_log_step [OF Suc.prems(1,2) t] obtain l1 where
    w: "wrote l l1 [(slot l t, lview l (lh_block l ! t))]" and e: "write_log_loop (Suc k) t l = write_log_loop k (t + 1) l1" by metis
  have l1: "quiet l1" "layout l1" "t + 1 + k \<le> nat (lh_n l1)" "lh_block l1 = lh_block l" "\<And>t. slot l1 t = slot l t"
    using w Suc.prems layout_wrote [OF w] slot_wrote [OF w] by (auto simp: wrote_def)
  have "lview l1 (lh_block l ! t') = lview l (lh_block l ! t')" if "t' < nat (lh_n l)" for t'
    using w slot_not_logged [OF Suc.prems(2) t that] by (simp add: wrote_def)
  then have eq: "map (\<lambda>t. (slot l1 t, lview l1 (lh_block l1 ! t))) [t + 1..<t + 1 + k] =
      map (\<lambda>t. (slot l t, lview l (lh_block l ! t))) [t + 1..<t + Suc k]"
    using Suc.prems(3) l1(4,5) by auto
  from Suc.IH [OF l1(1-3)] obtain l' where "write_log_loop k (t + 1) l1 = Ret l'"
      "wrote l1 l' (map (\<lambda>t. (slot l t, lview l (lh_block l ! t))) [t + 1..<t + Suc k])" unfolding eq by blast
  with w e show ?case using wrote_trans [OF w] upt_conv_Cons [of t "t + Suc k"] by fastforce
qed

section \<open>The header\<close>

lemma length_put32 [simp]: "length (put32 b a w) = length b"
  by (simp add: put32_def)

lemma get32_put32: "a + 4 \<le> length b \<Longrightarrow> get32 (put32 b a w) a = w"
  unfolding get32_def
  by (subst load32_cong [where m' = "store32 (\<lambda>i. b ! i) a w"]) (simp_all add: put32_def)

lemma get32_put32_other: "a + 4 \<le> length b \<Longrightarrow> a + 4 \<le> a' \<or> a' + 4 \<le> a \<Longrightarrow> get32 (put32 b a' w) a = get32 b a"
  unfolding get32_def by (rule load32_cong) (auto simp: put32_def)

lemma length_write_head_loop [simp]: "length (write_head_loop k i bs b) = length b"
  by (induction k arbitrary: i b) auto

lemma write_head_loop_other:
  "a + 4 \<le> length b \<Longrightarrow> a + 4 \<le> 4 + 4 * i \<Longrightarrow> get32 (write_head_loop k i bs b) a = get32 b a"
  by (induction k arbitrary: i b) (auto simp: get32_put32_other)

lemma write_head_loop_entry:
  "4 + 4 * (i + k) \<le> length b \<Longrightarrow> i \<le> t \<Longrightarrow> t < i + k \<Longrightarrow> get32 (write_head_loop k i bs b) (4 + 4 * t) = bs ! t"
proof (induction k arbitrary: i b)
  case (Suc k)
  show ?case
  proof (cases "t = i")
    case True
    then show ?thesis using Suc.prems write_head_loop_other [of "4 + 4 * i" "put32 b (4 + 4 * i) (bs ! i)" "i + 1" k bs]
      by (simp add: get32_put32)
  next
    case False
    then show ?thesis using Suc.prems Suc.IH [of "i + 1" "put32 b (4 + 4 * i) (bs ! i)"] by simp
  qed
qed simp

definition header :: "int \<Rightarrow> u32 list \<Rightarrow> block \<Rightarrow> block" where
  "header n bs b = write_head_loop (nat n) 0 bs (put32 b 0 (word_of_int n))"

lemma header_count: "4 + 4 * nat n \<le> length b \<Longrightarrow> 0 \<le> n \<Longrightarrow> n < 2 ^ 31 \<Longrightarrow> sint (get32 (header n bs b) 0) = n"
  using write_head_loop_other [of 0 "put32 b 0 (word_of_int n)" 0 "nat n" bs]
  by (simp add: header_def get32_put32 signed_of_int signed_take_bit_int_eq_self)

lemma header_entry: "4 + 4 * nat n \<le> length b \<Longrightarrow> t < nat n \<Longrightarrow> get32 (header n bs b) (4 + 4 * t) = bs ! t"
  using write_head_loop_entry [of 0 "nat n" "put32 b 0 (word_of_int n)" t bs] by (simp add: header_def)

lemma length_header [simp]: "length (header n bs b) = length b"
  by (simp add: header_def)

lemma write_head_wrote:
  assumes q: "quiet l" and st: "lstart l < FSSIZE"
  shows "\<exists>l'. write_head l = Ret l' \<and> wrote l l' [(of_nat (lstart l), header (lh_n l) (lh_block l) (lview l (of_nat (lstart l))))]"
proof -
  let ?n = "of_nat (lstart l) :: u32" and ?x = "header (lh_n l) (lh_block l) (lview l (of_nat (lstart l)))"
  have inv: "bio_inv (ldev l) (lbio l) {}" and c: "card ({} \<union> dirty_bufs (lbio l)) < NBUF" using q by (simp_all add: quiet_def)
  have n: "unat ?n < FSSIZE" using unat_small [OF st] st by simp
  obtain i s1 where 1: "bread 0 (ldev l) ?n (lbio l) = Ret (Some (i, s1))" "bio_inv (ldev l) s1 {i}"
    "at_block (ldev l) ?n (bufs s1 ! i)" "bdata (bufs s1 ! i) = lview l ?n" "view (ldev l) s1 = lview l" "disk s1 = disk (lbio l)"
    "trail s1 = trail (lbio l)" "dirty_bufs s1 = dirty_bufs (lbio l)"
    by (rule bread_inv [OF inv _ c n, of 0]) (auto simp: pinned_def lview_def)
  obtain s2 where 2: "bwrite i (upd_buf i (\<lambda>b. b\<lparr>bdata := ?x\<rparr>) s1) = Ret s2" "bio_inv (ldev l) s2 {i}"
    "view (ldev l) s2 = (view (ldev l) s1)(?n := ?x)" "disk s2 = (disk s1)(ldev l := (disk s1 (ldev l))(unat ?n := ?x))"
    "trail s2 = (ldev l, unat ?n, ?x) # trail s1" "dirty_bufs s2 = dirty_bufs s1 - {i}"
    "at_block (ldev l) ?n (bufs s2 ! i)" "bdata (bufs s2 ! i) = ?x"
    by (rule bwrite_inv [OF 1(2) _ 1(3) n, of ?x]) auto
  have cl: "bdata (bufs s2 ! i) = disk s2 (ldev l) (unat m)" if "at_block (ldev l) m (bufs s2 ! i)" for m
    using at_block_same [OF that 2(7)] 2(4,8) by simp
  obtain s3 where 3: "buf_cache_release i s2 = Ret s3" "bio_inv (ldev l) s3 {}" "view (ldev l) s3 = view (ldev l) s2"
    "disk s3 = disk s2" "trail s3 = trail s2" "dirty_bufs s3 = dirty_bufs s2"
    by (rule release_inv [OF 2(2), of i]) (use cl in \<open>auto simp: pinned_def\<close>)
  have "card (dirty_bufs s3) + 2 \<le> NBUF" using q 3(6) 2(6) 1(8)
      card_mono [of "dirty_bufs (lbio l)" "dirty_bufs (lbio l) - {i}"] by (simp add: dirty_bufs_def quiet_def)
  then have "wrote l (l\<lparr>lbio := s3\<rparr>) [(?n, ?x)]" using 1 2 3 by (simp add: wrote_def quiet_def lview_def ldisk_def)
  moreover have "write_head l = Ret (l\<lparr>lbio := s3\<rparr>)"
    using 1(1,4) 2(1) 3(1) by (simp add: write_head_def lbread_def lbwrite_def lrelease_def lset_def lbuf_def Let_def header_def)
  ultimately show ?thesis by blast
qed

lemma read_head_loop_ok:
  "i + k \<le> length bs \<Longrightarrow> \<exists>bs'. read_head_loop k i b bs = Ret bs' \<and> length bs' = length bs \<and>
     (\<forall>t. bs' ! t = (if i \<le> t \<and> t < i + k then get32 b (4 + 4 * t) else bs ! t))"
proof (induction k arbitrary: i bs)
  case (Suc k)
  then have "i + 1 + k \<le> length (bs[i := get32 b (4 + 4 * i)])" by simp
  from Suc.IH [OF this] Suc.prems show ?case by (auto simp: nth_list_update)
qed auto

lemma read_head_ok:
  assumes q: "quiet l" and st: "lstart l < FSSIZE" and len: "length (lh_block l) = LOGSIZE"
    and h: "h = lview l (of_nat (lstart l))" and n: "n = sint (get32 h 0)" "n \<le> int LOGSIZE"
    and cl: "\<forall>m. lview l m = ldisk l (unat m)"
  shows "\<exists>l' bs. read_head l = Ret l' \<and> wrote (l\<lparr>lh_n := n, lh_block := bs\<rparr>) l' [] \<and> length bs = LOGSIZE \<and>
    (\<forall>t<nat n. bs ! t = get32 h (4 + 4 * t))"
proof -
  let ?n = "of_nat (lstart l) :: u32"
  have inv: "bio_inv (ldev l) (lbio l) {}" and c: "card ({} \<union> dirty_bufs (lbio l)) < NBUF" using q by (simp_all add: quiet_def)
  have st': "unat ?n < FSSIZE" using unat_small [OF st] st by simp
  obtain i s1 where 1: "bread 0 (ldev l) ?n (lbio l) = Ret (Some (i, s1))" "bio_inv (ldev l) s1 {i}"
    "at_block (ldev l) ?n (bufs s1 ! i)" "bdata (bufs s1 ! i) = lview l ?n" "view (ldev l) s1 = lview l" "disk s1 = disk (lbio l)"
    "trail s1 = trail (lbio l)" "dirty_bufs s1 = dirty_bufs (lbio l)"
    by (rule bread_inv [OF inv _ c st', of 0]) (auto simp: pinned_def lview_def)
  have cl2: "bdata (bufs s1 ! i) = disk s1 (ldev l) (unat m)" if "at_block (ldev l) m (bufs s1 ! i)" for m
    using at_block_same [OF that 1(3)] 1(4,6) cl by (simp add: ldisk_def)
  obtain s3 where 3: "buf_cache_release i s1 = Ret s3" "bio_inv (ldev l) s3 {}" "view (ldev l) s3 = view (ldev l) s1"
    "disk s3 = disk s1" "trail s3 = trail s1" "dirty_bufs s3 = dirty_bufs s1"
    by (rule release_inv [OF 1(2), of i]) (use cl2 in \<open>auto simp: pinned_def\<close>)
  have "0 + nat n \<le> length (lh_block l)" using n(2) len by simp
  from read_head_loop_ok [OF this, of h] len obtain bs where
    bs: "read_head_loop (nat n) 0 h (lh_block l) = Ret bs" "length bs = LOGSIZE" "\<forall>t<nat n. bs ! t = get32 h (4 + 4 * t)" by auto
  have "read_head l = Ret (l\<lparr>lh_n := n, lh_block := bs, lbio := s3\<rparr>)"
    using 1(1,4) 3(1) bs(1) h n by (simp add: read_head_def lbread_def lrelease_def lbuf_def Let_def)
  moreover have "wrote (l\<lparr>lh_n := n, lh_block := bs\<rparr>) (l\<lparr>lh_n := n, lh_block := bs, lbio := s3\<rparr>) []"
    using 1 3 q by (simp add: wrote_def quiet_def lview_def ldisk_def)
  ultimately show ?thesis using bs by blast
qed

section \<open>Commit\<close>

text \<open>The writes of one commit: the log, the header, the home locations, the empty header.\<close>

definition log_writes :: "log \<Rightarrow> writes" where
  "log_writes l = map (\<lambda>t. (slot l t, lview l (lh_block l ! t))) [0..<nat (lh_n l)]"

definition home_writes :: "log \<Rightarrow> writes" where
  "home_writes l = map (\<lambda>t. (lh_block l ! t, lview l (lh_block l ! t))) [0..<nat (lh_n l)]"

definition full_header :: "log \<Rightarrow> block" where
  "full_header l = header (lh_n l) (lh_block l) (lview l (of_nat (lstart l)))"

definition commit_writes :: "log \<Rightarrow> writes" where
  "commit_writes l = log_writes l @ [(of_nat (lstart l), full_header l)] @ home_writes l @
     [(of_nat (lstart l), put32 (full_header l) 0 0)]"

lemma apply_view_distinct: "distinct (map fst ws) \<Longrightarrow> (n, x) \<in> set ws \<Longrightarrow> apply_view ws v n = x"
proof (induction ws rule: rev_induct)
  case (snoc w ws)
  then show ?case by (cases w) (force simp: apply_append)
qed simp

lemma apply_disk_distinct: "distinct (map fst ws) \<Longrightarrow> (n, x) \<in> set ws \<Longrightarrow> apply_disk ws d (unat n) = x"
proof (induction ws rule: rev_induct)
  case (snoc w ws)
  then show ?case
  proof (cases "w = (n, x)")
    case False
    then have "(n, x) \<in> set ws" using snoc.prems by auto
    moreover from this have "n \<noteq> fst w" using snoc.prems(1) by (metis (no_types, lifting) distinct_append disjoint_iff fst_conv image_eqI list.set_intros(1) list.simps(9) map_append set_map)
    then have "unat n \<noteq> unat (fst w)" by (simp add: word_unat_eq_iff)
    ultimately show ?thesis using snoc by (cases w) (simp add: apply_append)
  qed (simp add: apply_append)
qed simp

lemma apply_disk_Cons: "apply_disk ((n, x) # ws) d = apply_disk ws (d(unat n := x))"
  by (simp add: apply_disk_def)

lemma apply_disk_agree:
  assumes "\<forall>(n, x)\<in>set ws. x = g n"
  shows "apply_disk ws d m = (if m \<in> (unat \<circ> fst) ` set ws then g (of_nat m) else d m)"
  using assms
proof (induction ws rule: rev_induct)
  case (snoc w ws)
  then show ?case by (cases w) (auto simp: apply_append)
qed simp

lemma slot_inj: "layout l \<Longrightarrow> inj_on (slot l) {0..<nat (lh_n l)}"
  by (rule inj_onI) (metis add_right_cancel atLeastLessThan_iff slot_unat add.commute)

lemma start_not_slot:
  assumes "layout l" "t < nat (lh_n l)"
  shows "of_nat (lstart l) \<noteq> slot l t" "of_nat (lstart l) \<noteq> lh_block l ! t"
  using assms slot_unat [OF assms] unat_small [of "lstart l"] by (auto simp: layout_def in_log_def)

lemma layout_start: "layout l \<Longrightarrow> lstart l < FSSIZE"
  by (auto simp: layout_def)

lemma log_writes_view:
  assumes "layout l" "t < nat (lh_n l)"
  shows "apply_view (log_writes l) v (slot l t) = lview l (lh_block l ! t)"
proof (rule apply_view_distinct)
  show "distinct (map fst (log_writes l))" using slot_inj [OF assms(1)] by (simp add: log_writes_def distinct_map comp_def)
  show "(slot l t, lview l (lh_block l ! t)) \<in> set (log_writes l)" using assms(2) by (auto simp: log_writes_def)
qed

lemma fst_log_writes: "fst ` set (log_writes l) = slot l ` {0..<nat (lh_n l)}"
  by (force simp: log_writes_def)

lemma fst_home_writes: "fst ` set (home_writes l) = (\<lambda>t. lh_block l ! t) ` {0..<nat (lh_n l)}"
  by (force simp: home_writes_def)

lemma commit_wrote:
  assumes q: "quiet l" and lay: "layout l" and n: "0 < lh_n l"
  shows "\<exists>l'. commit l = Ret l' \<and> lh_n l' = 0 \<and> wrote (l\<lparr>lh_n := 0\<rparr>) l' (commit_writes l)"
proof -
  let ?s = "of_nat (lstart l) :: u32"
  from write_log_loop_wrote [OF q lay, of 0 "nat (lh_n l)"] obtain l1 where
    1: "write_log l = Ret l1" "wrote l l1 (log_writes l)" by (auto simp: write_log_def log_writes_def)
  have q1: "quiet l1" "layout l1" "lstart l1 = lstart l" "lh_n l1 = lh_n l" "lh_block l1 = lh_block l"
    using 1(2) lay layout_wrote [OF 1(2)] by (auto simp: wrote_def)
  have out: "?s \<notin> fst ` set (log_writes l)" "?s \<notin> fst ` set (home_writes l)"
    using start_not_slot [OF lay] unfolding fst_log_writes fst_home_writes by (metis atLeastLessThan_iff imageE)+
  have s1: "lview l1 ?s = lview l ?s" using 1(2) apply_view_other [OF out(1)] by (simp add: wrote_def)
  from write_head_wrote [OF q1(1) layout_start [OF q1(2)]] obtain l2 where
    2: "write_head l1 = Ret l2" "wrote l1 l2 [(?s, full_header l)]" by (auto simp: q1 s1 full_header_def)
  have q2: "quiet l2" "layout l2" "lstart l2 = lstart l" "lh_n l2 = lh_n l" "lh_block l2 = lh_block l" "\<And>t. slot l2 t = slot l t"
    using 2(2) q1 layout_wrote [OF 2(2)] by (auto simp: wrote_def slot_def)
  have v2: "lview l2 (slot l t) = lview l (lh_block l ! t)" if "t < nat (lh_n l)" for t
    using 1(2) 2(2) log_writes_view [OF lay that] start_not_slot(1) [OF lay that] by (simp add: wrote_def)
  then have m: "map (\<lambda>t. (lh_block l2 ! t, lview l2 (slot l2 t))) [0..<nat (lh_n l)] = home_writes l"
    by (simp add: home_writes_def q2)
  from install_trans_loop_wrote [OF q2(1,2), of 0 "nat (lh_n l)"] obtain l3 where
    3: "install_trans l2 = Ret l3" "wrote l2 l3 (home_writes l)"
    unfolding add_0 m by (auto simp: install_trans_def q2)
  have w3: "wrote l l3 (log_writes l @ [(?s, full_header l)] @ home_writes l)"
    using wrote_trans [OF 1(2) wrote_trans [OF 2(2) 3(2)]] by simp
  have "lview l3 ?s = full_header l"
    using 2(2) 3(2) apply_view_other [OF out(2), of "lview l2"] by (simp add: wrote_def)
  moreover have "quiet (l3\<lparr>lh_n := 0\<rparr>)" "lstart l3 < FSSIZE" "lstart l3 = lstart l"
    using w3 layout_start [OF lay] by (auto simp: wrote_def quiet_def)
  ultimately obtain l4 where 4: "write_head (l3\<lparr>lh_n := 0\<rparr>) = Ret l4" "wrote (l3\<lparr>lh_n := 0\<rparr>) l4 [(?s, put32 (full_header l) 0 0)]"
    using write_head_wrote [of "l3\<lparr>lh_n := 0\<rparr>"] by (auto simp: header_def lview_def)
  from wrote_trans [OF wrote_lh_n [OF w3] 4(2)] have "wrote (l\<lparr>lh_n := 0\<rparr>) l4 (commit_writes l)" by (simp add: commit_writes_def)
  moreover have "commit l = Ret l4" using n 1(1) 2(1) 3(1) 4(1) by (simp add: commit_def)
  moreover have "lh_n l4 = 0" using 4(2) by (simp add: wrote_def)
  ultimately show ?thesis by blast
qed

section \<open>Recovery\<close>

text \<open>The kernel's memory after a restart on a disk with contents \<open>d\<close>.\<close>

definition boot_log :: "(nat \<Rightarrow> nat \<Rightarrow> block) \<Rightarrow> log" where
  "boot_log d = \<lparr>lstart = 0, lsize = 0, outstanding = 0, committing = False, ldev = 0, lh_n = 0,
     lh_block = replicate LOGSIZE 0, lbio = boot_bio d, file_dirty = (\<lambda>_. 0), file_dirty_aggregated = (\<lambda>_. 0)\<rparr>"

lemma initlog_wrote:
  assumes dev: "dev \<noteq> 0" and fs: "start + sz \<le> FSSIZE" and h: "h = d dev start" and n: "n = sint (get32 h 0)" "0 \<le> n" "n \<le> int LOGSIZE" "n < int sz"
    and bl: "\<And>t. t < nat n \<Longrightarrow> unat (get32 h (4 + 4 * t)) < FSSIZE \<and> \<not> (start \<le> unat (get32 h (4 + 4 * t)) \<and> unat (get32 h (4 + 4 * t)) < start + sz)"
  shows "\<exists>r x. initlog start sz dev (boot_log d) = Ret r \<and> ldev r = dev \<and>
    ldisk r = apply_disk (map (\<lambda>t. (get32 h (4 + 4 * t), d dev (start + t + 1))) [0..<nat n] @ [(of_nat start, x)]) (d dev)"
proof -
  let ?l = "(boot_log d)\<lparr>lstart := start, lsize := sz, ldev := dev\<rparr>"
  have st: "start < FSSIZE" using fs n by linarith
  have q: "quiet ?l" using boot_bio_inv [OF dev, of d] by (simp add: quiet_def boot_log_def NBUF_def)
  have v: "\<forall>m. lview ?l m = ldisk ?l (unat m)" by (simp add: lview_def ldisk_def boot_log_def)
  have "h = lview ?l (of_nat (lstart ?l))" using h unat_small [OF st] by (simp add: lview_def boot_log_def)
  from read_head_ok [OF q _ _ this n(1,3) v] st obtain l1 bs where
    1: "read_head ?l = Ret l1" "wrote (?l\<lparr>lh_n := n, lh_block := bs\<rparr>) l1 []" "length bs = LOGSIZE" "\<forall>t<nat n. bs ! t = get32 h (4 + 4 * t)"
    by (auto simp: boot_log_def)
  have l1: "quiet l1" "ldev l1 = dev" "lstart l1 = start" "lsize l1 = sz" "lh_n l1 = n" "lh_block l1 = bs" "ldisk l1 = d dev"
      "\<And>m. lview l1 m = d dev (unat m)"
    using 1(2) by (auto simp: wrote_def lview_def ldisk_def boot_log_def)
  then have lay: "layout l1" using 1(3,4) bl n fs by (auto simp: layout_def in_log_def)
  have "lview l1 (slot l1 t) = d dev (start + t + 1)" if "t < nat n" for t
    using slot_unat [OF lay, of t] that l1 by simp
  then have m: "map (\<lambda>t. (lh_block l1 ! t, lview l1 (slot l1 t))) [0..<nat n] = map (\<lambda>t. (get32 h (4 + 4 * t), d dev (start + t + 1))) [0..<nat n]"
    using 1(4) l1 by simp
  from install_trans_loop_wrote [OF l1(1) lay, of 0 "nat n"] obtain l2 where
    2: "install_trans l1 = Ret l2" "wrote l1 l2 (map (\<lambda>t. (get32 h (4 + 4 * t), d dev (start + t + 1))) [0..<nat n])"
    using m l1(5) by (auto simp: install_trans_def)
  have "quiet (l2\<lparr>lh_n := 0\<rparr>)" "lstart l2 < FSSIZE" "lstart l2 = start" using 2(2) l1 st by (auto simp: wrote_def quiet_def)
  then obtain l3 x where 3: "write_head (l2\<lparr>lh_n := 0\<rparr>) = Ret l3" "wrote (l2\<lparr>lh_n := 0\<rparr>) l3 [(of_nat start, x)]"
    using write_head_wrote [of "l2\<lparr>lh_n := 0\<rparr>"] by auto
  have "ldisk l3 = apply_disk [(of_nat start, x)] (ldisk l2)" "ldev l3 = dev" using 3(2) 2(2) l1 by (auto simp: wrote_def ldisk_def)
  moreover have "ldisk l2 = apply_disk (map (\<lambda>t. (get32 h (4 + 4 * t), d dev (start + t + 1))) [0..<nat n]) (d dev)"
    using 2(2) l1 by (simp add: wrote_def)
  ultimately show ?thesis using 1(1) 2(1) 3(1)
    by (intro exI [of _ l3] exI [of _ x]) (simp add: initlog_def recover_from_log_def apply_append)
qed

section \<open>Crashes\<close>

text \<open>
  The contents of the home blocks before and after a transaction.
\<close>

definition old_block :: "log \<Rightarrow> nat \<Rightarrow> block" where
  "old_block l n = ldisk l n"

definition new_block :: "log \<Rightarrow> nat \<Rightarrow> block" where
  "new_block l n = (if n \<in> unat ` set (take (nat (lh_n l)) (lh_block l)) then lview l (of_nat n) else ldisk l n)"

text \<open>
  The writes the disk performed between two states, first one first, as \<open>trail\<close> recorded them, and the disk when
  the machine stops after \<open>c\<close> of them.
\<close>

definition block_writes :: "log \<Rightarrow> log \<Rightarrow> (nat \<times> nat \<times> block) list" where
  "block_writes l l' = rev (take (length (trail (lbio l')) - length (trail (lbio l))) (trail (lbio l')))"

definition crash_disk :: "log \<Rightarrow> log \<Rightarrow> nat \<Rightarrow> nat \<Rightarrow> nat \<Rightarrow> block" where
  "crash_disk l l' c = fold (\<lambda>(d, n, x) D. D(d := (D d)(n := x))) (take c (block_writes l l')) (disk (lbio l))"

lemma fold_one_disk: "fold (\<lambda>(d, n, x) D. D(d := (D d)(n := x))) (map (\<lambda>(n, x). (dev, unat n, x)) ws) D = D(dev := apply_disk ws (D dev))"
  by (induction ws arbitrary: D) (auto simp: apply_disk_def)

lemma block_writes_wrote:
  assumes "wrote l l' ws"
  shows "block_writes l l' = map (\<lambda>(n, x). (ldev l, unat n, x)) ws" "trail (lbio l') = rev (block_writes l l') @ trail (lbio l)"
    "crash_disk l l' c = (disk (lbio l))(ldev l := apply_disk (take c ws) (ldisk l))"
proof -
  show w: "block_writes l l' = map (\<lambda>(n, x). (ldev l, unat n, x)) ws" using assms by (simp add: wrote_def block_writes_def)
  show "trail (lbio l') = rev (block_writes l l') @ trail (lbio l)" using assms unfolding w by (simp add: wrote_def)
  show "crash_disk l l' c = (disk (lbio l))(ldev l := apply_disk (take c ws) (ldisk l))"
    unfolding crash_disk_def w take_map fold_one_disk by (simp add: ldisk_def)
qed

lemma writes_lh_n: "block_writes (l\<lparr>lh_n := n\<rparr>) l' = block_writes l l'" "crash_disk (l\<lparr>lh_n := n\<rparr>) l' c = crash_disk l l' c"
    "ldisk (l\<lparr>lh_n := n\<rparr>) = ldisk l"
  by (simp_all add: block_writes_def crash_disk_def ldisk_def)

lemma in_log_log_writes:
  assumes "layout l" "w \<in> set (log_writes l)"
  shows "in_log l (unat (fst w))" "unat (fst w) \<noteq> lstart l"
proof -
  obtain t where "t < nat (lh_n l)" "fst w = slot l t" using assms(2) by (auto simp: log_writes_def)
  then show "in_log l (unat (fst w))" "unat (fst w) \<noteq> lstart l" using slot_unat [OF assms(1), of t] by auto
qed

lemma logged_blocks: "layout l \<Longrightarrow> (unat \<circ> fst) ` set (home_writes l) = unat ` set (take (nat (lh_n l)) (lh_block l))"
  by (force simp: home_writes_def layout_def in_set_conv_nth image_iff)

lemma home_not_in_log: "layout l \<Longrightarrow> w \<in> set (home_writes l) \<Longrightarrow> \<not> in_log l (unat (fst w))"
  by (auto simp: home_writes_def layout_def)

text \<open>Stopped before the header is written, the log is empty.\<close>

lemma crash_before:
  assumes lay: "layout l" and c: "c \<le> nat (lh_n l)"
  shows "apply_disk (take c (commit_writes l)) (ldisk l) (lstart l) = ldisk l (lstart l)"
    "\<not> in_log l m \<Longrightarrow> apply_disk (take c (commit_writes l)) (ldisk l) m = ldisk l m"
proof -
  have t: "take c (commit_writes l) = take c (log_writes l)" using c by (simp add: commit_writes_def log_writes_def)
  have w: "in_log l (unat (fst w)) \<and> unat (fst w) \<noteq> lstart l" if "w \<in> set (take c (log_writes l))" for w
    using in_log_log_writes [OF lay] in_set_takeD [OF that] by blast
  show "apply_disk (take c (commit_writes l)) (ldisk l) (lstart l) = ldisk l (lstart l)"
    unfolding t by (rule apply_disk_other) (use w in \<open>force simp: image_iff\<close>)
  show "apply_disk (take c (commit_writes l)) (ldisk l) m = ldisk l m" if "\<not> in_log l m"
    unfolding t by (rule apply_disk_other) (use w that in \<open>force simp: image_iff\<close>)
qed

text \<open>Stopped between the header and its erasure, the log has the transaction.\<close>

lemma crash_between:
  assumes lay: "layout l" and c: "nat (lh_n l) < c" "c \<le> 2 * nat (lh_n l) + 1"
  defines "D \<equiv> apply_disk (take c (commit_writes l)) (ldisk l)"
  shows "D (lstart l) = full_header l"
    "t < nat (lh_n l) \<Longrightarrow> D (lstart l + t + 1) = lview l (lh_block l ! t)"
    "\<not> in_log l m \<Longrightarrow> m \<notin> unat ` set (take (nat (lh_n l)) (lh_block l)) \<Longrightarrow> D m = ldisk l m"
proof -
  let ?s = "of_nat (lstart l) :: u32"
  let ?H = "take (c - nat (lh_n l) - 1) (home_writes l)"
  have t: "take c (commit_writes l) = log_writes l @ [(?s, full_header l)] @ ?H"
  proof -
    have len: "length (log_writes l) = nat (lh_n l)" "length (home_writes l) = nat (lh_n l)"
      by (simp_all add: log_writes_def home_writes_def)
    have c': "c = length (log_writes l) + Suc (c - nat (lh_n l) - 1)" "c - nat (lh_n l) - 1 \<le> length (home_writes l)"
      using c len by simp_all
    show ?thesis unfolding commit_writes_def by (subst c'(1)) (use c'(2) len in simp)
  qed
  have H: "(unat \<circ> fst) ` set ?H \<subseteq> (unat \<circ> fst) ` set (home_writes l)" by (meson image_mono set_take_subset)
  have home: "\<not> in_log l n" if "n \<in> (unat \<circ> fst) ` set ?H" for n
    using that H home_not_in_log [OF lay] by fastforce
  have D: "D = apply_disk ?H ((apply_disk (log_writes l) (ldisk l))(lstart l := full_header l))"
    unfolding D_def t by (simp add: apply_append apply_disk_Cons unat_small [OF layout_start [OF lay]])
  have log: "D n = ((apply_disk (log_writes l) (ldisk l))(lstart l := full_header l)) n" if "in_log l n" for n
    unfolding D by (rule apply_disk_other) (use that home in blast)
  show "D (lstart l) = full_header l" using log [of "lstart l"] lay by (simp add: in_log_def layout_def)
  show "D (lstart l + t + 1) = lview l (lh_block l ! t)" if "t < nat (lh_n l)"
  proof -
    have "apply_disk (log_writes l) (ldisk l) (unat (slot l t)) = lview l (lh_block l ! t)"
      by (rule apply_disk_distinct) (use that slot_inj [OF lay] in \<open>auto simp: log_writes_def distinct_map comp_def\<close>)
    moreover have e: "unat (slot l t) = lstart l + t + 1" "in_log l (unat (slot l t))" using slot_unat [OF lay that] by auto
    moreover have "unat (slot l t) \<noteq> lstart l" using e by linarith
    ultimately have "D (unat (slot l t)) = lview l (lh_block l ! t)" using log [OF e(2)] by simp
    then show ?thesis by (simp only: e(1))
  qed
  show "D m = ldisk l m" if "\<not> in_log l m" "m \<notin> unat ` set (take (nat (lh_n l)) (lh_block l))"
  proof -
    have "m \<notin> (unat \<circ> fst) ` set ?H" using that H logged_blocks [OF lay] by blast
    moreover have "m \<notin> (unat \<circ> fst) ` set (log_writes l)" using that(1) in_log_log_writes(1) [OF lay] by auto
    moreover have "m \<noteq> lstart l" using that(1) lay by (auto simp: in_log_def layout_def)
    ultimately show ?thesis unfolding D by (simp add: apply_disk_other)
  qed
qed

text \<open>Stopped after the last write, the transaction is home and the log is empty.\<close>

lemma crash_after:
  assumes lay: "layout l" and c: "2 * nat (lh_n l) + 2 \<le> c"
  defines "D \<equiv> apply_disk (take c (commit_writes l)) (ldisk l)"
  shows "D (lstart l) = put32 (full_header l) 0 0" "\<not> in_log l m \<Longrightarrow> D m = new_block l m"
proof -
  let ?E = "(apply_disk (log_writes l) (ldisk l))(lstart l := full_header l)"
  have "take c (commit_writes l) = commit_writes l"
    using c by (simp add: commit_writes_def log_writes_def home_writes_def)
  then have D: "D = (apply_disk (home_writes l) ?E)(lstart l := put32 (full_header l) 0 0)"
    unfolding D_def by (simp add: commit_writes_def apply_append apply_disk_Cons unat_small [OF layout_start [OF lay]])
  then show "D (lstart l) = put32 (full_header l) 0 0" by simp
  assume m: "\<not> in_log l m"
  then have ne: "m \<noteq> lstart l" using lay by (auto simp: in_log_def layout_def)
  have "m \<notin> (unat \<circ> fst) ` set (log_writes l)" using m in_log_log_writes(1) [OF lay] by auto
  then have E: "?E m = ldisk l m" using ne by (simp add: apply_disk_other)
  have "apply_disk (home_writes l) ?E m = (if m \<in> (unat \<circ> fst) ` set (home_writes l) then lview l (of_nat m) else ?E m)"
    by (rule apply_disk_agree) (auto simp: home_writes_def)
  then show "D m = new_block l m" unfolding D E new_block_def logged_blocks [OF lay] using ne by simp
qed

text \<open>Recovery on a disk whose header is empty changes nothing outside the log.\<close>

lemma recover_empty:
  assumes "ldev l \<noteq> 0" "layout l" "get32 (D (lstart l)) 0 = 0"
  obtains r where "initlog (lstart l) (lsize l) (ldev l) (boot_log (d(ldev l := D))) = Ret r"
    "ldev r = ldev l" "\<And>m. \<not> in_log l m \<Longrightarrow> ldisk r m = D m"
proof -
  from initlog_wrote [of "ldev l" "lstart l" "lsize l" "D (lstart l)" "d(ldev l := D)" 0] assms obtain r x where
    r: "initlog (lstart l) (lsize l) (ldev l) (boot_log (d(ldev l := D))) = Ret r" "ldev r = ldev l"
      "ldisk r = apply_disk [(of_nat (lstart l), x)] D" by (auto simp: layout_def)
  have "ldisk r m = D m" if "\<not> in_log l m" for m
    using r(3) that assms(2) unat_small [OF layout_start [OF assms(2)]] by (auto simp: layout_def in_log_def)
  then show ?thesis using r that by blast
qed

lemma recover_full:
  assumes dev: "ldev l \<noteq> 0" and lay: "layout l" and len: "length (lview l (of_nat (lstart l))) = BSIZE"
    and D: "D (lstart l) = full_header l" "\<And>t. t < nat (lh_n l) \<Longrightarrow> D (lstart l + t + 1) = lview l (lh_block l ! t)"
    "\<And>m. \<not> in_log l m \<Longrightarrow> m \<notin> unat ` set (take (nat (lh_n l)) (lh_block l)) \<Longrightarrow> D m = ldisk l m"
  obtains r where "initlog (lstart l) (lsize l) (ldev l) (boot_log (d(ldev l := D))) = Ret r"
    "ldev r = ldev l" "\<And>m. \<not> in_log l m \<Longrightarrow> ldisk r m = new_block l m"
proof -
  have n: "0 \<le> lh_n l" "lh_n l \<le> int LOGSIZE" "lh_n l < int (lsize l)" using lay by (auto simp: layout_def)
  then have fit: "4 + 4 * nat (lh_n l) \<le> length (lview l (of_nat (lstart l)))" using len by (simp add: LOGSIZE_def BSIZE_def)
  have h: "sint (get32 (full_header l) 0) = lh_n l" "\<And>t. t < nat (lh_n l) \<Longrightarrow> get32 (full_header l) (4 + 4 * t) = lh_block l ! t"
    unfolding full_header_def using header_count [OF fit n(1)] header_entry [OF fit] n(2) by (simp_all add: LOGSIZE_def)
  let ?ws = "map (\<lambda>t. (get32 (full_header l) (4 + 4 * t), (d(ldev l := D)) (ldev l) (lstart l + t + 1))) [0..<nat (lh_n l)]"
  have hw: "?ws = home_writes l" using h(2) D(2) by (simp add: home_writes_def)
  have bl: "unat (get32 (full_header l) (4 + 4 * t)) < FSSIZE \<and>
      \<not> (lstart l \<le> unat (get32 (full_header l) (4 + 4 * t)) \<and> unat (get32 (full_header l) (4 + 4 * t)) < lstart l + lsize l)"
    if "t < nat (lh_n l)" for t using that lay h(2) [OF that] by (auto simp: layout_def in_log_def)
  have "lstart l + lsize l \<le> FSSIZE" "full_header l = (d(ldev l := D)) (ldev l) (lstart l)" using lay D(1) by (auto simp: layout_def)
  from initlog_wrote [where d = "d(ldev l := D)", OF dev this h(1) [symmetric] n bl] obtain r x where
    r: "initlog (lstart l) (lsize l) (ldev l) (boot_log (d(ldev l := D))) = Ret r" "ldev r = ldev l"
      "ldisk r = apply_disk (home_writes l @ [(of_nat (lstart l), x)]) D" unfolding hw by auto
  have "ldisk r m = new_block l m" if m: "\<not> in_log l m" for m
  proof -
    have ne: "m \<noteq> lstart l" using m lay by (auto simp: in_log_def layout_def)
    have "apply_disk (home_writes l) D m = (if m \<in> (unat \<circ> fst) ` set (home_writes l) then lview l (of_nat m) else D m)"
      by (rule apply_disk_agree) (auto simp: home_writes_def)
    then show ?thesis using r(3) ne D(3) [OF m] unfolding new_block_def logged_blocks [OF lay]
      by (simp add: apply_append unat_small [OF layout_start [OF lay]])
  qed
  then show ?thesis using r that by blast
qed

lemma crash_recovers:
  assumes "quiet l" "layout l" "get32 (ldisk l (lstart l)) 0 = 0" "length (lview l (of_nat (lstart l))) = BSIZE"
    and D: "D = apply_disk (take c (commit_writes l)) (ldisk l)"
  shows "\<exists>r. initlog (lstart l) (lsize l) (ldev l) (boot_log ((disk (lbio l))(ldev l := D))) = Ret r \<and> ldev r = ldev l \<and>
      (\<forall>n. \<not> in_log l n \<longrightarrow> ldisk r n = (if c \<le> nat (lh_n l) then old_block l n else new_block l n))"
proof -
  have dev: "ldev l \<noteq> 0" using assms(1) by (simp add: quiet_def bio_inv_def)
  consider "c \<le> nat (lh_n l)" | "nat (lh_n l) < c" "c \<le> 2 * nat (lh_n l) + 1" | "2 * nat (lh_n l) + 2 \<le> c" by linarith
  then show ?thesis
  proof cases
    case 1
    then have "get32 (D (lstart l)) 0 = 0" using crash_before(1) [OF assms(2) 1] assms(3) D by simp
    from recover_empty [where D = D and d = "disk (lbio l)", OF dev assms(2) this] obtain r where r:
        "initlog (lstart l) (lsize l) (ldev l) (boot_log ((disk (lbio l))(ldev l := D))) = Ret r" "ldev r = ldev l"
        "\<And>m. \<not> in_log l m \<Longrightarrow> ldisk r m = D m" by blast
    show ?thesis using 1 crash_before(2) [OF assms(2) 1] r by (intro exI [of _ r]) (auto simp: D old_block_def)
  next
    case 2
    from recover_full [where D = D and d = "disk (lbio l)", OF dev assms(2,4) crash_between [OF assms(2) 2, folded D]] obtain r where r:
        "initlog (lstart l) (lsize l) (ldev l) (boot_log ((disk (lbio l))(ldev l := D))) = Ret r" "ldev r = ldev l"
        "\<And>m. \<not> in_log l m \<Longrightarrow> ldisk r m = new_block l m" by blast
    show ?thesis using 2 r by (intro exI [of _ r]) auto
  next
    case 3
    have "4 \<le> length (full_header l)" using assms(4) by (simp add: full_header_def BSIZE_def)
    then have "get32 (D (lstart l)) 0 = 0" using crash_after(1) [OF assms(2) 3] D by (simp add: get32_put32)
    from recover_empty [where D = D and d = "disk (lbio l)", OF dev assms(2) this] obtain r where r:
        "initlog (lstart l) (lsize l) (ldev l) (boot_log ((disk (lbio l))(ldev l := D))) = Ret r" "ldev r = ldev l"
        "\<And>m. \<not> in_log l m \<Longrightarrow> ldisk r m = D m" by blast
    show ?thesis using 3 crash_after(2) [OF assms(2) 3] r by (intro exI [of _ r]) (auto simp: D)
  qed
qed

text \<open>
  Claim C1. Commit is atomic under crashes: \<open>commit\<close> never panics, and if the machine stops after
  any number of the block writes it performs, in the order it performs them, recovery at the next start succeeds and
  leaves the blocks outside the log either all as they were before the transaction or all as the
  transaction made them, the latter exactly when the header write had happened. The writes are those the disk recorded,
  and all of them together give the disk \<open>commit\<close> leaves.
\<close>

theorem commit_crash_atomic:
  assumes "quiet l" "layout l" "0 < lh_n l" "get32 (ldisk l (lstart l)) 0 = 0"
    "length (lview l (of_nat (lstart l))) = BSIZE"
  shows "\<exists>l'. commit l = Ret l' \<and> trail (lbio l') = rev (block_writes l l') @ trail (lbio l) \<and>
    ldisk l' = crash_disk l l' (length (block_writes l l')) (ldev l) \<and>
    (\<forall>c. \<exists>r. initlog (lstart l) (lsize l) (ldev l) (boot_log (crash_disk l l' c)) = Ret r \<and> ldev r = ldev l \<and>
      (\<forall>n. \<not> in_log l n \<longrightarrow> ldisk r n = (if c \<le> nat (lh_n l) then old_block l n else new_block l n)))"
proof -
  obtain l' where l': "commit l = Ret l'" "wrote (l\<lparr>lh_n := 0\<rparr>) l' (commit_writes l)" using commit_wrote [OF assms(1-3)] by blast
  have w: "block_writes l l' = map (\<lambda>(n, x). (ldev l, unat n, x)) (commit_writes l)" "trail (lbio l') = rev (block_writes l l') @ trail (lbio l)"
      "crash_disk l l' c = (disk (lbio l))(ldev l := apply_disk (take c (commit_writes l)) (ldisk l))" for c
    using block_writes_wrote [OF l'(2)] unfolding writes_lh_n by simp_all
  have "ldisk l' = apply_disk (commit_writes l) (ldisk l)" using l'(2) unfolding wrote_def writes_lh_n by blast
  then have "ldisk l' = crash_disk l l' (length (block_writes l l')) (ldev l)" by (simp add: w(1,3))
  moreover note w(2) l'(1)
  moreover have "\<exists>r. initlog (lstart l) (lsize l) (ldev l) (boot_log (crash_disk l l' c)) = Ret r \<and> ldev r = ldev l \<and>
      (\<forall>n. \<not> in_log l n \<longrightarrow> ldisk r n = (if c \<le> nat (lh_n l) then old_block l n else new_block l n))" for c
    unfolding w(3) by (rule crash_recovers [OF assms(1,2,4,5) refl])
  ultimately show ?thesis by blast
qed

section \<open>Log space\<close>

text \<open>
  System calls on the log. \<open>used\<close> has one entry per system call between \<open>begin_op\<close> and \<open>end_op\<close>:
  how often it has called \<open>log_write\<close>, at most \<open>MAXOPBLOCKS\<close> times.
\<close>

inductive log_step :: "log \<times> nat list \<Rightarrow> log \<times> nat list \<Rightarrow> bool" where
  enter: "begin_op l = Some l' \<Longrightarrow> log_step (l, used) (l', 0 # used)"
| log: "k < length used \<Longrightarrow> used ! k < MAXOPBLOCKS \<Longrightarrow> log_write None cg b l = Ret l' \<Longrightarrow>
    log_step (l, used) (l', used[k := used ! k + 1])"
| leave: "k < length used \<Longrightarrow> end_op_enter l = Ret (c, l') \<Longrightarrow>
    log_step (l, used) (l', take k used @ drop (k + 1) used)"
| committed: "committing l \<Longrightarrow> commit l = Ret l' \<Longrightarrow> log_step (l, used) (end_op_finish l', used)"

definition reserved :: "nat list \<Rightarrow> int" where
  "reserved used = sum_list (map (\<lambda>u. int MAXOPBLOCKS - int u) used)"

definition space_inv :: "log \<times> nat list \<Rightarrow> bool" where
  "space_inv = (\<lambda>(l, used). outstanding l = int (length used) \<and> 0 \<le> lh_n l \<and> (committing l \<longrightarrow> used = []) \<and>
     lh_n l + reserved used \<le> int LOGSIZE \<and> (\<forall>u\<in>set used. u \<le> MAXOPBLOCKS))"

lemma reserved_pos: "\<forall>u\<in>set used. u \<le> MAXOPBLOCKS \<Longrightarrow> 0 \<le> reserved used"
  by (auto simp: reserved_def intro!: sum_list_nonneg)

lemma reserved_le: "reserved used \<le> int MAXOPBLOCKS * int (length used)"
  by (induction used) (auto simp: reserved_def algebra_simps)

lemma reserved_update: "k < length used \<Longrightarrow> reserved (used[k := used ! k + 1]) = reserved used - 1"
proof (induction used arbitrary: k)
  case (Cons u us)
  then show ?case by (cases k) (auto simp: reserved_def)
qed simp

lemma reserved_remove:
  "k < length used \<Longrightarrow> reserved used = reserved (take k used @ drop (k + 1) used) + (int MAXOPBLOCKS - int (used ! k))"
proof (induction used arbitrary: k)
  case (Cons u us)
  then show ?case by (cases k) (auto simp: reserved_def)
qed simp

lemma log_write_room:
  assumes "log_write None cg b l = Ret l'"
  shows "(lh_n l' = lh_n l \<or> lh_n l' = lh_n l + 1) \<and> outstanding l' = outstanding l \<and> committing l' = committing l \<and>
    lsize l' = lsize l"
  using assms by (auto simp: log_write_def Let_def split: if_splits)

lemma reserved_member: "k < length used \<Longrightarrow> \<forall>u\<in>set used. u \<le> MAXOPBLOCKS \<Longrightarrow> int MAXOPBLOCKS - int (used ! k) \<le> reserved used"
  using reserved_remove [of k used] reserved_pos [of "take k used @ drop (k + 1) used"]
  by (auto dest: in_set_takeD in_set_dropD)

definition same_books :: "log \<Rightarrow> log \<Rightarrow> bool" where
  "same_books l l' = (outstanding l' = outstanding l \<and> committing l' = committing l \<and> lsize l' = lsize l \<and> lh_n l' = lh_n l)"

lemma same_books_trans: "same_books l l' \<Longrightarrow> same_books l' l'' \<Longrightarrow> same_books l l''"
  by (simp add: same_books_def)

lemma buffers_books:
  "lbread n l = Ret (i, l') \<Longrightarrow> same_books l l'" "lbwrite i l = Ret l' \<Longrightarrow> same_books l l'" "lrelease i l = Ret l' \<Longrightarrow> same_books l l'"
  "same_books l (lset i x l)" "same_books l (l\<lparr>file_dirty := f, file_dirty_aggregated := g\<rparr>)"
  by (auto simp: lbread_def lbwrite_def lrelease_def lset_def same_books_def bindO_Ret_iff split: option.splits)

lemma write_log_books: "write_log_loop k t l = Ret l' \<Longrightarrow> same_books l l'"
proof (induction k arbitrary: t l)
  case 0
  then show ?case by (simp add: same_books_def)
next
  case (Suc k)
  then obtain a l1 b l2 l3 l4 l5 where "lbread (slot l t) l = Ret (a, l1)" "lbread (lh_block l1 ! t) l1 = Ret (b, l2)"
      "lbwrite a (lset a (bdata (lbuf l2 b)) l2) = Ret l3" "lrelease b l3 = Ret l4" "lrelease a l4 = Ret l5"
      "write_log_loop k (t + 1) l5 = Ret l'" by (auto simp: bindO_Ret_iff)
  note books = buffers_books(1) [OF this(1)] buffers_books(1) [OF this(2)] buffers_books(2) [OF this(3)]
    buffers_books(3) [OF this(4)] buffers_books(3) [OF this(5)] Suc.IH [OF this(6)]
  then show ?case by (simp add: same_books_def lset_def)
qed

lemma install_trans_books: "install_trans_loop k t l = Ret l' \<Longrightarrow> same_books l l'"
proof (induction k arbitrary: t l)
  case 0
  then show ?case by (simp add: same_books_def)
next
  case (Suc k)
  then obtain a l1 b l2 l3 l4 l5 f g where "lbread (slot l t) l = Ret (a, l1)" "lbread (lh_block l1 ! t) l1 = Ret (b, l2)"
      "lbwrite b (lset b (bdata (lbuf l2 a)) l2) = Ret l3" "lrelease a (l3\<lparr>file_dirty := f, file_dirty_aggregated := g\<rparr>) = Ret l4"
      "lrelease b l4 = Ret l5" "install_trans_loop k (t + 1) l5 = Ret l'" by (auto simp: bindO_Ret_iff Let_def)
  note books = buffers_books(1) [OF this(1)] buffers_books(1) [OF this(2)] buffers_books(2) [OF this(3)]
    buffers_books(3) [OF this(4)] buffers_books(3) [OF this(5)] Suc.IH [OF this(6)]
  then show ?case by (simp add: same_books_def lset_def)
qed

lemma write_head_books: "write_head l = Ret l' \<Longrightarrow> same_books l l'"
  by (auto simp: write_head_def bindO_Ret_iff Let_def) (meson buffers_books same_books_trans)

lemma commit_books:
  assumes "commit l = Ret l'"
  shows "outstanding l' = outstanding l \<and> lsize l' = lsize l \<and> lh_n l' = min 0 (lh_n l)"
proof (cases "0 < lh_n l")
  case True
  with assms obtain l1 l2 l3 where "write_log l = Ret l1" "write_head l1 = Ret l2" "install_trans l2 = Ret l3"
      "write_head (l3\<lparr>lh_n := 0\<rparr>) = Ret l'" by (auto simp: commit_def bindO_Ret_iff)
  then have "same_books l l1" "same_books l1 l2" "same_books l2 l3" "same_books (l3\<lparr>lh_n := 0\<rparr>) l'"
    unfolding write_log_def install_trans_def by (blast intro: write_log_books install_trans_books write_head_books)+
  then show ?thesis using True by (simp add: same_books_def)
qed (use assms in \<open>auto simp: commit_def\<close>)

lemma log_step_space:
  assumes "log_step c c'" "space_inv c"
  shows "space_inv c' \<and> lsize (fst c') = lsize (fst c)"
  using assms
proof (induction rule: log_step.induct)
  case (enter l l' used)
  have "reserved (0 # used) = int MAXOPBLOCKS + reserved used" "reserved used \<le> int MAXOPBLOCKS * int (length used)"
    using reserved_le by (simp_all add: reserved_def)
  then show ?case using enter by (auto simp: begin_op_def space_inv_def algebra_simps split: if_splits)
next
  case (log k used cg b l l')
  have "\<forall>u\<in>set (used[k := used ! k + 1]). u \<le> MAXOPBLOCKS"
    using log by (auto simp: space_inv_def dest!: set_update_subset_insert [THEN subsetD])
  then show ?case using log log_write_room [OF log(3)] reserved_update [OF log(1)] by (auto simp: space_inv_def)
next
  case (leave k used l c l')
  have "\<forall>u\<in>set (take k used @ drop (k + 1) used). u \<le> MAXOPBLOCKS"
    using leave(3) by (auto simp: space_inv_def dest: in_set_takeD in_set_dropD)
  moreover have "used ! k \<le> MAXOPBLOCKS" using leave(1,3) by (simp add: space_inv_def)
  then have "lh_n l + reserved (take k used @ drop (k + 1) used) \<le> int LOGSIZE"
    using reserved_remove [OF leave(1)] leave(3) by (simp add: space_inv_def)
  moreover have "length used = 1 \<Longrightarrow> take k used @ drop (k + 1) used = []" using leave(1) by (cases used) auto
  moreover have "length (take k used @ drop (k + 1) used) = length used - 1" using leave(1) by simp
  ultimately show ?case using leave unfolding space_inv_def end_op_enter_def Let_def by (auto split: if_splits)
next
  case (committed l l' used)
  then show ?case using commit_books [OF committed(2)] by (auto simp: space_inv_def end_op_finish_def reserved_def)
qed

text \<open>
  Claim C18. The reservations of \<open>begin_op\<close> keep the log from overflowing when it has a block more
  than \<open>LOGSIZE\<close>: whatever system calls run, a \<open>log_write\<close> by a system call that has made fewer
  than \<open>MAXOPBLOCKS\<close> of them does not panic.
\<close>

theorem log_never_overflows:
  assumes "log_step\<^sup>*\<^sup>* (l0, []) (l, used)" "outstanding l0 = 0" "lh_n l0 = 0" "LOGSIZE < lsize l0"
    "k < length used" "used ! k < MAXOPBLOCKS"
  shows "returns (log_write None cg b l) \<and> lh_n l < int LOGSIZE"
proof -
  have "space_inv (l0, [])" using assms(2,3) by (simp add: space_inv_def reserved_def)
  with assms(1) have "space_inv (l, used) \<and> lsize l = lsize l0"
    by (induction "(l, used)" arbitrary: l used rule: rtranclp_induct)
      (use log_step_space in \<open>fastforce\<close>)+
  moreover from this have "lh_n l < int LOGSIZE" "1 \<le> outstanding l"
    using reserved_member [OF assms(5)] assms(5,6) by (auto simp: space_inv_def)
  ultimately show ?thesis using assms(4) by (auto simp: log_write_def Let_def)
qed

text \<open>A log of \<open>sz\<close> blocks from block 2 on, with buffer \<open>k\<close> holding block \<open>k\<close>.\<close>

definition fresh_log :: "nat \<Rightarrow> log" where
  "fresh_log sz = (boot_log (\<lambda>_ _. replicate BSIZE 0))\<lparr>lstart := 2, lsize := sz, ldev := 1,
     lbio := (boot_bio (\<lambda>_ _. replicate BSIZE 0))\<lparr>bufs := map (\<lambda>k. boot_buf\<lparr>bdev := 1, bid := blockno_id (of_nat k)\<rparr>) [0..<NBUF]\<rparr>\<rparr>"

theorem log_never_overflows_witness:
  "\<exists>l. log_step\<^sup>*\<^sup>* (fresh_log 31, []) (l, [0]) \<and> returns (log_write None 0 5 l)"
proof -
  let ?l = "(fresh_log 31)\<lparr>outstanding := 1\<rparr>"
  have "log_step (fresh_log 31, []) (?l, [0])"
    by (rule enter) (simp add: begin_op_def fresh_log_def boot_log_def LOGSIZE_def MAXOPBLOCKS_def)
  then have r: "log_step\<^sup>*\<^sup>* (fresh_log 31, []) (?l, [0])" by simp
  have "returns (log_write None 0 5 ?l) \<and> lh_n ?l < int LOGSIZE"
    by (rule log_never_overflows [OF r, of 0])
      (simp_all add: fresh_log_def boot_log_def LOGSIZE_def MAXOPBLOCKS_def)
  then show ?thesis using r by blast
qed

text \<open>The state after the first \<open>j\<close> blocks were logged.\<close>

definition logged :: "nat \<Rightarrow> log \<Rightarrow> bool" where
  "logged j l = (lh_n l = int j \<and> outstanding l = 3 \<and> lsize l = LOGSIZE \<and> \<not> committing l \<and> length (lh_block l) = LOGSIZE \<and>
     (\<forall>i<j. lh_block l ! i = of_nat i) \<and> length (bufs (lbio l)) = NBUF \<and> (\<forall>k<NBUF. bid (lbuf l k) = blockno_id (of_nat k)))"

lemma absorb_new: "(\<forall>t. i \<le> t \<longrightarrow> t < i + k \<longrightarrow> bs ! t \<noteq> b) \<Longrightarrow> absorb bs i k b = i + k"
  by (induction k arbitrary: i) auto

lemma logged_step:
  assumes "logged j l" "j < 29"
  shows "\<exists>l'. log_write None 0 j l = Ret l' \<and> logged (Suc j) l'"
proof -
  have bs: "\<forall>i<j. lh_block l ! i = of_nat i" using assms by (simp add: logged_def)
  have "(of_nat i :: u32) \<noteq> of_nat j" if "i < j" for i
    using that assms(2) unat_small [of i] unat_small [of j] by (auto simp: FSSIZE_def)
  then have "absorb (lh_block l) 0 j (of_nat j) = j" using bs absorb_new [of 0 j "lh_block l" "of_nat j"] by auto
  then show ?thesis using assms
    by (auto simp: log_write_def Let_def logged_def LOGSIZE_def lbuf_def NBUF_def less_Suc_eq)
qed

definition used_after :: "nat \<Rightarrow> nat list" where
  "used_after j = [min j 10, min (j - 10) 10, j - 20]"

lemma logged_reach:
  assumes "j \<le> 29"
  shows "\<exists>l. logged j l \<and> log_step\<^sup>*\<^sup>* (fresh_log LOGSIZE, []) (l, used_after j)"
  using assms
proof (induction j)
  case 0
  let ?l = "\<lambda>k. (fresh_log LOGSIZE)\<lparr>outstanding := k\<rparr>"
  note d = begin_op_def fresh_log_def boot_log_def LOGSIZE_def MAXOPBLOCKS_def
  have "log_step (fresh_log LOGSIZE, []) (?l 1, [0])" by (rule enter) (simp add: d)
  moreover have "log_step (?l 1, [0]) (?l 2, [0, 0])" by (rule enter) (simp add: d)
  moreover have "log_step (?l 2, [0, 0]) (?l 3, [0, 0, 0])" by (rule enter) (simp add: d)
  ultimately have "log_step\<^sup>*\<^sup>* (fresh_log LOGSIZE, []) (?l 3, used_after 0)"
    by (simp add: used_after_def)
  moreover have "logged 0 (?l 3)" by (simp add: logged_def fresh_log_def boot_log_def lbuf_def)
  ultimately show ?case by blast
next
  case (Suc j)
  then obtain l where l: "logged j l" "log_step\<^sup>*\<^sup>* (fresh_log LOGSIZE, []) (l, used_after j)" by auto
  with logged_step [OF l(1)] Suc.prems obtain l' where l': "log_write None 0 j l = Ret l'" "logged (Suc j) l'" by auto
  let ?k = "if j < 10 then 0 else if j < 20 then 1 else 2 :: nat"
  have "log_step (l, used_after j) (l', (used_after j)[?k := used_after j ! ?k + 1])"
    by (rule log [OF _ _ l'(1)]) (use Suc.prems in \<open>auto simp: used_after_def MAXOPBLOCKS_def\<close>)
  moreover have "(used_after j)[?k := used_after j ! ?k + 1] = used_after (Suc j)"
    using Suc.prems by (auto simp: used_after_def)
  ultimately show ?case using l l' by (metis rtranclp.rtrancl_into_rtrancl)
qed

text \<open>
  Claim C19. With the log that \<open>mkfs\<close> makes, of \<open>LOGSIZE\<close> blocks including its header, the
  reservation is one block too generous: three system calls that stay within \<open>MAXOPBLOCKS\<close> each
  can reach a state where the next \<open>log_write\<close> panics.
\<close>

theorem log_reservation_off_by_one:
  "\<exists>l used k. log_step\<^sup>*\<^sup>* (fresh_log LOGSIZE, []) (l, used) \<and> k < length used \<and> used ! k < MAXOPBLOCKS \<and>
     log_write None 0 29 l = Panic ''too big a transaction''"
proof -
  obtain l where l: "logged 29 l" "log_step\<^sup>*\<^sup>* (fresh_log LOGSIZE, []) (l, used_after 29)" using logged_reach [of 29] by auto
  have "log_write None 0 29 l = Panic ''too big a transaction''" using l(1) by (simp add: logged_def log_write_def LOGSIZE_def)
  moreover have "2 < length (used_after 29)" "used_after 29 ! 2 < MAXOPBLOCKS" by (simp_all add: used_after_def MAXOPBLOCKS_def)
  ultimately show ?thesis using l(2) by blast
qed

text \<open>A log with one logged block, 100, whose buffer has sevens where the disk has zeros.\<close>

definition sevens :: log where
  "sevens = (boot_log (\<lambda>_ _. replicate BSIZE 0))\<lparr>lstart := 2, lsize := LOGSIZE, ldev := 1, lh_n := 1, lh_block := 100 # replicate 29 0,
     lbio := upd_buf 0 (\<lambda>_. boot_buf\<lparr>bdev := 1, bid := blockno_id 100, bflags := 6, bdata := replicate BSIZE 7\<rparr>)
       (boot_bio (\<lambda>_ _. replicate BSIZE 0))\<rparr>"

lemma sevens_quiet: "quiet sevens"
proof -
  let ?b = "boot_buf\<lparr>bdev := 1, bid := blockno_id 100, bflags := 6, bdata := replicate BSIZE 7\<rparr>"
  let ?s = "boot_bio (\<lambda>_ _. replicate BSIZE 0)"
  note inv = boot_bio_inv [of 1 "\<lambda>_ _. replicate BSIZE 0", simplified]
  note len = bio_inv_len [OF inv] and us = bio_inv_unique [OF inv]
  have N: "0 < NBUF" "card {0 :: nat} + 2 \<le> NBUF" by (simp_all add: NBUF_def)
  have fl: "valid ?b" "dirty ?b" by (simp_all add: valid_def dirty_def B_VALID_def B_DIRTY_def)
  have none: "\<not> at_block 1 n (bufs ?s ! j)" "\<not> dirty (bufs ?s ! j)" if "j < NBUF" for n j
    using that by (simp_all add: boot_bio_def buf_cache_init_def boot_buf_def init_buf_def at_block_def dirty_def)
  have "unique_ids (upd_buf 0 (\<lambda>_. ?b) ?s)"
    by (rule unique_ids_set [of _ _ 1 100]) (use us N none in \<open>auto simp: at_block_def\<close>)
  moreover have "buf_ok 1 (upd_buf 0 (\<lambda>_. ?b) ?s) {} i" if "i < NBUF" for i
    using bio_inv_buf [OF inv that] that len fl by (cases "i = 0") (simp_all add: buf_ok_def boot_buf_def initsleeplock_def)
  ultimately have "bio_inv 1 (upd_buf 0 (\<lambda>_. ?b) ?s) {}" using inv by (simp add: bio_inv_def list_ok_def)
  moreover have "dirty_bufs (upd_buf 0 (\<lambda>_. ?b) ?s) = {0}"
    using len fl N none(2) by (auto simp: dirty_bufs_def split: if_splits)
  ultimately show ?thesis using N by (simp add: quiet_def sevens_def)
qed

lemma sevens_view: "lview sevens 100 = replicate BSIZE 7" "lview sevens 2 = replicate BSIZE 0" "ldisk sevens n = replicate BSIZE 0"
proof -
  have inv: "bio_inv 1 (lbio sevens) {}" using sevens_quiet by (simp add: quiet_def sevens_def)
  note len = bio_inv_len [OF inv] and us = bio_inv_unique [OF inv]
  have b0: "bufs (lbio sevens) ! 0 = boot_buf\<lparr>bdev := 1, bid := blockno_id 100, bflags := 6, bdata := replicate BSIZE 7\<rparr>"
    using len by (simp add: sevens_def NBUF_def)
  show "lview sevens 100 = replicate BSIZE 7" unfolding lview_def
    using view_cached [of "lbio sevens" 1 0 100] us b0 by (simp add: sevens_def at_block_def valid_def B_VALID_def NBUF_def)
  have "view 1 (lbio sevens) 2 = disk (lbio sevens) 1 (unat (2 :: u32))"
  proof (rule view_uncached)
    fix i assume "i < NBUF" "at_block 1 2 (bufs (lbio sevens) ! i)"
    then show "\<not> valid (bufs (lbio sevens) ! i)" using b0 len
      by (cases "i = 0") (auto simp: sevens_def boot_bio_def buf_cache_init_def boot_buf_def init_buf_def at_block_def)
  qed
  then show "lview sevens 2 = replicate BSIZE 0" by (simp add: lview_def sevens_def)
  show "ldisk sevens n = replicate BSIZE 0" by (simp add: ldisk_def sevens_def)
qed

theorem commit_crash_atomic_witness:
  "\<exists>l'. commit sevens = Ret l' \<and>
   (\<exists>r. initlog 2 LOGSIZE 1 (boot_log (crash_disk sevens l' 1)) = Ret r \<and> ldisk r 100 = replicate BSIZE 0) \<and>
   (\<exists>r. initlog 2 LOGSIZE 1 (boot_log (crash_disk sevens l' 2)) = Ret r \<and> ldisk r 100 = replicate BSIZE 7)"
proof -
  have f: "lstart sevens = 2" "lsize sevens = LOGSIZE" "ldev sevens = 1" "lh_n sevens = 1" "lh_block sevens = 100 # replicate 29 0"
    by (simp_all add: sevens_def)
  have lay: "layout sevens" by (simp add: layout_def f in_log_def LOGSIZE_def FSSIZE_def)
  have z: "get32 (ldisk sevens (lstart sevens)) 0 = 0" by (simp add: sevens_view get32_def load32_def BSIZE_def)
  have len: "length (lview sevens (of_nat (lstart sevens))) = BSIZE" by (simp add: sevens_view f)
  from commit_crash_atomic [OF sevens_quiet lay _ z len] obtain l' where l': "commit sevens = Ret l'"
    "\<And>c. \<exists>r. initlog 2 LOGSIZE 1 (boot_log (crash_disk sevens l' c)) = Ret r \<and> ldev r = 1 \<and>
      (\<forall>n. \<not> in_log sevens n \<longrightarrow> ldisk r n = (if c \<le> 1 then old_block sevens n else new_block sevens n))"
    unfolding f by auto
  have "\<not> in_log sevens 100" "old_block sevens 100 = replicate BSIZE 0" "new_block sevens 100 = replicate BSIZE 7"
    by (simp_all add: in_log_def f LOGSIZE_def old_block_def new_block_def sevens_view)
  then show ?thesis using l'(1) l'(2) [of 1] l'(2) [of 2] by (intro exI [of _ l']) auto
qed

end
