(* ===== verification/Obj_Disk.thy ===== *)
theory Obj_Disk
  imports Buf_Cache
begin

text \<open>
  The object store of \<open>kernel/device/obj_disk.c\<close>: a byte array that holds a super block, the table
  of objects and, behind \<open>store_offset\<close>, the objects' contents.

  Offsets and sizes are 32-bit words and wrap as in C. The storage is the memory addressed
  relative to the array, so an offset past its end or before its start names the bytes the code
  would touch there. An operation holds the device's lock from start to end and is one step. Buffers are passed as
  the list the vector of pointers denotes.
\<close>

section \<open>State\<close>

definition STORAGE_DEVICE_SIZE :: u32 where "STORAGE_DEVICE_SIZE = 327680"
definition INITIAL_OBJECT_TABLE_SIZE :: u32 where "INITIAL_OBJECT_TABLE_SIZE = 200"
definition MAX_OBJECT_NAME_LENGTH :: nat where "MAX_OBJECT_NAME_LENGTH = 20"
definition OBJ_ROOTINO :: nat where "OBJ_ROOTINO = 3"

text \<open>The sizes of \<open>struct objsuperblock\<close> and of a table entry.\<close>

definition SB_SIZE :: u32 where "SB_SIZE = 92"
definition ENTRY_SIZE :: u32 where "ENTRY_SIZE = 32"

datatype obj_err = NO_ERR | OBJECT_EXISTS | OBJECT_NOT_EXISTS | OBJECT_NAME_TOO_LONG | OBJECTS_TABLE_FULL
  | NO_DISK_SPACE_FOUND | BUFFER_TOO_SMALL

record obj_device =
  storage :: mem
  storage_device_size :: u32
  objects_table_offset :: u32
  last_inode :: u32
  bytes_occupied :: u32
  occupied_objects :: u32
  store_offset :: u32

text \<open>A name is the bytes before its terminator; \<open>cs\<close> reads it as C does.\<close>

type_synonym name = "u8 list"

definition cs :: "name \<Rightarrow> nat \<Rightarrow> u8" where
  "cs s k = (if k < length s then s ! k else 0)"

section \<open>The table\<close>

definition entry_index_to_entry_offset :: "obj_device \<Rightarrow> nat \<Rightarrow> u32" where
  "entry_index_to_entry_offset d i = objects_table_offset d + of_nat i * ENTRY_SIZE"

definition entry_at :: "obj_device \<Rightarrow> nat \<Rightarrow> nat" where
  "entry_at d i = unat (entry_index_to_entry_offset d i)"

definition object_id :: "obj_device \<Rightarrow> nat \<Rightarrow> nat \<Rightarrow> u8" where
  "object_id d i k = storage d (entry_at d i + k)"

definition disk_offset :: "obj_device \<Rightarrow> nat \<Rightarrow> u32" where
  "disk_offset d i = load32 (storage d) (entry_at d i + 20)"

definition osize :: "obj_device \<Rightarrow> nat \<Rightarrow> u32" where
  "osize d i = load32 (storage d) (entry_at d i + 24)"

definition occupied :: "obj_device \<Rightarrow> nat \<Rightarrow> bool" where
  "occupied d i = (load32 (storage d) (entry_at d i + 28) \<noteq> 0)"

definition set_disk_offset :: "nat \<Rightarrow> u32 \<Rightarrow> obj_device \<Rightarrow> obj_device" where
  "set_disk_offset i v d = d\<lparr>storage := store32 (storage d) (entry_at d i + 20) v\<rparr>"

definition set_osize :: "nat \<Rightarrow> u32 \<Rightarrow> obj_device \<Rightarrow> obj_device" where
  "set_osize i v d = d\<lparr>storage := store32 (storage d) (entry_at d i + 24) v\<rparr>"

definition set_occupied :: "nat \<Rightarrow> u32 \<Rightarrow> obj_device \<Rightarrow> obj_device" where
  "set_occupied i v d = d\<lparr>storage := store32 (storage d) (entry_at d i + 28) v\<rparr>"

text \<open>\<open>memmove\<close> of \<open>n\<close> bytes to offset \<open>a\<close>.\<close>

definition put_bytes :: "nat \<Rightarrow> (nat \<Rightarrow> u8) \<Rightarrow> nat \<Rightarrow> mem \<Rightarrow> mem" where
  "put_bytes a f n m = (\<lambda>x. if a \<le> x \<and> x < a + n then f (x - a) else m x)"

definition get_object_table_size :: "obj_device \<Rightarrow> u32" where
  "get_object_table_size d = (store_offset d - objects_table_offset d) div ENTRY_SIZE"

fun obj_id_cmp_loop :: "nat \<Rightarrow> nat \<Rightarrow> (nat \<Rightarrow> u8) \<Rightarrow> (nat \<Rightarrow> u8) \<Rightarrow> nat" where
  "obj_id_cmp_loop 0 i p q = i"
| "obj_id_cmp_loop (Suc k) i p q = (if p i \<noteq> 0 \<and> p i = q i then obj_id_cmp_loop k (i + 1) p q else i)"

definition obj_id_cmp :: "(nat \<Rightarrow> u8) \<Rightarrow> (nat \<Rightarrow> u8) \<Rightarrow> int" where
  "obj_id_cmp p q = (let i = obj_id_cmp_loop MAX_OBJECT_NAME_LENGTH 0 p q in sint (p i) - sint (q i))"

definition obj_id_bytes :: "name \<Rightarrow> nat" where
  "obj_id_bytes s = (if length s < MAX_OBJECT_NAME_LENGTH then length s + 1 else length s)"

definition get_objects_table_index :: "obj_device \<Rightarrow> name \<Rightarrow> nat option" where
  "get_objects_table_index d s =
    find (\<lambda>i. occupied d i \<and> obj_id_cmp (object_id d i) (cs s) = 0) [0..<unat (get_object_table_size d)]"

section \<open>Free space\<close>

definition swap :: "nat \<Rightarrow> nat \<Rightarrow> 'a list \<Rightarrow> 'a list" where
  "swap i j xs = xs[i := xs ! j, j := xs ! i]"

text \<open>\<open>bubble_sort\<close>: \<open>bubble_inner\<close> is its inner loop from \<open>j\<close> for \<open>k\<close> turns.\<close>

fun bubble_inner :: "('a \<Rightarrow> u32) \<Rightarrow> nat \<Rightarrow> nat \<Rightarrow> 'a list \<Rightarrow> 'a list" where
  "bubble_inner key 0 j xs = xs"
| "bubble_inner key (Suc k) j xs =
    bubble_inner key k (j + 1) (if key (xs ! (j + 1)) < key (xs ! j) then swap j (j + 1) xs else xs)"

fun bubble_outer :: "('a \<Rightarrow> u32) \<Rightarrow> nat \<Rightarrow> nat \<Rightarrow> 'a list \<Rightarrow> 'a list" where
  "bubble_outer key 0 m xs = xs"
| "bubble_outer key (Suc k) m xs = bubble_outer key k (m - 1) (bubble_inner key m 0 xs)"

definition bubble_sort :: "('a \<Rightarrow> u32) \<Rightarrow> 'a list \<Rightarrow> 'a list" where
  "bubble_sort key xs = (if 2 \<le> length xs then bubble_outer key (length xs - 1) (length xs - 1) xs else xs)"

text \<open>Step 4 of \<open>find_empty_space\<close>: the gap before entry \<open>i\<close>, from the right.\<close>

fun gap_loop :: "obj_device \<Rightarrow> nat list \<Rightarrow> u32 \<Rightarrow> nat \<Rightarrow> u32 option" where
  "gap_loop d es sz 0 = None"
| "gap_loop d es sz (Suc i) =
    (if sz \<le> disk_offset d (es ! Suc i) - disk_offset d (es ! i) - osize d (es ! i)
     then Some (disk_offset d (es ! Suc i) - sz) else gap_loop d es sz i)"

definition occupied_entries :: "obj_device \<Rightarrow> nat list" where
  "occupied_entries d = filter (occupied d) [2..<unat (get_object_table_size d)]"

definition entries_arr_size :: "obj_device \<Rightarrow> u32" where
  "entries_arr_size d =
    (let n = store_offset d - objects_table_offset d in
     (if STORAGE_DEVICE_SIZE < n then STORAGE_DEVICE_SIZE else n div ENTRY_SIZE) - 2)"

text \<open>
  The array of entries is on the stack: \<open>junk\<close> is what its last slot holds before it is filled.
\<close>

definition find_empty_space :: "u32 \<Rightarrow> u32 \<Rightarrow> obj_device \<Rightarrow> (u32 option \<times> obj_device) outcome" where
  "find_empty_space junk sz d =
    (let es = occupied_entries d; populated_size = length es in
     if unat (entries_arr_size d) < populated_size then Panic ''found too much entries vs expected''
     else if populated_size = 0 \<and> store_offset d \<le> STORAGE_DEVICE_SIZE - sz then Ret (Some (STORAGE_DEVICE_SIZE - sz), d)
     else if populated_size = 0 then Panic ''read before entries_indices''
     else
       let last_occupied_entry = (if populated_size = unat (entries_arr_size d) then of_nat (last es) else junk);
           es = bubble_sort (disk_offset d) es;
           l = es ! (populated_size - 1)
       in if sz \<le> storage_device_size d - disk_offset d l - osize d l then Ret (Some (STORAGE_DEVICE_SIZE - sz), d)
          else case gap_loop d es sz (populated_size - 1) of
            Some a \<Rightarrow> Ret (Some a, d)
          | None \<Rightarrow>
            let e = disk_offset d (es ! 0) in
            if sz \<le> e - store_offset d then Ret (Some (e - sz), d)
            else
              let needed_space = sz - (e - store_offset d);
                  offset_after_last_entry = objects_table_offset d + (last_occupied_entry + 1) * ENTRY_SIZE
              in if offset_after_last_entry < store_offset d - needed_space
                 then Ret (Some (store_offset d - needed_space), d\<lparr>store_offset := store_offset d - needed_space\<rparr>)
                 else Ret (None, d))"

section \<open>Operations\<close>

text \<open>The super block's bytes: the counters of \<open>sb\<close>; its file system part is left as it is.\<close>

definition write_super_block :: "obj_device \<Rightarrow> obj_device" where
  "write_super_block d =
    (let m = store32 (storage d) 0 (storage_device_size d);
         m = store32 m 4 (objects_table_offset d);
         m = store32 m 8 (last_inode d);
         m = store32 m 12 (bytes_occupied d);
         m = store32 m 16 (occupied_objects d);
         m = store32 m 88 (store_offset d)
     in d\<lparr>storage := m\<rparr>)"

fun copy_bufs_loop :: "buf list \<Rightarrow> u32 \<Rightarrow> u32 \<Rightarrow> u32 \<Rightarrow> mem \<Rightarrow> buf list \<times> mem" where
  "copy_bufs_loop [] address sz copied m = ([], m)"
| "copy_bufs_loop (b # bs) address sz copied m =
    (let block_size = (if sz - copied < of_nat BSIZE then sz - copied else of_nat BSIZE);
         m = put_bytes (unat (address + copied)) (\<lambda>k. bdata b ! k) (unat block_size) m;
         (bs, m) = copy_bufs_loop bs address sz (copied + block_size) m
     in (b\<lparr>bflags := bflags b AND NOT B_DIRTY\<rparr> # bs, m))"

definition copy_bufs_vector_to_disk :: "u32 \<Rightarrow> buf list \<Rightarrow> u32 \<Rightarrow> mem \<Rightarrow> buf list \<times> mem" where
  "copy_bufs_vector_to_disk address bs sz m = (if 0 < sz then copy_bufs_loop bs address sz 0 m else (bs, m))"

definition initialize_super_block_entry :: "obj_device \<Rightarrow> obj_device" where
  "initialize_super_block_entry d =
    (let d = d\<lparr>storage := put_bytes (entry_at d 0) (cs [1]) 2 (storage d)\<rparr>
     in set_occupied 0 1 (set_osize 0 SB_SIZE (set_disk_offset 0 0 d)))"

definition initialize_objects_table_entry :: "obj_device \<Rightarrow> obj_device" where
  "initialize_objects_table_entry d =
    (let d = d\<lparr>storage := put_bytes (entry_at d 1) (cs [2]) 2 (storage d)\<rparr>
     in set_occupied 1 1 (set_osize 1 (INITIAL_OBJECT_TABLE_SIZE * ENTRY_SIZE) (set_disk_offset 1 (objects_table_offset d) d)))"

definition init_obj_device :: "mem \<Rightarrow> obj_device" where
  "init_obj_device m =
    (let d = \<lparr>storage = m, storage_device_size = STORAGE_DEVICE_SIZE, objects_table_offset = SB_SIZE, last_inode = 2,
               bytes_occupied = SB_SIZE + INITIAL_OBJECT_TABLE_SIZE * ENTRY_SIZE, occupied_objects = 2,
               store_offset = SB_SIZE + INITIAL_OBJECT_TABLE_SIZE * ENTRY_SIZE\<rparr>;
         d = fold (\<lambda>i d. set_occupied i 0 d) [0..<unat (get_object_table_size d)] d
     in initialize_objects_table_entry (initialize_super_block_entry (write_super_block d)))"

definition find_space_and_populate_entry ::
  "u32 \<Rightarrow> nat \<Rightarrow> name \<Rightarrow> buf list \<Rightarrow> u32 \<Rightarrow> obj_device \<Rightarrow> (obj_err \<times> buf list \<times> obj_device) outcome" where
  "find_space_and_populate_entry junk i s bs sz d =
    bindO (find_empty_space junk sz d) (\<lambda>(r, d).
      case r of
        None \<Rightarrow> Ret (NO_DISK_SPACE_FOUND, bs, d)
      | Some address \<Rightarrow>
          let d = d\<lparr>storage := put_bytes (entry_at d i) (cs s) (obj_id_bytes s) (storage d)\<rparr>;
              d = set_osize i sz (set_disk_offset i address d);
              (bs, m) = copy_bufs_vector_to_disk address bs sz (storage d);
              d = set_occupied i 1 (d\<lparr>storage := m\<rparr>);
              d = d\<lparr>bytes_occupied := bytes_occupied d + sz, occupied_objects := occupied_objects d + 1\<rparr>
          in Ret (NO_ERR, bs, write_super_block d))"

definition check_add_object_validity :: "obj_device \<Rightarrow> u32 \<Rightarrow> name \<Rightarrow> obj_err" where
  "check_add_object_validity d sz s =
    (if MAX_OBJECT_NAME_LENGTH < length s then OBJECT_NAME_TOO_LONG
     else if STORAGE_DEVICE_SIZE < sz then NO_DISK_SPACE_FOUND
     else if \<exists>i\<in>set [0..<unat (get_object_table_size d)]. occupied d i \<and> obj_id_cmp (object_id d i) (cs s) = 0
       then OBJECT_EXISTS
     else NO_ERR)"

definition check_rewrite_object_validality :: "u32 \<Rightarrow> name \<Rightarrow> obj_err" where
  "check_rewrite_object_validality sz s =
    (if MAX_OBJECT_NAME_LENGTH < length s then OBJECT_NAME_TOO_LONG
     else if STORAGE_DEVICE_SIZE < sz then NO_DISK_SPACE_FOUND
     else NO_ERR)"

definition check_delete_object_validality :: "name \<Rightarrow> obj_err" where
  "check_delete_object_validality s = (if MAX_OBJECT_NAME_LENGTH < length s then OBJECT_NAME_TOO_LONG else NO_ERR)"

definition add_object :: "u32 \<Rightarrow> name \<Rightarrow> buf list \<Rightarrow> u32 \<Rightarrow> obj_device \<Rightarrow> (obj_err \<times> buf list \<times> obj_device) outcome" where
  "add_object junk s bs sz d =
    (if check_add_object_validity d sz s \<noteq> NO_ERR then Ret (check_add_object_validity d sz s, bs, d)
     else
       let n = unat (get_object_table_size d); is = [OBJ_ROOTINO - 1..<n] in
       case find (\<lambda>i. \<not> occupied d i) is of
         Some i \<Rightarrow> find_space_and_populate_entry junk i s bs sz d
       | None \<Rightarrow>
           let leftmost = fold (\<lambda>i a. if disk_offset d i < a then disk_offset d i else a) is STORAGE_DEVICE_SIZE in
           if ENTRY_SIZE \<le> leftmost - store_offset d then
             find_space_and_populate_entry junk (max (OBJ_ROOTINO - 1) n) s bs sz
               (d\<lparr>store_offset := store_offset d + ENTRY_SIZE, bytes_occupied := bytes_occupied d + ENTRY_SIZE\<rparr>)
           else Ret (OBJECTS_TABLE_FULL, bs, d))"

definition write_object :: "u32 \<Rightarrow> name \<Rightarrow> buf list \<Rightarrow> u32 \<Rightarrow> obj_device \<Rightarrow> (obj_err \<times> buf list \<times> obj_device) outcome" where
  "write_object junk s bs objectsize d =
    (if check_rewrite_object_validality objectsize s \<noteq> NO_ERR then Ret (check_rewrite_object_validality objectsize s, bs, d)
     else case get_objects_table_index d s of
       None \<Rightarrow> Ret (OBJECT_NOT_EXISTS, bs, d)
     | Some i \<Rightarrow>
         let finish = (\<lambda>address d.
               let (bs, m) = copy_bufs_vector_to_disk address bs objectsize (storage d);
                   d = d\<lparr>storage := m, bytes_occupied := bytes_occupied d + objectsize\<rparr>
               in Ret (NO_ERR, bs, write_super_block d));
             d = d\<lparr>bytes_occupied := bytes_occupied d - osize d i\<rparr>
         in if objectsize \<le> osize d i then finish (disk_offset d i) (set_osize i objectsize d)
            else
              let d = set_occupied i 0 d; d = d\<lparr>occupied_objects := occupied_objects d - 1\<rparr> in
              bindO (find_empty_space junk objectsize d) (\<lambda>(r, d).
                let d = set_occupied i 1 d; d = d\<lparr>occupied_objects := occupied_objects d + 1\<rparr> in
                case r of
                  None \<Rightarrow> Ret (NO_DISK_SPACE_FOUND, bs, d)
                | Some address \<Rightarrow> finish address (set_disk_offset i address (set_osize i objectsize d))))"

definition object_size :: "name \<Rightarrow> obj_device \<Rightarrow> obj_err \<times> u32 option" where
  "object_size s d =
    (if MAX_OBJECT_NAME_LENGTH < length s then (OBJECT_NAME_TOO_LONG, None)
     else case get_objects_table_index d s of
       None \<Rightarrow> (OBJECT_NOT_EXISTS, None)
     | Some i \<Rightarrow> (NO_ERR, Some (osize d i)))"

fun get_object_loop :: "buf list \<Rightarrow> u32 \<Rightarrow> u32 \<Rightarrow> u32 \<Rightarrow> mem \<Rightarrow> buf list" where
  "get_object_loop [] address sz copied m = []"
| "get_object_loop (b # bs) address sz copied m =
    (let block_size = (if sz - copied < of_nat BSIZE then sz - copied else of_nat BSIZE);
         a = unat (address + copied);
         x = map (\<lambda>k. if k < unat block_size then m (a + k) else bdata b ! k) [0..<length (bdata b)]
     in b\<lparr>bdata := x, bflags := bflags b OR B_VALID\<rparr> # get_object_loop bs address sz (copied + block_size) m)"

definition get_object :: "name \<Rightarrow> buf list \<Rightarrow> obj_device \<Rightarrow> obj_err \<times> buf list" where
  "get_object s bs d =
    (if MAX_OBJECT_NAME_LENGTH < length s then (OBJECT_NAME_TOO_LONG, bs)
     else case get_objects_table_index d s of
       None \<Rightarrow> (OBJECT_NOT_EXISTS, bs)
     | Some i \<Rightarrow>
         if of_nat (length bs * BSIZE) < osize d i then (BUFFER_TOO_SMALL, bs)
         else (NO_ERR, get_object_loop bs (disk_offset d i) (osize d i) 0 (storage d)))"

definition delete_object :: "name \<Rightarrow> obj_device \<Rightarrow> obj_err \<times> obj_device" where
  "delete_object s d =
    (if check_delete_object_validality s \<noteq> NO_ERR then (check_delete_object_validality s, d)
     else case get_objects_table_index d s of
       None \<Rightarrow> (OBJECT_NOT_EXISTS, d)
     | Some i \<Rightarrow>
         let d = set_occupied i 0 d;
             d = d\<lparr>occupied_objects := occupied_objects d - 1, bytes_occupied := bytes_occupied d - osize d i\<rparr>
         in (NO_ERR, write_super_block d))"

definition new_inode_number :: "obj_device \<Rightarrow> u32 \<times> obj_device" where
  "new_inode_number d = (let d = d\<lparr>last_inode := last_inode d + 1\<rparr> in (last_inode d, write_super_block d))"

definition set_occupied_objects :: "u32 \<Rightarrow> obj_device \<Rightarrow> obj_device" where
  "set_occupied_objects v d = write_super_block (d\<lparr>occupied_objects := v\<rparr>)"

definition set_store_offset :: "u32 \<Rightarrow> obj_device \<Rightarrow> obj_device" where
  "set_store_offset v d = write_super_block (d\<lparr>store_offset := v\<rparr>)"

definition device_size :: "obj_device \<Rightarrow> u32" where
  "device_size d = storage_device_size d"

definition occupied_bytes :: "obj_device \<Rightarrow> u32" where
  "occupied_bytes d = bytes_occupied d"

section \<open>Sorting\<close>

lemma mset_swap: "i < length xs \<Longrightarrow> j < length xs \<Longrightarrow> mset (swap i j xs) = mset xs"
  by (simp add: swap_def mset_swap)

lemma length_swap [simp]: "length (swap i j xs) = length xs"
  by (simp add: swap_def)

lemma nth_swap: "Suc j < length xs \<Longrightarrow> k < length xs \<Longrightarrow>
    swap j (Suc j) xs ! k = (if k = j then xs ! Suc j else if k = Suc j then xs ! j else xs ! k)"
  by (auto simp: swap_def nth_list_update)

text \<open>One pass of the inner loop moves the largest of the elements it visits to the end.\<close>

lemma bubble_inner_pass:
  assumes "j + k < length xs" "\<forall>t<j. key (xs ! t) \<le> key (xs ! j)"
  shows "length (bubble_inner key k j xs) = length xs \<and> mset (bubble_inner key k j xs) = mset xs \<and>
    (\<forall>t. j + k < t \<longrightarrow> t < length xs \<longrightarrow> bubble_inner key k j xs ! t = xs ! t) \<and>
    (\<forall>t<j + k. key (bubble_inner key k j xs ! t) \<le> key (bubble_inner key k j xs ! (j + k))) \<and>
    (\<forall>t\<le>j + k. \<exists>u\<le>j + k. bubble_inner key k j xs ! t = xs ! u)"
  using assms
proof (induction k arbitrary: j xs)
  case 0
  then show ?case by auto
next
  case (Suc k)
  let ?ys = "if key (xs ! (j + 1)) < key (xs ! j) then swap j (j + 1) xs else xs"
  have len: "length ?ys = length xs" and ms: "mset ?ys = mset xs" using Suc.prems(1) by (auto simp: mset_swap)
  have j: "Suc j < length xs" using Suc.prems(1) by simp
  have up: "\<forall>t<j + 1. key (?ys ! t) \<le> key (?ys ! (j + 1))"
  proof (intro allI impI)
    fix t assume "t < j + 1"
    then have "t < j \<or> t = j" by auto
    then show "key (?ys ! t) \<le> key (?ys ! (j + 1))" using Suc.prems(2) j
      by (auto simp: nth_swap [OF j] intro: order_trans less_imp_le)
  qed
  have out: "?ys ! t = xs ! t" if "j + 1 < t" "t < length xs" for t using that j by (simp add: nth_swap [OF j])
  have inside: "\<exists>u\<le>j + Suc k. ?ys ! t = xs ! u" if "t \<le> j + Suc k" for t
  proof (cases "key (xs ! (j + 1)) < key (xs ! j) \<and> (t = j \<or> t = j + 1)")
    case True
    then show ?thesis using j that Suc.prems(1) nth_swap [OF j, of t] by (intro exI [of _ "if t = j then j + 1 else j"]) auto
  next
    case False
    then show ?thesis using j that Suc.prems(1) nth_swap [OF j, of t] by (intro exI [of _ t]) auto
  qed
  let ?zs = "bubble_inner key k (j + 1) ?ys"
  have eq: "j + Suc k = j + 1 + k" "bubble_inner key (Suc k) j xs = ?zs" by simp_all
  have IH: "length ?zs = length ?ys \<and> mset ?zs = mset ?ys \<and>
    (\<forall>t. j + 1 + k < t \<longrightarrow> t < length ?ys \<longrightarrow> ?zs ! t = ?ys ! t) \<and>
    (\<forall>t<j + 1 + k. key (?zs ! t) \<le> key (?zs ! (j + 1 + k))) \<and> (\<forall>t\<le>j + 1 + k. \<exists>u\<le>j + 1 + k. ?zs ! t = ?ys ! u)"
    by (rule Suc.IH) (use Suc.prems(1) len up in auto)
  have "?zs ! t = xs ! t" if "j + 1 + k < t" "t < length xs" for t using IH out [of t] that len by auto
  moreover have "\<exists>u\<le>j + 1 + k. ?zs ! t = xs ! u" if "t \<le> j + 1 + k" for t using IH that inside unfolding eq(1) by metis
  ultimately show ?case unfolding eq using IH len ms by metis
qed

lemma bubble_outer_sorts:
  assumes "m < length xs" "k = m" "\<forall>t u. m < t \<longrightarrow> t \<le> u \<longrightarrow> u < length xs \<longrightarrow> key (xs ! t) \<le> key (xs ! u)"
    "\<forall>t u. t \<le> m \<longrightarrow> m < u \<longrightarrow> u < length xs \<longrightarrow> key (xs ! t) \<le> key (xs ! u)"
  shows "mset (bubble_outer key k m xs) = mset xs \<and>
    (\<forall>t u. t \<le> u \<longrightarrow> u < length xs \<longrightarrow> key (bubble_outer key k m xs ! t) \<le> key (bubble_outer key k m xs ! u))"
  using assms
proof (induction k arbitrary: m xs)
  case 0
  then show ?case by (auto simp: le_less) (metis gr0I le0)+
next
  case (Suc k)
  let ?ys = "bubble_inner key m 0 xs"
  have p: "length ?ys = length xs" "mset ?ys = mset xs" "\<And>t. m < t \<Longrightarrow> t < length xs \<Longrightarrow> ?ys ! t = xs ! t"
      "\<And>t. t < m \<Longrightarrow> key (?ys ! t) \<le> key (?ys ! m)" "\<And>t. t \<le> m \<Longrightarrow> \<exists>u\<le>m. ?ys ! t = xs ! u"
    using bubble_inner_pass [of 0 m xs key] Suc.prems(1) by auto
  have low: "key (?ys ! t) \<le> key (?ys ! u)" if "t \<le> m" "m < u" "u < length xs" for t u
    using p(3) [OF that(2,3)] p(5) [OF that(1)] Suc.prems(4) that by metis
  have k: "k = m - 1" "m - 1 < length ?ys" using Suc.prems(1,2) p(1) by auto
  have hi: "key (?ys ! t) \<le> key (?ys ! u)" if "m - 1 < t" "t \<le> u" "u < length ?ys" for t u
  proof (cases "t = m")
    case True
    then show ?thesis using low [of m u] that p(1) by (cases "u = m") auto
  next
    case False
    then show ?thesis using p(1,3) that Suc.prems(2,3) by auto
  qed
  have mid: "key (?ys ! t) \<le> key (?ys ! u)" if "t \<le> m - 1" "m - 1 < u" "u < length ?ys" for t u
  proof (cases "u = m")
    case True
    then show ?thesis using p(4) that Suc.prems(2) by auto
  next
    case False
    then show ?thesis using low [of t u] that p(1) by auto
  qed
  have "mset (bubble_outer key k (m - 1) ?ys) = mset ?ys \<and> (\<forall>t u. t \<le> u \<longrightarrow> u < length ?ys \<longrightarrow>
      key (bubble_outer key k (m - 1) ?ys ! t) \<le> key (bubble_outer key k (m - 1) ?ys ! u))"
    by (rule Suc.IH [OF k(2,1)]) (use hi mid in blast)+
  then show ?case using p(1,2) by simp
qed

lemma bubble_sort_both: "sorted (map key (bubble_sort key xs)) \<and> mset (bubble_sort key xs) = mset xs"
proof (cases "2 \<le> length xs")
  case True
  then have "mset (bubble_outer key (length xs - 1) (length xs - 1) xs) = mset xs \<and>
    (\<forall>t u. t \<le> u \<longrightarrow> u < length xs \<longrightarrow>
      key (bubble_outer key (length xs - 1) (length xs - 1) xs ! t) \<le> key (bubble_outer key (length xs - 1) (length xs - 1) xs ! u))"
    by (intro bubble_outer_sorts) auto
  moreover from this have "length (bubble_outer key (length xs - 1) (length xs - 1) xs) = length xs" by (metis size_mset)
  ultimately show ?thesis using True by (simp add: bubble_sort_def sorted_iff_nth_mono)
next
  case False
  then show ?thesis by (cases xs; cases "tl xs") (auto simp: bubble_sort_def)
qed

lemmas bubble_sort_spec = bubble_sort_both [THEN conjunct1] bubble_sort_both [THEN conjunct2]

text \<open>
  Claim C22. \<open>bubble_sort\<close> sorts: its result is a permutation of the entries in which the offsets
  on disk do not decrease.
\<close>

theorem bubble_sort_sorts: "sorted (map key (bubble_sort key xs)) \<and> mset (bubble_sort key xs) = mset xs"
  using bubble_sort_spec by blast

section \<open>Placing objects\<close>

definition off :: "obj_device \<Rightarrow> nat \<Rightarrow> nat" where
  "off d i = unat (disk_offset d i)"

definition fin :: "obj_device \<Rightarrow> nat \<Rightarrow> nat" where
  "fin d i = off d i + unat (osize d i)"

text \<open>
  A well-formed device: the objects lie in the store, apart from each other, and objects at the
  same offset are empty.
\<close>

definition obj_wf :: "obj_device \<Rightarrow> bool" where
  "obj_wf d = (storage_device_size d = STORAGE_DEVICE_SIZE \<and>
     (\<forall>i\<in>set (occupied_entries d). unat (store_offset d) \<le> off d i \<and> fin d i \<le> unat STORAGE_DEVICE_SIZE) \<and>
     (\<forall>i\<in>set (occupied_entries d). \<forall>j\<in>set (occupied_entries d). i \<noteq> j \<longrightarrow>
        (fin d i \<le> off d j \<or> fin d j \<le> off d i) \<and> (off d i = off d j \<longrightarrow> osize d i = 0 \<and> osize d j = 0)))"

definition fits :: "obj_device \<Rightarrow> nat \<Rightarrow> nat \<Rightarrow> bool" where
  "fits d a n = (a + n \<le> unat STORAGE_DEVICE_SIZE \<and> (\<forall>i\<in>set (occupied_entries d). fin d i \<le> a \<or> a + n \<le> off d i))"

lemma sorted_entries:
  assumes wf: "obj_wf d" and es: "es = bubble_sort (disk_offset d) (occupied_entries d)"
  shows "set es = set (occupied_entries d)" "length es = length (occupied_entries d)"
    "\<And>t u. t < u \<Longrightarrow> u < length es \<Longrightarrow> fin d (es ! t) \<le> off d (es ! u)"
proof -
  have ms: "mset es = mset (occupied_entries d)" using bubble_sort_spec(2) es by blast
  then show set_es: "set es = set (occupied_entries d)" by (metis set_mset_mset)
  show "length es = length (occupied_entries d)" using ms by (metis size_mset)
  have dist: "distinct es" using ms by (metis distinct_filter distinct_upt mset_eq_imp_distinct_iff occupied_entries_def)
  fix t u assume tu: "t < u" "u < length es"
  have ne: "es ! t \<noteq> es ! u" using dist tu by (simp add: nth_eq_iff_index_eq)
  have mem: "es ! t \<in> set (occupied_entries d)" "es ! u \<in> set (occupied_entries d)" using tu set_es nth_mem [of t es] nth_mem [of u es] by auto
  have "off d (es ! t) \<le> off d (es ! u)"
    using bubble_sort_spec(1) [of "disk_offset d" "occupied_entries d"] tu
    by (simp add: es [symmetric] sorted_iff_nth_mono off_def word_le_nat_alt)
  moreover have "(fin d (es ! t) \<le> off d (es ! u) \<or> fin d (es ! u) \<le> off d (es ! t)) \<and>
      (off d (es ! t) = off d (es ! u) \<longrightarrow> osize d (es ! t) = 0)" using wf ne mem unfolding obj_wf_def by blast
  ultimately show "fin d (es ! t) \<le> off d (es ! u)" by (auto simp: fin_def)
qed

lemma fits_sorted:
  assumes "set es = set (occupied_entries d)" "\<And>t u. t < u \<Longrightarrow> u < length es \<Longrightarrow> fin d (es ! t) \<le> off d (es ! u)"
    "i < length es" "a + n \<le> off d (es ! i)" "\<And>t. t < i \<Longrightarrow> fin d (es ! t) \<le> a" "obj_wf d"
  shows "fits d a n"
  unfolding fits_def
proof (intro conjI ballI)
  have "es ! i \<in> set (occupied_entries d)" using assms(1,3) nth_mem by blast
  then have "fin d (es ! i) \<le> unat STORAGE_DEVICE_SIZE" using assms(6) by (simp add: obj_wf_def)
  then show "a + n \<le> unat STORAGE_DEVICE_SIZE" using assms(4) by (simp add: fin_def)
  fix k assume "k \<in> set (occupied_entries d)"
  then obtain t where t: "t < length es" "k = es ! t" using assms(1) by (metis in_set_conv_nth)
  consider "t < i" | "t = i" | "i < t" by linarith
  then show "fin d k \<le> a \<or> a + n \<le> off d k"
  proof cases
    case 3
    then have "fin d (es ! i) \<le> off d k" using assms(2) t by simp
    then show ?thesis using assms(4) by (simp add: fin_def)
  qed (use t assms(4,5) in auto)
qed

lemma gap_loop_fits:
  assumes "gap_loop d es sz i = Some a" "i < length es" "set es = set (occupied_entries d)"
    "\<And>t u. t < u \<Longrightarrow> u < length es \<Longrightarrow> fin d (es ! t) \<le> off d (es ! u)" "obj_wf d"
  shows "fits d (unat a) (unat sz) \<and> unat (store_offset d) \<le> unat a"
  using assms(1,2)
proof (induction i)
  case (Suc i)
  let ?gap = "disk_offset d (es ! Suc i) - disk_offset d (es ! i) - osize d (es ! i)"
  have le: "fin d (es ! i) \<le> off d (es ! Suc i)" using assms(4) [of i "Suc i"] Suc.prems(2) by simp
  show ?case
  proof (cases "sz \<le> ?gap")
    case True
    then have a: "a = disk_offset d (es ! Suc i) - sz" using Suc.prems(1) by simp
    have "unat ?gap = off d (es ! Suc i) - fin d (es ! i)"
      using le unfolding fin_def off_def by (simp add: unat_sub_if_size)
    then have g: "unat sz + fin d (es ! i) \<le> off d (es ! Suc i)" using True le by (simp add: word_le_nat_alt)
    then have ua: "unat a + unat sz = off d (es ! Suc i)" unfolding a off_def by (simp add: unat_sub word_le_nat_alt)
    have "fin d (es ! t) \<le> unat a" if "t < Suc i" for t
    proof (cases "t = i")
      case False
      then have "fin d (es ! t) \<le> off d (es ! i)" using assms(4) that Suc.prems(2) by simp
      then show ?thesis using g ua by (simp add: fin_def)
    qed (use g ua in simp)
    then have "fits d (unat a) (unat sz)" using ua Suc.prems(2) by (intro fits_sorted [OF assms(3,4) Suc.prems(2) _ _ assms(5)]) auto
    moreover have "es ! i \<in> set (occupied_entries d)" using assms(3) Suc.prems(2) nth_mem [of i es] by simp
    then have "unat (store_offset d) \<le> off d (es ! i)" using assms(5) by (simp add: obj_wf_def)
    then have "unat (store_offset d) \<le> unat a" using g ua by (simp add: fin_def)
    ultimately show ?thesis by blast
  qed (use Suc in simp)
qed simp

lemma find_empty_space_cases:
  assumes "find_empty_space junk sz d = Ret (Some a, d')" "occupied_entries d \<noteq> []"
    "es = bubble_sort (disk_offset d) (occupied_entries d)"
  defines "l \<equiv> es ! (length (occupied_entries d) - 1)" and "e \<equiv> disk_offset d (es ! 0)"
  shows "(sz \<le> storage_device_size d - disk_offset d l - osize d l \<and> a = STORAGE_DEVICE_SIZE - sz \<and> d' = d)
    \<or> (gap_loop d es sz (length (occupied_entries d) - 1) = Some a \<and> d' = d)
    \<or> (sz \<le> e - store_offset d \<and> a = e - sz \<and> d' = d)
    \<or> (\<not> sz \<le> e - store_offset d \<and> a = store_offset d - (sz - (e - store_offset d)) \<and> d' = d\<lparr>store_offset := a\<rparr>)"
  using assms(1,2) unfolding find_empty_space_def Let_def assms(3) [symmetric] l_def e_def
  by (simp split: if_split_asm option.split_asm) auto

lemma find_empty_space_fits:
  assumes wf: "obj_wf d" and r: "find_empty_space junk sz d = Ret (Some a, d')" and sz: "sz \<le> STORAGE_DEVICE_SIZE"
    and mono: "store_offset d' \<le> store_offset d"
  shows "fits d (unat a) (unat sz) \<and> unat (store_offset d') \<le> unat a"
proof -
  let ?S = "STORAGE_DEVICE_SIZE" and ?n = "length (occupied_entries d)"
  obtain es where es: "es = bubble_sort (disk_offset d) (occupied_entries d)" by blast
  note so = sorted_entries [OF wf es]
  have uS: "unat (?S - sz) + unat sz = unat ?S" using sz by (simp add: unat_sub word_le_nat_alt)
  show ?thesis
  proof (cases "occupied_entries d = []")
    case True
    then show ?thesis using r uS
      by (auto simp: find_empty_space_def fits_def word_le_nat_alt split: if_splits)
  next
    case False
    then have n: "?n - 1 < length es" "0 < length es" using so(2) by auto
    let ?l = "es ! (?n - 1)" and ?e = "disk_offset d (es ! 0)"
    have mem: "?l \<in> set (occupied_entries d)" "es ! 0 \<in> set (occupied_entries d)" using n so(1) nth_mem by blast+
    then have b: "fin d ?l \<le> unat ?S" "unat (store_offset d) \<le> off d ?l" "unat (store_offset d) \<le> off d (es ! 0)"
      "storage_device_size d = ?S" using wf by (auto simp: obj_wf_def)
    have ul: "unat (?S - disk_offset d ?l - osize d ?l) = unat ?S - fin d ?l"
      using b(1) unfolding fin_def off_def by (simp add: unat_sub_if_size)
    have ends: "fin d k \<le> fin d ?l" if "k \<in> set (occupied_entries d)" for k
    proof -
      have "k \<in> set es" using that so(1) by blast
      then obtain t where t: "t < length es" "k = es ! t" by (auto simp: in_set_conv_nth)
      show ?thesis
      proof (cases "t = ?n - 1")
        case False
        then have "t < ?n - 1" using t(1) so(2) by linarith
        from so(3) [OF this n(1)] show ?thesis using t(2) by (simp add: fin_def)
      qed (use t in simp)
    qed
    have last: "fits d (unat (?S - sz)) (unat sz)" "unat (store_offset d) \<le> unat (?S - sz)"
      if "sz \<le> storage_device_size d - disk_offset d ?l - osize d ?l"
    proof -
      have "fin d ?l \<le> unat (?S - sz)" using that ul b(1,4) uS by (simp add: word_le_nat_alt)
      then show "fits d (unat (?S - sz)) (unat sz)" "unat (store_offset d) \<le> unat (?S - sz)"
        using uS ends b(2) by (auto simp: fits_def fin_def intro: order_trans)
    qed
    have first: "fits d (unat (?e - sz)) (unat sz)" if "sz \<le> ?e"
      using that n so by (intro fits_sorted [OF so(1,3) n(2) _ _ wf]) (auto simp: off_def unat_sub word_le_nat_alt)
    have ue: "unat (?e - store_offset d) = off d (es ! 0) - unat (store_offset d)"
      using b(3) unfolding off_def by (simp add: unat_sub word_le_nat_alt)
    consider "sz \<le> storage_device_size d - disk_offset d ?l - osize d ?l" "a = ?S - sz" "d' = d"
      | "gap_loop d es sz (?n - 1) = Some a" "d' = d"
      | "sz \<le> ?e - store_offset d" "a = ?e - sz" "d' = d"
      | "\<not> sz \<le> ?e - store_offset d" "a = store_offset d - (sz - (?e - store_offset d))" "d' = d\<lparr>store_offset := a\<rparr>"
      using find_empty_space_cases [OF r False es] by blast
    then show ?thesis
    proof cases
      case 1
      then show ?thesis using last by blast
    next
      case 2
      then show ?thesis using gap_loop_fits [OF _ n(1) so(1,3) wf] by blast
    next
      case 3
      then have le: "unat sz \<le> off d (es ! 0) - unat (store_offset d)" using ue by (simp add: word_le_nat_alt)
      then have "sz \<le> ?e" by (simp add: word_le_nat_alt off_def)
      then show ?thesis using 3(2,3) first le b(3) by (simp add: unat_sub off_def)
    next
      case 4
      let ?need = "sz - (?e - store_offset d)"
      have "unat ?need = unat sz - (off d (es ! 0) - unat (store_offset d))"
        using 4(1) ue by (simp add: unat_sub word_le_nat_alt)
      moreover have "store_offset d - ?need \<le> store_offset d" using mono 4(3) unfolding 4(2) by simp
      then have "?need \<le> store_offset d" unfolding word_sub_le_iff .
      ultimately have "sz \<le> ?e" using 4(1) b(3) ue by (simp add: word_le_nat_alt off_def)
      moreover have "a = ?e - sz" unfolding 4(2) by (simp add: algebra_simps)
      ultimately show ?thesis using first 4(3) by simp
    qed
  qed
qed

text \<open>
  Claim C20. On a well-formed device, the space \<open>find_empty_space\<close> returns lies inside the store
  and overlaps no object, provided the boundary of the store has not moved up: the requests for
  which the subtraction \<open>store_offset - needed_space\<close> does not wrap.
\<close>

theorem find_empty_space_disjoint:
  assumes "obj_wf d" "find_empty_space junk sz d = Ret (Some a, d')" "sz \<le> STORAGE_DEVICE_SIZE"
    "store_offset d' \<le> store_offset d"
  shows "unat (store_offset d') \<le> unat a \<and> unat a + unat sz \<le> unat STORAGE_DEVICE_SIZE \<and>
    (\<forall>i\<in>set (occupied_entries d). off d i + unat (osize d i) \<le> unat a \<or> unat a + unat sz \<le> off d i)"
  using find_empty_space_fits [OF assms] by (simp add: fits_def fin_def)

text \<open>A device with one object of 300000 bytes, at the end of the store.\<close>

definition one_object :: obj_device where
  "one_object = \<lparr>storage = store32 (store32 (store32 (\<lambda>_. 0) 176 27680) 180 300000) 184 1,
     storage_device_size = STORAGE_DEVICE_SIZE, objects_table_offset = SB_SIZE, last_inode = 2,
     bytes_occupied = SB_SIZE + INITIAL_OBJECT_TABLE_SIZE * ENTRY_SIZE + 300000, occupied_objects = 3,
     store_offset = SB_SIZE + INITIAL_OBJECT_TABLE_SIZE * ENTRY_SIZE\<rparr>"

lemma one_object_entry_at: "i < 200 \<Longrightarrow> entry_at one_object i = 92 + 32 * i"
  by (simp add: entry_at_def entry_index_to_entry_offset_def one_object_def SB_SIZE_def ENTRY_SIZE_def
      unat_word_ariths unat_of_nat)

lemma one_object_occupied: "i < 200 \<Longrightarrow> occupied one_object i \<longleftrightarrow> i = 2"
proof (cases "i = 2")
  case False
  assume i: "i < 200"
  have "load32 (storage one_object) (92 + 32 * i + 28) = load32 (\<lambda>_. 0) (92 + 32 * i + 28)"
  proof (rule load32_cong)
    fix k :: nat assume k: "k < 4"
    have "92 + 32 * i + 28 + k < 176 \<or> 188 \<le> 92 + 32 * i + 28 + k" using False k by presburger
    then show "storage one_object (92 + 32 * i + 28 + k) = 0" by (auto simp: one_object_def store32_def)
  qed
  then show ?thesis using False one_object_entry_at [OF i] by (simp add: occupied_def load32_def)
qed (simp add: occupied_def one_object_entry_at, simp add: one_object_def)

lemma one_object_entries: "occupied_entries one_object = [2]"
proof -
  have "unat (get_object_table_size one_object) = 200"
    by (simp add: get_object_table_size_def one_object_def SB_SIZE_def ENTRY_SIZE_def INITIAL_OBJECT_TABLE_SIZE_def)
  then have "occupied_entries one_object = filter (\<lambda>i. i = 2) [2..<200]"
    unfolding occupied_entries_def by (auto intro!: filter_cong simp: one_object_occupied)
  also have "[2..<200] = 2 # [3..<200]" by (simp add: upt_conv_Cons)
  finally show ?thesis by (simp add: filter_empty_conv)
qed

lemma one_object_fields: "disk_offset one_object 2 = 27680" "osize one_object 2 = 300000"
proof -
  have a: "load32 (storage one_object) 176 = load32 (store32 (\<lambda>_. 0) 176 27680) 176"
    by (rule load32_cong) (auto simp: one_object_def store32_def)
  have b: "load32 (storage one_object) 180 = load32 (store32 (store32 (\<lambda>_. 0) 176 27680) 180 300000) 180"
    by (rule load32_cong) (auto simp: one_object_def store32_def)
  show "disk_offset one_object 2 = 27680" "osize one_object 2 = 300000"
    using a b by (simp_all add: disk_offset_def osize_def one_object_entry_at)
qed

lemma one_object_wf: "obj_wf one_object"
  by (simp add: obj_wf_def one_object_entries off_def fin_def one_object_fields)
    (simp add: one_object_def STORAGE_DEVICE_SIZE_def SB_SIZE_def ENTRY_SIZE_def INITIAL_OBJECT_TABLE_SIZE_def)

lemmas one_object_simps = find_empty_space_def Let_def one_object_entries bubble_sort_def entries_arr_size_def one_object_fields

theorem find_empty_space_disjoint_witness:
  "find_empty_space 0 1000 one_object = Ret (Some 26680, one_object) \<and> unat (26680 :: u32) + 1000 \<le> off one_object 2"
proof -
  have r: "find_empty_space 0 1000 one_object = Ret (Some 26680, one_object)"
    by (simp add: one_object_simps)
      (simp add: one_object_def STORAGE_DEVICE_SIZE_def SB_SIZE_def ENTRY_SIZE_def INITIAL_OBJECT_TABLE_SIZE_def)
  from find_empty_space_disjoint [OF one_object_wf r] show ?thesis
    using r by (simp add: STORAGE_DEVICE_SIZE_def one_object_entries off_def one_object_fields)
qed





section \<open>Names\<close>

lemma obj_id_cmp_loop_run:
  "(\<forall>t. i \<le> t \<longrightarrow> t < i + k \<longrightarrow> p t \<noteq> 0 \<and> p t = q t) \<Longrightarrow> obj_id_cmp_loop k i p q = i + k"
proof (induction k arbitrary: i)
  case (Suc k)
  have "\<forall>t. i + 1 \<le> t \<longrightarrow> t < i + 1 + k \<longrightarrow> p t \<noteq> 0 \<and> p t = q t"
  proof (intro allI impI)
    fix t assume "i + 1 \<le> t" "t < i + 1 + k"
    then show "p t \<noteq> 0 \<and> p t = q t" using Suc.prems [rule_format, of t] by linarith
  qed
  then have "obj_id_cmp_loop k (i + 1) p q = i + 1 + k" by (rule Suc.IH)
  moreover have "p i \<noteq> 0 \<and> p i = q i" using Suc.prems [rule_format, of i] by linarith
  ultimately show ?case by auto
qed simp

text \<open>
  A name of the full \<open>MAX_OBJECT_NAME_LENGTH\<close> bytes has no terminator in its table
  entry, and \<open>obj_id_cmp\<close> then compares the entry's next byte, the low byte of the object's
  offset, with the name's terminator: the object is found only if that byte is zero.
\<close>

theorem obj_id_cmp_full_name:
  assumes "length s = MAX_OBJECT_NAME_LENGTH" "\<forall>k<MAX_OBJECT_NAME_LENGTH. s ! k \<noteq> 0 \<and> object_id d i k = s ! k"
  shows "obj_id_cmp (object_id d i) (cs s) = 0 \<longleftrightarrow> ucast (disk_offset d i) = (0 :: u8)"
proof -
  have "obj_id_cmp_loop MAX_OBJECT_NAME_LENGTH 0 (object_id d i) (cs s) = 0 + MAX_OBJECT_NAME_LENGTH"
    by (rule obj_id_cmp_loop_run) (use assms in \<open>auto simp: cs_def\<close>)
  then have "obj_id_cmp (object_id d i) (cs s) = sint (storage d (entry_at d i + 20))"
    using assms(1) by (simp add: obj_id_cmp_def Let_def cs_def object_id_def MAX_OBJECT_NAME_LENGTH_def)
  moreover have "ucast (load32 (storage d) a) = storage d a" for a
    by (rule bit_word_eqI) (auto simp: load32_def bit_ucast_iff bit_or_iff bit_push_bit_iff)
  then have "ucast (disk_offset d i) = storage d (entry_at d i + 20)" by (simp add: disk_offset_def)
  ultimately show ?thesis by (simp add: signed_eq_0_iff)
qed

theorem obj_id_cmp_full_name_witness:
  "obj_id_cmp (object_id (one_object\<lparr>storage := put_bytes 156 (\<lambda>_. 65) 20 (storage one_object)\<rparr>) 2) (cs (replicate 20 65)) \<noteq> 0"
proof -
  let ?d = "one_object\<lparr>storage := put_bytes 156 (\<lambda>_. 65) 20 (storage one_object)\<rparr>"
  have e: "entry_at ?d 2 = 156" using one_object_entry_at [of 2] by (simp add: entry_at_def entry_index_to_entry_offset_def)
  have "load32 (storage ?d) 176 = load32 (storage one_object) 176" by (rule load32_cong) (simp add: put_bytes_def)
  then have "disk_offset ?d 2 = 27680" using one_object_fields(1) one_object_entry_at [of 2] e by (simp add: disk_offset_def)
  then show ?thesis using obj_id_cmp_full_name [of "replicate 20 65" ?d 2] e
    by (simp add: MAX_OBJECT_NAME_LENGTH_def object_id_def put_bytes_def)
qed

end
