(* ===== verification/Ref_Table.thy ===== *)
theory Ref_Table
  imports Prelude
begin

text \<open>
  Tables of reference-counted slots. The kernel keeps open files, devices, namespaces, namespace
  proxies and mounts in fixed arrays whose entries are free when their count is zero. What their
  users rely on is stated once, as a locale; the theories that model the tables interpret it.
\<close>

text \<open>The first index below \<open>n\<close> that satisfies \<open>P\<close>: the search loops over the tables.\<close>

definition first_slot :: "(nat \<Rightarrow> bool) \<Rightarrow> nat \<Rightarrow> nat option" where
  "first_slot P n = find P [0..<n]"

lemma first_slot_Some: "first_slot P n = Some i \<Longrightarrow> i < n \<and> P i \<and> (\<forall>j<i. \<not> P j)"
proof -
  assume "first_slot P n = Some i"
  then obtain k where "k < n" "P ([0..<n] ! k)" "i = [0..<n] ! k" "\<forall>j<k. \<not> P ([0..<n] ! j)"
    by (auto simp: first_slot_def find_Some_iff)
  then show ?thesis by simp
qed

lemma first_slot_None: "first_slot P n = None \<longleftrightarrow> (\<forall>i<n. \<not> P i)"
  by (auto simp: first_slot_def find_None_iff)

text \<open>
  \<open>refs s i\<close> is the count of slot \<open>i\<close>; \<open>alloc\<close> takes a free slot, \<open>dup\<close> and \<open>put\<close> add and drop a
  reference.
\<close>

locale ref_table =
  fixes n :: nat
    and refs :: "'s \<Rightarrow> nat \<Rightarrow> int"
    and alloc :: "'s \<Rightarrow> (nat \<times> 's) outcome"
    and dup :: "nat \<Rightarrow> 's \<Rightarrow> 's outcome"
    and put :: "nat \<Rightarrow> 's \<Rightarrow> 's outcome"
  assumes alloc_Ret: "alloc s = Ret (i, s') \<Longrightarrow> i < n \<and> refs s i = 0 \<and> (\<forall>j<n. refs s' j = (if j = i then 1 else refs s j))"
    and alloc_Panic: "alloc s = Panic msg \<Longrightarrow> i < n \<Longrightarrow> refs s i \<noteq> 0"
    and dup_Ret: "i < n \<Longrightarrow> 0 < refs s i \<Longrightarrow> \<exists>s'. dup i s = Ret s' \<and> (\<forall>j<n. refs s' j = (if j = i then refs s j + 1 else refs s j))"
    and put_Ret: "i < n \<Longrightarrow> 0 < refs s i \<Longrightarrow> \<exists>s'. put i s = Ret s' \<and> (\<forall>j<n. refs s' j = (if j = i then refs s j - 1 else refs s j))"
begin

text \<open>The counts are the numbers of handles: \<open>hs\<close> has one entry per reference some user holds.\<close>

definition counted :: "'s \<Rightarrow> nat multiset \<Rightarrow> bool" where
  "counted s hs = ((\<forall>i<n. refs s i = int (count hs i)) \<and> (\<forall>i\<in>#hs. i < n))"

lemma held_positive: "counted s hs \<Longrightarrow> i \<in># hs \<Longrightarrow> i < n \<and> 0 < refs s i"
  by (auto simp: counted_def)

lemma alloc_counted: "counted s hs \<Longrightarrow> alloc s = Ret (i, s') \<Longrightarrow> counted s' (add_mset i hs)"
  using alloc_Ret [of s i s'] by (auto simp: counted_def)

lemma dup_counted: "counted s hs \<Longrightarrow> i \<in># hs \<Longrightarrow> dup i s = Ret s' \<Longrightarrow> counted s' (add_mset i hs)"
  using dup_Ret [of i s] held_positive [of s hs i] by (auto simp: counted_def)

lemma put_counted: "counted s hs \<Longrightarrow> i \<in># hs \<Longrightarrow> put i s = Ret s' \<Longrightarrow> counted s' (hs - {#i#})"
  using put_Ret [of i s] held_positive [of s hs i]
  by (auto simp: counted_def of_nat_diff Suc_le_eq dest: in_diffD)

text \<open>Users who hold a slot can always duplicate and drop it, and it is never handed out again.\<close>

lemma dup_held: "counted s hs \<Longrightarrow> i \<in># hs \<Longrightarrow> returns (dup i s)"
  using dup_Ret held_positive by (fastforce simp: returns_iff)

lemma put_held: "counted s hs \<Longrightarrow> i \<in># hs \<Longrightarrow> returns (put i s)"
  using put_Ret held_positive by (fastforce simp: returns_iff)

lemma alloc_fresh: "counted s hs \<Longrightarrow> alloc s = Ret (i, s') \<Longrightarrow> i \<notin># hs"
  using alloc_Ret [of s i s'] by (auto simp: counted_def not_in_iff)

text \<open>Allocation succeeds while fewer slots than the table has are in use.\<close>

lemma alloc_succeeds:
  assumes "counted s hs" "card (set_mset hs) < n"
  shows "returns (alloc s)"
proof (cases "alloc s")
  case (Panic msg)
  then have "count hs i \<noteq> 0" if "i < n" for i using alloc_Panic [of s msg i] that assms(1) by (simp add: counted_def)
  then have "{..<n} \<subseteq> set_mset hs" by (auto simp: not_in_iff)
  then have "card {..<n} \<le> card (set_mset hs)" by (intro card_mono) auto
  then show ?thesis using assms(2) by simp
qed simp

end

end
