(* ===== verification/Namespace.thy ===== *)
theory Namespace
  imports Ref_Table
begin

text \<open>
  Namespaces and mounts: \<open>kernel/pid_ns.c\<close>, \<open>kernel/kmount.c\<close>, \<open>kernel/mount_ns.c\<close> and
  \<open>kernel/namespace.c\<close>.

  The state has the four tables, each a function from the index of an entry to its contents, and
  what the routines use of the current process. Pointers into a table are indices; a proxy's null
  pointers are the index \<open>NNAMESPACE\<close>. The linked list \<open>active_mounts\<close> of a namespace is the list of the indices of
  its entries, first entry first. Inodes and super blocks are numbered; the routines only take and drop
  references to them (\<open>idup\<close>, \<open>iput\<close>, \<open>sbdup\<close>, \<open>sbput\<close>), which \<open>iref\<close> and \<open>sbref\<close> count.
\<close>

section \<open>State\<close>

definition NNAMESPACE :: nat where "NNAMESPACE = 20"
definition NMOUNT :: nat where "NMOUNT = 200"
definition MAX_PID_NS_DEPTH :: nat where "MAX_PID_NS_DEPTH = 4"
definition MOUNT_NS :: int where "MOUNT_NS = 1"
definition PID_NS :: int where "PID_NS = 2"

record pid_ns =
  pref :: int
  pparent :: "nat option"
  next_pid :: int
  pid1_ns_killed :: bool

record mount =
  mparent :: "nat option"
  mountpoint :: "nat option"
  mref :: int
  isbind :: bool
  msb :: nat
  mbind :: nat

record mount_ns =
  nref :: int
  nroot :: "nat option"
  active_mounts :: "nat list"

record nsproxy =
  xref :: int
  xmount_ns :: nat
  xpid_ns :: nat

record nst =
  pidnstable :: "nat \<Rightarrow> pid_ns"
  mnt_list :: "nat \<Rightarrow> mount"
  mountnstable :: "nat \<Rightarrow> mount_ns"
  namespacetable :: "nat \<Rightarrow> nsproxy"
  iref :: "nat \<Rightarrow> int"
  sbref :: "nat \<Rightarrow> int"
  imnt :: "nat \<Rightarrow> nat option"
  cur_nsproxy :: nat
  cwdmount :: "nat option"
  child_pid_ns :: "nat option"

section \<open>Process namespaces\<close>

definition upd_pid_ns :: "nat \<Rightarrow> (pid_ns \<Rightarrow> pid_ns) \<Rightarrow> nst \<Rightarrow> nst" where
  "upd_pid_ns i f s = s\<lparr>pidnstable := (pidnstable s)(i := f (pidnstable s i))\<rparr>"

definition pid_ns_init :: "nst \<Rightarrow> nst" where
  "pid_ns_init s = s\<lparr>pidnstable := (\<lambda>i. if i < NNAMESPACE then (pidnstable s i)\<lparr>pref := 0\<rparr> else pidnstable s i)\<rparr>"

definition pid_ns_put :: "nat \<Rightarrow> nst \<Rightarrow> nst outcome" where
  "pid_ns_put i s =
    (if pref (pidnstable s i) = 0 then Panic ''pid_ns_put: ref == 0''
     else Ret (upd_pid_ns i (\<lambda>p. p\<lparr>pref := pref p - 1\<rparr>) s))"

definition pid_ns_get :: "nat \<Rightarrow> nst \<Rightarrow> nst" where
  "pid_ns_get i s = upd_pid_ns i (\<lambda>p. p\<lparr>pref := pref p + 1\<rparr>) s"

definition pid_ns_alloc :: "nst \<Rightarrow> (nat \<times> nst) outcome" where
  "pid_ns_alloc s =
    (case first_slot (\<lambda>i. pref (pidnstable s i) = 0) NNAMESPACE of
       Some i \<Rightarrow> Ret (i, upd_pid_ns i (\<lambda>p. p\<lparr>pref := 1\<rparr>) s)
     | None \<Rightarrow> Panic ''out of pid_ns objects'')"

definition pid_ns_init_ns :: "nat \<Rightarrow> nat option \<Rightarrow> nst \<Rightarrow> nst" where
  "pid_ns_init_ns i parent s = upd_pid_ns i (\<lambda>p. p\<lparr>pparent := parent, next_pid := 1, pid1_ns_killed := False\<rparr>) s"

definition pid_ns_dup :: "nat \<Rightarrow> nst \<Rightarrow> nst" where
  "pid_ns_dup i s = pid_ns_get i s"

definition pid_ns_new :: "nat option \<Rightarrow> nst \<Rightarrow> (nat \<times> nst) outcome" where
  "pid_ns_new parent s = bindO (pid_ns_alloc s) (\<lambda>(i, s). Ret (i, pid_ns_init_ns i parent s))"

definition pid_ns_next_pid :: "nat \<Rightarrow> nst \<Rightarrow> int \<times> nst" where
  "pid_ns_next_pid i s = (next_pid (pidnstable s i), upd_pid_ns i (\<lambda>p. p\<lparr>next_pid := next_pid p + 1\<rparr>) s)"

text \<open>The loop of \<open>pid_ns_is_max_depth\<close> follows the parents: \<open>None\<close> if it never ends.\<close>

partial_function (option) pid_ns_depth :: "(nat \<Rightarrow> pid_ns) \<Rightarrow> nat option \<Rightarrow> nat \<Rightarrow> nat option" where
  "pid_ns_depth t c depth =
    (case c of None \<Rightarrow> Some depth | Some i \<Rightarrow> pid_ns_depth t (pparent (t i)) (depth + 1))"

definition pid_ns_is_max_depth :: "nat \<Rightarrow> nst \<Rightarrow> bool option" where
  "pid_ns_is_max_depth i s = map_option (\<lambda>depth. MAX_PID_NS_DEPTH \<le> depth) (pid_ns_depth (pidnstable s) (Some i) 0)"

text \<open>The loop in \<open>fork\<close> that gives the new process a pid in its namespace and each ancestor.\<close>

fun fork_pids :: "nat \<Rightarrow> nat option \<Rightarrow> nst \<Rightarrow> ((nat \<times> int) list \<times> nst) outcome" where
  "fork_pids k None s = Ret ([], s)"
| "fork_pids 0 (Some c) s = Panic ''too many danif!''"
| "fork_pids (Suc k) (Some c) s =
    (case pid_ns_next_pid c s of (pid, s) \<Rightarrow>
       bindO (fork_pids k (pparent (pidnstable s c)) s) (\<lambda>(ps, s). Ret ((c, pid) # ps, s)))"

section \<open>Mounts\<close>

definition upd_mnt :: "nat \<Rightarrow> (mount \<Rightarrow> mount) \<Rightarrow> nst \<Rightarrow> nst" where
  "upd_mnt i f s = s\<lparr>mnt_list := (mnt_list s)(i := f (mnt_list s i))\<rparr>"

definition upd_mount_ns :: "nat \<Rightarrow> (mount_ns \<Rightarrow> mount_ns) \<Rightarrow> nst \<Rightarrow> nst" where
  "upd_mount_ns i f s = s\<lparr>mountnstable := (mountnstable s)(i := f (mountnstable s i))\<rparr>"

definition cur_mount_ns :: "nst \<Rightarrow> nat" where
  "cur_mount_ns s = xmount_ns (namespacetable s (cur_nsproxy s))"

definition getactivemounts :: "nat option \<Rightarrow> nst \<Rightarrow> nat list" where
  "getactivemounts ns s =
    active_mounts (mountnstable s (case ns of None \<Rightarrow> cur_mount_ns s | Some k \<Rightarrow> k))"

definition idup :: "nat \<Rightarrow> nst \<Rightarrow> nst" where
  "idup ip s = s\<lparr>iref := (iref s)(ip := iref s ip + 1)\<rparr>"

definition iput :: "nat \<Rightarrow> nst \<Rightarrow> nst" where
  "iput ip s = s\<lparr>iref := (iref s)(ip := iref s ip - 1)\<rparr>"

definition sbdup :: "nat \<Rightarrow> nst \<Rightarrow> nst" where
  "sbdup sb s = s\<lparr>sbref := (sbref s)(sb := sbref s sb + 1)\<rparr>"

definition sbput :: "nat \<Rightarrow> nst \<Rightarrow> nst" where
  "sbput sb s = s\<lparr>sbref := (sbref s)(sb := sbref s sb - 1)\<rparr>"

text \<open>
  What is mounted: an inode bound, or a device with the super block \<open>sballoc\<close> returned for it;
  \<open>known\<close> says whether a file system exists for the device's type.
\<close>

datatype what = Bind nat | Device nat bool

definition addmountinternal :: "nat \<Rightarrow> nat option \<Rightarrow> nat option \<Rightarrow> what \<Rightarrow> nat \<Rightarrow> nst \<Rightarrow> bool \<times> nst" where
  "addmountinternal m point parent w ns s =
    (let s = upd_mnt m (\<lambda>e. e\<lparr>mparent := parent, mountpoint := point\<rparr>) s;
         finish = (\<lambda>s. upd_mount_ns ns (\<lambda>n. n\<lparr>active_mounts := m # getactivemounts (Some ns) s\<rparr>) s)
     in case w of
          Bind ip \<Rightarrow> (True, finish (upd_mnt m (\<lambda>e. e\<lparr>mbind := ip, isbind := True\<rparr>) s))
        | Device sb known \<Rightarrow>
            let s = upd_mnt m (\<lambda>e. e\<lparr>msb := sb, isbind := False\<rparr>) (sbdup sb s)
            in if known then (True, finish s) else (False, s))"

definition getinitialrootmount :: nat where
  "getinitialrootmount = 0"

definition getrootmount :: "nst \<Rightarrow> nat option" where
  "getrootmount s = nroot (mountnstable s (cur_mount_ns s))"

definition mntdup :: "nat \<Rightarrow> nst \<Rightarrow> nst" where
  "mntdup m s = upd_mnt m (\<lambda>e. e\<lparr>mref := mref e + 1\<rparr>) s"

definition mntput :: "nat \<Rightarrow> nst \<Rightarrow> nst" where
  "mntput m s = upd_mnt m (\<lambda>e. e\<lparr>mref := mref e - 1\<rparr>) s"

definition allocmntlist :: "nst \<Rightarrow> (nat \<times> nst) outcome" where
  "allocmntlist s =
    (case first_slot (\<lambda>i. mref (mnt_list s i) = 0) NMOUNT of
       None \<Rightarrow> Panic ''out of mount_list objects''
     | Some i \<Rightarrow> Ret (i, upd_mnt i (\<lambda>e. e\<lparr>mref := 1\<rparr>) s))"

text \<open>
  \<open>mount\<close> returns whether it succeeded. \<open>deviceput\<close> of the target on its error paths is
  returned as a flag; \<open>w\<close> is \<open>None\<close> when neither or both of the device and the inode are given.
\<close>

definition mount :: "nat \<Rightarrow> what option \<Rightarrow> nat \<Rightarrow> nst \<Rightarrow> (bool \<times> bool \<times> nst) outcome" where
  "mount point w parent s =
    bindO (allocmntlist s) (\<lambda>(m, s).
      case w of
        None \<Rightarrow> Ret (False, False, upd_mnt m (\<lambda>e. e\<lparr>mref := 0\<rparr>) s)
      | Some w \<Rightarrow>
          let dev = (case w of Device _ _ \<Rightarrow> True | Bind _ \<Rightarrow> False) in
          if \<exists>c\<in>set (getactivemounts None s). mparent (mnt_list s c) = Some parent \<and> mountpoint (mnt_list s c) = Some point
          then Ret (False, dev, upd_mnt m (\<lambda>e. e\<lparr>mref := 0\<rparr>) s)
          else
            (case addmountinternal m (Some point) (Some parent) w (cur_mount_ns s) (mntdup parent s) of
               (False, s) \<Rightarrow> Ret (False, True, mntput parent (upd_mnt m (\<lambda>e. e\<lparr>mref := 0\<rparr>) s))
             | (True, s) \<Rightarrow> Ret (True, False, s\<lparr>imnt := (imnt s)(point := Some m)\<rparr>)))"

definition umount :: "nat \<Rightarrow> nst \<Rightarrow> bool \<times> nst" where
  "umount m s =
    (if m \<notin> set (getactivemounts None s) then (False, s)
     else case mparent (mnt_list s m) of
       None \<Rightarrow> (False, s)
     | Some p \<Rightarrow>
         if 2 < mref (mnt_list s m) then (False, s)
         else
           let e = mnt_list s m;
               s = upd_mount_ns (cur_mount_ns s) (\<lambda>n. n\<lparr>active_mounts := remove1 m (active_mounts n)\<rparr>) s;
               s = upd_mnt m (\<lambda>e. e\<lparr>mbind := 0, msb := 0, mountpoint := None\<rparr>) s;
               s = upd_mnt p (\<lambda>e. e\<lparr>mref := mref e - 1\<rparr>) s;
               s = upd_mnt m (\<lambda>e. e\<lparr>mref := 0\<rparr>) s;
               s = (if isbind e then iput (mbind e) s else s);
               s = (case mountpoint e of None \<Rightarrow> s | Some ip \<Rightarrow> iput ip (s\<lparr>imnt := (imnt s)(ip := None)\<rparr>));
               s = (if isbind e then s else sbput (msb e) s)
           in (True, s))"

definition mntlookup :: "nat \<Rightarrow> nat \<Rightarrow> nst \<Rightarrow> nat option \<times> nst" where
  "mntlookup point parent s =
    (case find (\<lambda>c. mountpoint (mnt_list s c) = Some point \<and> (mparent (mnt_list s c) = Some parent \<or> isbind (mnt_list s c)))
        (getactivemounts None s) of
       Some c \<Rightarrow> (Some c, mntdup c s)
     | None \<Rightarrow> (None, s))"

fun umountall :: "nat list \<Rightarrow> nst \<Rightarrow> nst outcome" where
  "umountall [] s = Ret s"
| "umountall (m # ms) s =
    (if mparent (mnt_list s m) = None then umountall ms (upd_mnt m (\<lambda>e. e\<lparr>mref := 0\<rparr>) s)
     else case umount m s of
       (False, s) \<Rightarrow> Panic ''failed to umount upon namespace close''
     | (True, s) \<Rightarrow> umountall ms s)"

text \<open>Copying a mount list: first the entries, without parents, then the parents by position.\<close>

definition copymount :: "nat \<Rightarrow> nat \<Rightarrow> nst \<Rightarrow> nst" where
  "copymount e m s =
    (let old = mnt_list s e;
         s = upd_mnt m (\<lambda>x. x\<lparr>mref := 1\<rparr>) s;
         s = (case mountpoint old of
                Some ip \<Rightarrow> upd_mnt m (\<lambda>x. x\<lparr>mountpoint := Some ip\<rparr>) (idup ip s)
              | None \<Rightarrow> upd_mnt m (\<lambda>x. x\<lparr>mountpoint := None\<rparr>) s);
         s = upd_mnt m (\<lambda>x. x\<lparr>mparent := None, isbind := isbind old\<rparr>) s
     in if isbind old then upd_mnt m (\<lambda>x. x\<lparr>mbind := mbind old\<rparr>) (idup (mbind old) s)
        else upd_mnt m (\<lambda>x. x\<lparr>msb := msb old\<rparr>) (sbdup (msb old) s))"

fun shallowcopyactivemounts :: "nat list \<Rightarrow> nat option \<Rightarrow> nst \<Rightarrow> (nat list \<times> nat option \<times> nst) outcome" where
  "shallowcopyactivemounts [] newcwd s = Ret ([], newcwd, s)"
| "shallowcopyactivemounts (e # es) newcwd s =
    bindO (allocmntlist s) (\<lambda>(m, s).
    bindO (shallowcopyactivemounts es (if cwdmount s = Some e then Some m else newcwd) (copymount e m s)) (\<lambda>(ms, newcwd, s).
    Ret (m # ms, newcwd, s)))"

text \<open>
  The inner loop of \<open>fixparents\<close> walks the old list from its head and the new list from the current entry, \<open>new\<close>,
  on. The pointer into the new list may become null; following it further reads through a null pointer.
\<close>

fun finder :: "nat list \<Rightarrow> nat list \<Rightarrow> nat \<Rightarrow> nat option outcome" where
  "finder [] new p = Panic ''invalid mount tree structure''"
| "finder (e # es) new p =
    (if e = p then Ret (case new of [] \<Rightarrow> None | m # _ \<Rightarrow> Some m)
     else case new of [] \<Rightarrow> Panic ''null pointer'' | _ # ms \<Rightarrow> finder es ms p)"

text \<open>\<open>mntdup\<close> of a null pointer adds one to a word of user memory and returns null.\<close>

fun fixparents_loop :: "nat list \<Rightarrow> nat list \<Rightarrow> nat list \<Rightarrow> nst \<Rightarrow> nst outcome" where
  "fixparents_loop all (e # es) (m # ms) s =
    (case mparent (mnt_list s e) of
       None \<Rightarrow> fixparents_loop all es ms s
     | Some p \<Rightarrow>
        bindO (finder all (m # ms) p) (\<lambda>q.
        fixparents_loop all es ms (upd_mnt m (\<lambda>x. x\<lparr>mparent := q\<rparr>) (case q of None \<Rightarrow> s | Some q \<Rightarrow> mntdup q s))))"
| "fixparents_loop all _ _ s = Ret s"

definition fixparents :: "nat list \<Rightarrow> nst \<Rightarrow> nst outcome" where
  "fixparents new s = fixparents_loop (getactivemounts None s) (getactivemounts None s) new s"

definition copyactivemounts :: "nst \<Rightarrow> (nat list \<times> nst) outcome" where
  "copyactivemounts s =
    (let oldcwd = cwdmount s in
     bindO (shallowcopyactivemounts (getactivemounts None s) None s) (\<lambda>(new, newcwd, s).
     bindO (fixparents new s) (\<lambda>s.
     Ret (new, case newcwd of
                 None \<Rightarrow> s
               | Some m \<Rightarrow> (case oldcwd of None \<Rightarrow> (mntdup m s)\<lparr>cwdmount := Some m\<rparr>
                            | Some c \<Rightarrow> mntput c ((mntdup m s)\<lparr>cwdmount := Some m\<rparr>))))))"

text \<open>
  \<open>getroot\<close> follows the parents. A chain without repetition has at most \<open>NMOUNT\<close> mounts, so the
  fuel is enough for every tree.
\<close>

fun getroot_loop :: "nat \<Rightarrow> nat \<Rightarrow> nst \<Rightarrow> nat outcome" where
  "getroot_loop 0 m s = Panic ''cyclic mount structure''"
| "getroot_loop (Suc k) m s =
    (case mparent (mnt_list s m) of None \<Rightarrow> Ret m | Some p \<Rightarrow> getroot_loop k p s)"

definition getroot :: "nat list \<Rightarrow> nst \<Rightarrow> nat option outcome" where
  "getroot new s = (case new of [] \<Rightarrow> Ret None | m # _ \<Rightarrow> bindO (getroot_loop NMOUNT m s) (\<lambda>r. Ret (Some r)))"

section \<open>Mount namespaces\<close>

definition allocmount_ns :: "nst \<Rightarrow> (nat \<times> nst) outcome" where
  "allocmount_ns s =
    (case first_slot (\<lambda>i. nref (mountnstable s i) = 0) NNAMESPACE of
       Some i \<Rightarrow> Ret (i, upd_mount_ns i (\<lambda>n. n\<lparr>nref := 1\<rparr>) s)
     | None \<Rightarrow> Panic ''out of mount_ns objects'')"

definition mount_nsdup :: "nat \<Rightarrow> nst \<Rightarrow> nst" where
  "mount_nsdup i s = upd_mount_ns i (\<lambda>n. n\<lparr>nref := nref n + 1\<rparr>) s"

definition mount_nsput :: "nat \<Rightarrow> nst \<Rightarrow> nst outcome" where
  "mount_nsput i s =
    bindO (if nref (mountnstable s i) = 1
           then bindO (umountall (active_mounts (mountnstable s i)) s) (\<lambda>s. Ret (upd_mount_ns i (\<lambda>n. n\<lparr>active_mounts := []\<rparr>) s))
           else Ret s)
      (\<lambda>s. Ret (upd_mount_ns i (\<lambda>n. n\<lparr>nref := nref n - 1\<rparr>) s))"

definition copymount_ns :: "nst \<Rightarrow> (nat \<times> nst) outcome" where
  "copymount_ns s =
    bindO (allocmount_ns s) (\<lambda>(i, s).
    bindO (copyactivemounts s) (\<lambda>(new, s).
    let s = upd_mount_ns i (\<lambda>n. n\<lparr>active_mounts := new\<rparr>) s in
    bindO (getroot (active_mounts (mountnstable s i)) s) (\<lambda>r.
    Ret (i, upd_mount_ns i (\<lambda>n. n\<lparr>nroot := r\<rparr>) s))))"

definition get_root_mount_ns :: nat where
  "get_root_mount_ns = 0"

definition mount_nsinit :: "nst \<Rightarrow> nst outcome" where
  "mount_nsinit s = bindO (allocmount_ns s) (\<lambda>(i, s). if i \<noteq> get_root_mount_ns then Panic ''mount_nsinit double'' else Ret s)"

definition mntinit :: "nat \<Rightarrow> nst \<Rightarrow> nst outcome" where
  "mntinit sb s =
    (case addmountinternal 0 None None (Device sb True) get_root_mount_ns s of
       (False, s) \<Rightarrow> Panic ''failed to initialize root mount''
     | (True, s) \<Rightarrow>
        Ret (upd_mount_ns get_root_mount_ns (\<lambda>n. n\<lparr>nroot := Some getinitialrootmount\<rparr>) (upd_mnt 0 (\<lambda>e. e\<lparr>mref := 1\<rparr>) s)))"

section \<open>Proxies\<close>

definition upd_proxy :: "nat \<Rightarrow> (nsproxy \<Rightarrow> nsproxy) \<Rightarrow> nst \<Rightarrow> nst" where
  "upd_proxy i f s = s\<lparr>namespacetable := (namespacetable s)(i := f (namespacetable s i))\<rparr>"

definition namespaceput :: "nat \<Rightarrow> nst \<Rightarrow> nst outcome" where
  "namespaceput i s =
    bindO (if xref (namespacetable s i) = 1
           then bindO (mount_nsput (xmount_ns (namespacetable s i)) s) (\<lambda>s.
                bindO (pid_ns_put (xpid_ns (namespacetable s i)) (upd_proxy i (\<lambda>x. x\<lparr>xmount_ns := NNAMESPACE\<rparr>) s)) (\<lambda>s.
                Ret (upd_proxy i (\<lambda>x. x\<lparr>xpid_ns := NNAMESPACE\<rparr>) s)))
           else Ret s)
      (\<lambda>s. Ret (upd_proxy i (\<lambda>x. x\<lparr>xref := xref x - 1\<rparr>) s))"

definition namespacedup :: "nat \<Rightarrow> nst \<Rightarrow> nst" where
  "namespacedup i s = upd_proxy i (\<lambda>x. x\<lparr>xref := xref x + 1\<rparr>) s"

definition allocnsproxyinternal :: "nst \<Rightarrow> (nat \<times> nst) outcome" where
  "allocnsproxyinternal s =
    (case first_slot (\<lambda>i. xref (namespacetable s i) = 0) NNAMESPACE of
       Some i \<Rightarrow> Ret (i, upd_proxy i (\<lambda>x. x\<lparr>xref := xref x + 1\<rparr>) s)
     | None \<Rightarrow> Panic ''out of nsproxy objects'')"

definition emptynsproxy :: "nst \<Rightarrow> (nat \<times> nst) outcome" where
  "emptynsproxy s =
    bindO (allocnsproxyinternal s) (\<lambda>(i, s).
    let s = upd_proxy i (\<lambda>x. x\<lparr>xmount_ns := get_root_mount_ns\<rparr>) s in
    bindO (pid_ns_new None s) (\<lambda>(p, s).
    Ret (i, upd_proxy i (\<lambda>x. x\<lparr>xpid_ns := p\<rparr>) s)))"

definition namespace_replace_pid_ns :: "nat \<Rightarrow> nat \<Rightarrow> nst \<Rightarrow> (nat \<times> nst) outcome" where
  "namespace_replace_pid_ns oldns pid_ns s =
    bindO (allocnsproxyinternal s) (\<lambda>(i, s).
    let m = xmount_ns (namespacetable s oldns);
        s = upd_proxy i (\<lambda>x. x\<lparr>xmount_ns := m\<rparr>) (mount_nsdup m s);
        s = upd_proxy i (\<lambda>x. x\<lparr>xpid_ns := pid_ns\<rparr>) (pid_ns_dup pid_ns s)
    in Ret (i, s))"

text \<open>\<open>unshare\<close>: the result is \<open>None\<close> when the depth of the namespace cannot be computed.\<close>

definition unshare_proxy :: "nst \<Rightarrow> nst outcome" where
  "unshare_proxy s =
    (if 1 < xref (namespacetable s (cur_nsproxy s)) then
       let oldns = cur_nsproxy s in
       bindO (allocnsproxyinternal s) (\<lambda>(i, s).
       let s = s\<lparr>cur_nsproxy := i\<rparr>;
           m = xmount_ns (namespacetable s oldns);
           s = upd_proxy i (\<lambda>x. x\<lparr>xmount_ns := m\<rparr>) (mount_nsdup m s);
           p = xpid_ns (namespacetable s oldns);
           s = upd_proxy i (\<lambda>x. x\<lparr>xpid_ns := p\<rparr>) (pid_ns_dup p s)
       in Ret (upd_proxy oldns (\<lambda>x. x\<lparr>xref := xref x - 1\<rparr>) s))
     else Ret s)"

definition unshare_mount :: "nst \<Rightarrow> nst outcome" where
  "unshare_mount s =
    (let previous = cur_mount_ns s in
     bindO (copymount_ns s) (\<lambda>(i, s).
     mount_nsput previous (upd_proxy (cur_nsproxy s) (\<lambda>x. x\<lparr>xmount_ns := i\<rparr>) s)))"

definition unshare :: "int \<Rightarrow> nst \<Rightarrow> (int \<times> nst) outcome option" where
  "unshare nstype s =
    (case unshare_proxy s of
       Panic msg \<Rightarrow> Some (Panic msg)
     | Ret s \<Rightarrow>
        if nstype = MOUNT_NS then Some (bindO (unshare_mount s) (\<lambda>s. Ret (0, s)))
        else if nstype = PID_NS then
          (if child_pid_ns s \<noteq> None then Some (Ret (- 1, s))
           else case pid_ns_is_max_depth (xpid_ns (namespacetable s (cur_nsproxy s))) s of
             None \<Rightarrow> None
           | Some True \<Rightarrow> Some (Ret (- 1, s))
           | Some False \<Rightarrow>
               Some (bindO (pid_ns_new (Some (xpid_ns (namespacetable s (cur_nsproxy s)))) s) (\<lambda>(p, s).
                 Ret (0, s\<lparr>child_pid_ns := Some p\<rparr>))))
        else Some (Ret (- 1, s)))"

section \<open>References\<close>

text \<open>The tables are reference tables.\<close>

lemma upd_pid_ns_simps [simp]:
  "pidnstable (upd_pid_ns i f s) j = (if j = i then f (pidnstable s i) else pidnstable s j)"
  by (simp add: upd_pid_ns_def)

lemma upd_mnt_simps [simp]:
  "mnt_list (upd_mnt i f s) j = (if j = i then f (mnt_list s i) else mnt_list s j)"
  by (simp add: upd_mnt_def)

interpretation pidns: ref_table NNAMESPACE "\<lambda>s i. pref (pidnstable s i)" pid_ns_alloc "\<lambda>i s. Ret (pid_ns_dup i s)" pid_ns_put
  by unfold_locales
    (auto simp: pid_ns_alloc_def pid_ns_dup_def pid_ns_get_def pid_ns_put_def first_slot_None
      dest!: first_slot_Some split: option.splits)

interpretation mnttable: ref_table NMOUNT "\<lambda>s i. mref (mnt_list s i)" allocmntlist "\<lambda>i s. Ret (mntdup i s)" "\<lambda>i s. Ret (mntput i s)"
  by unfold_locales
    (auto simp: allocmntlist_def mntdup_def mntput_def first_slot_None dest!: first_slot_Some split: option.splits)

section \<open>Depth of process namespaces\<close>

text \<open>\<open>chain t c d\<close>: following parents from \<open>c\<close> ends after \<open>d\<close> namespaces.\<close>

inductive chain :: "(nat \<Rightarrow> pid_ns) \<Rightarrow> nat option \<Rightarrow> nat \<Rightarrow> bool" where
  stop: "chain t None 0"
| step: "chain t (pparent (t i)) d \<Longrightarrow> chain t (Some i) (Suc d)"

inductive_cases chain_SomeE: "chain t (Some i) d"

lemma chain_depth: "chain t c d \<Longrightarrow> pid_ns_depth t c k = Some (k + d)"
  by (induction arbitrary: k rule: chain.induct) (simp_all add: pid_ns_depth.simps)

lemma chain_parents: "chain t c d \<Longrightarrow> (\<And>i. pparent (t' i) = pparent (t i)) \<Longrightarrow> chain t' c d"
  by (induction rule: chain.induct) (auto intro: chain.intros)

text \<open>A change to an entry that no member of a parent-closed set reaches keeps their chains.\<close>

lemma chain_frame:
  assumes "chain t c d" "set_option c \<subseteq> L" "\<And>i p. i \<in> L \<Longrightarrow> pparent (t i) = Some p \<Longrightarrow> p \<in> L"
    "\<And>i. i \<in> L \<Longrightarrow> pparent (t' i) = pparent (t i)"
  shows "chain t' c d"
  using assms
proof (induction rule: chain.induct)
  case (step t i d)
  have "set_option (pparent (t i)) \<subseteq> L" using step.prems by (cases "pparent (t i)") auto
  then have "chain t' (pparent (t i)) d" using step.prems by (intro step.IH) auto
  then show ?case using step.prems by (auto intro: chain.step)
qed (rule chain.stop)

lemma fork_pids_chain:
  "chain (pidnstable s) c d \<Longrightarrow> d \<le> k \<Longrightarrow> \<exists>ps s'. fork_pids k c s = Ret (ps, s') \<and> length ps = d \<and>
     (\<forall>i. pparent (pidnstable s' i) = pparent (pidnstable s i) \<and> pref (pidnstable s' i) = pref (pidnstable s i))"
proof (induction k arbitrary: c d s)
  case 0
  then show ?case by (cases c) (auto elim: chain.cases)
next
  case (Suc k)
  show ?case
  proof (cases c)
    case (Some i)
    then obtain d' where d: "d = Suc d'" "chain (pidnstable s) (pparent (pidnstable s i)) d'" using Suc.prems(1) by (auto elim: chain_SomeE)
    let ?s = "snd (pid_ns_next_pid i s)"
    have "chain (pidnstable ?s) (pparent (pidnstable s i)) d'"
      by (rule chain_parents [OF d(2)]) (simp add: pid_ns_next_pid_def)
    from Suc.IH [OF this] Suc.prems(2) d(1) show ?thesis using Some by (fastforce simp: pid_ns_next_pid_def)
  qed (use Suc.prems in \<open>auto elim: chain.cases\<close>)
qed

text \<open>
  Processes with namespaces. \<open>hs\<close> has an entry for every reference a process or its proxy holds.
  New namespaces are made by \<open>emptynsproxy\<close> at boot and by \<open>unshare\<close>, which checks the depth. The
  last reference to a namespace is dropped only when no other namespace has it as parent.
\<close>

inductive ns_step :: "nst \<times> nat multiset \<Rightarrow> nst \<times> nat multiset \<Rightarrow> bool" where
  root: "pid_ns_new None s = Ret (i, s') \<Longrightarrow> ns_step (s, hs) (s', add_mset i hs)"
| child: "p \<in># hs \<Longrightarrow> pid_ns_is_max_depth p s = Some False \<Longrightarrow> pid_ns_new (Some p) s = Ret (i, s') \<Longrightarrow>
    ns_step (s, hs) (s', add_mset i hs)"
| dup: "i \<in># hs \<Longrightarrow> ns_step (s, hs) (pid_ns_dup i s, add_mset i hs)"
| put: "i \<in># hs \<Longrightarrow> pid_ns_put i s = Ret s' \<Longrightarrow> 1 < count hs i \<or> (\<forall>j\<in>#hs. pparent (pidnstable s j) \<noteq> Some i) \<Longrightarrow>
    ns_step (s, hs) (s', hs - {#i#})"
| fork: "c \<in># hs \<Longrightarrow> fork_pids MAX_PID_NS_DEPTH (Some c) s = Ret (ps, s') \<Longrightarrow> ns_step (s, hs) (s', hs)"

definition ns_inv :: "nst \<times> nat multiset \<Rightarrow> bool" where
  "ns_inv = (\<lambda>(s, hs). pidns.counted s hs \<and>
     (\<forall>i\<in>#hs. (\<exists>d\<le>MAX_PID_NS_DEPTH. chain (pidnstable s) (Some i) d) \<and> (\<forall>p. pparent (pidnstable s i) = Some p \<longrightarrow> p \<in># hs)))"

lemma ns_inv_frame:
  assumes "ns_inv (s, hs)" "pidns.counted s' hs'" "set_mset hs' = set_mset hs"
    "\<And>i. pparent (pidnstable s' i) = pparent (pidnstable s i)"
  shows "ns_inv (s', hs')"
proof -
  have "\<exists>d\<le>MAX_PID_NS_DEPTH. chain (pidnstable s') (Some i) d" if "i \<in># hs" for i
    using assms(1) that chain_parents [OF _ assms(4)] by (fastforce simp: ns_inv_def)
  then show ?thesis using assms by (simp add: ns_inv_def)
qed

lemma pid_ns_new_inv:
  assumes inv: "ns_inv (s, hs)" and new: "pid_ns_new parent s = Ret (i, s')"
    and par: "set_option parent \<subseteq> set_mset hs" "chain (pidnstable s) parent d" "d < MAX_PID_NS_DEPTH"
  shows "ns_inv (s', add_mset i hs)"
proof -
  from new obtain s1 where a: "pid_ns_alloc s = Ret (i, s1)" and s': "s' = pid_ns_init_ns i parent s1"
    by (auto simp: pid_ns_new_def bindO_Ret_iff)
  have c: "pidns.counted s hs" using inv by (simp add: ns_inv_def)
  have fresh: "i \<notin># hs" by (rule pidns.alloc_fresh [OF c a])
  have s1: "pparent (pidnstable s1 j) = pparent (pidnstable s j)" for j
    using a by (auto simp: pid_ns_alloc_def split: option.splits)
  have t: "pparent (pidnstable s' j) = (if j = i then parent else pparent (pidnstable s j))" for j
    by (simp add: s' pid_ns_init_ns_def s1)
  have keep: "chain (pidnstable s') c d" if "chain (pidnstable s) c d" "set_option c \<subseteq> set_mset hs" for c d
    by (rule chain_frame [OF that]) (use inv fresh t in \<open>auto simp: ns_inv_def\<close>)
  have "pidns.counted s' (add_mset i hs)"
    using pidns.alloc_counted [OF c a] by (simp add: s' pid_ns_init_ns_def pidns.counted_def)
  moreover have "chain (pidnstable s') (Some i) (Suc d)"
    using keep [OF par(2,1)] t [of i] by (auto intro: chain.step)
  moreover have "\<exists>d\<le>MAX_PID_NS_DEPTH. chain (pidnstable s') (Some j) d" if "j \<in># hs" for j
    using inv that keep [of "Some j"] by (fastforce simp: ns_inv_def)
  ultimately show ?thesis using inv par(1,3) t fresh by (fastforce simp: ns_inv_def)
qed

lemma ns_step_inv:
  assumes "ns_step c c'" "ns_inv c"
  shows "ns_inv c'"
  using assms
proof (induction rule: ns_step.induct)
  case (root s i s' hs)
  then show ?case by (intro pid_ns_new_inv [where d = 0]) (auto intro: chain.stop simp: MAX_PID_NS_DEPTH_def)
next
  case (child p hs s i s')
  then obtain d where d: "chain (pidnstable s) (Some p) d" by (auto simp: ns_inv_def)
  then have "d < MAX_PID_NS_DEPTH" using child(2) chain_depth [OF d, of 0] by (simp add: pid_ns_is_max_depth_def)
  then show ?case using child d by (intro pid_ns_new_inv [where d = d]) auto
next
  case (dup i hs s)
  then have "pidns.counted (pid_ns_dup i s) (add_mset i hs)"
    using pidns.dup_counted [of s hs i] by (simp add: ns_inv_def)
  with dup(2) show ?case
    by (rule ns_inv_frame) (use dup(1) in \<open>auto simp: pid_ns_dup_def pid_ns_get_def\<close>)
next
  case (put i hs s s')
  have c: "pidns.counted s' (hs - {#i#})" using put pidns.put_counted [of s hs i s'] by (simp add: ns_inv_def)
  have t: "pparent (pidnstable s' j) = pparent (pidnstable s j)" for j
    using put(2) by (auto simp: pid_ns_put_def split: if_splits)
  have sub: "j \<in># hs" if "j \<in># hs - {#i#}" for j using that by (rule in_diffD)
  have "\<exists>d\<le>MAX_PID_NS_DEPTH. chain (pidnstable s') (Some j) d" if "j \<in># hs - {#i#}" for j
    using put(4) sub [OF that] chain_parents [OF _ t] by (fastforce simp: ns_inv_def)
  moreover have "p \<in># hs - {#i#}" if "j \<in># hs - {#i#}" "pparent (pidnstable s j) = Some p" for j p
  proof -
    have "p \<in># hs" using put(4) sub [OF that(1)] that(2) by (auto simp: ns_inv_def)
    moreover have "1 < count hs i \<or> p \<noteq> i" using put(3) sub [OF that(1)] that(2) by auto
    ultimately show ?thesis by (auto simp: in_diff_count)
  qed
  ultimately show ?case using c t by (simp add: ns_inv_def)
next
  case (fork c hs s ps s')
  then obtain d where d: "chain (pidnstable s) (Some c) d" "d \<le> MAX_PID_NS_DEPTH" by (auto simp: ns_inv_def)
  from fork_pids_chain [OF d] fork(2) have same: "\<And>i. pparent (pidnstable s' i) = pparent (pidnstable s i)"
      "\<And>i. pref (pidnstable s' i) = pref (pidnstable s i)" by auto
  from fork(3) show ?case
    by (rule ns_inv_frame) (use same fork(3) in \<open>auto simp: ns_inv_def pidns.counted_def\<close>)
qed

definition boot_nst :: nst where
  "boot_nst = \<lparr>pidnstable = (\<lambda>_. \<lparr>pref = 0, pparent = None, next_pid = 0, pid1_ns_killed = False\<rparr>),
     mnt_list = (\<lambda>_. \<lparr>mparent = None, mountpoint = None, mref = 0, isbind = False, msb = 0, mbind = 0\<rparr>),
     mountnstable = (\<lambda>_. \<lparr>nref = 0, nroot = None, active_mounts = []\<rparr>),
     namespacetable = (\<lambda>_. \<lparr>xref = 0, xmount_ns = NNAMESPACE, xpid_ns = NNAMESPACE\<rparr>),
     iref = (\<lambda>_. 0), sbref = (\<lambda>_. 0), imnt = (\<lambda>_. None), cur_nsproxy = 0, cwdmount = None, child_pid_ns = None\<rparr>"

lemma boot_ns_inv: "ns_inv (boot_nst, {#})"
  by (simp add: ns_inv_def pidns.counted_def boot_nst_def)

text \<open>
  Claim C23. As long as a process namespace outlives its children, the loops over ancestors end:
  \<open>pid_ns_is_max_depth\<close> terminates on every namespace in use, no namespace is deeper than
  \<open>MAX_PID_NS_DEPTH\<close>, and \<open>fork\<close> finds room for the pid of the child in each of them.
\<close>

theorem pid_ns_depth_bounded:
  assumes "ns_step\<^sup>*\<^sup>* (boot_nst, {#}) (s, hs)" "i \<in># hs"
  shows "\<exists>d\<le>MAX_PID_NS_DEPTH. pid_ns_depth (pidnstable s) (Some i) 0 = Some d \<and>
    pid_ns_is_max_depth i s = Some (d = MAX_PID_NS_DEPTH) \<and>
    (\<exists>ps s'. fork_pids MAX_PID_NS_DEPTH (Some i) s = Ret (ps, s') \<and> length ps = d)"
proof -
  from assms(1) have "ns_inv (s, hs)"
    by (induction rule: rtranclp_induct) (auto intro: ns_step_inv boot_ns_inv)
  then obtain d where d: "d \<le> MAX_PID_NS_DEPTH" "chain (pidnstable s) (Some i) d" using assms(2) by (auto simp: ns_inv_def)
  from chain_depth [OF d(2), of 0] fork_pids_chain [OF d(2,1)] d(1) show ?thesis
    by (intro exI [of _ d]) (auto simp: pid_ns_is_max_depth_def)
qed

theorem pid_ns_depth_bounded_witness:
  "\<exists>s d. ns_step\<^sup>*\<^sup>* (boot_nst, {#}) (s, {#0#}) \<and> pid_ns_depth (pidnstable s) (Some 0) 0 = Some d \<and> d \<le> MAX_PID_NS_DEPTH"
proof -
  let ?s = "pid_ns_init_ns 0 None (upd_pid_ns 0 (\<lambda>p. p\<lparr>pref := 1\<rparr>) boot_nst)"
  have "first_slot (\<lambda>i. pref (pidnstable boot_nst i) = 0) NNAMESPACE = Some 0"
    by (simp add: first_slot_def NNAMESPACE_def boot_nst_def upt_conv_Cons)
  then have "pid_ns_new None boot_nst = Ret (0, ?s)" by (simp add: pid_ns_new_def pid_ns_alloc_def)
  then have r: "ns_step\<^sup>*\<^sup>* (boot_nst, {#}) (?s, {#0#})" using ns_step.root [of boot_nst 0 ?s "{#}"] by simp
  have "(0 :: nat) \<in># {#0#}" by simp
  from pid_ns_depth_bounded [OF r this] show ?thesis using r by blast
qed

lemma pid_ns_depth_cycle:
  assumes "pparent (t a) = Some b" "pparent (t b) = Some a"
  shows "pid_ns_depth t (Some a) depth = None"
proof (rule ccontr)
  assume "pid_ns_depth t (Some a) depth \<noteq> None"
  then obtain d where d: "pid_ns_depth t (Some a) depth = Some d" by blast
  have "\<not> (t = t \<and> (Some a = Some a \<or> Some a = Some b))"
  proof (rule pid_ns_depth.raw_induct [where P = "\<lambda>u c depth d. \<not> (u = t \<and> (c = Some a \<or> c = Some b))"])
    fix up u c depth r
    assume IH: "\<And>u c depth r. up u c depth = Some r \<Longrightarrow> \<not> (u = t \<and> (c = Some a \<or> c = Some b))"
      and run: "(case c of None \<Rightarrow> Some depth | Some i \<Rightarrow> up u (pparent (u i)) (depth + 1)) = Some r"
    show "\<not> (u = t \<and> (c = Some a \<or> c = Some b))"
      using run IH [of u _ "depth + 1" r] assms by (auto split: option.splits)
  qed (rule d)
  then show False by simp
qed

text \<open>
  Claim C26. The code does not keep that promise: \<open>pid_ns_new\<close> takes no reference to the parent. Whenever the last
  reference to a namespace \<open>a\<close> is dropped while a child namespace \<open>b\<close> is in use, and no entry before \<open>a\<close> is free, the next
  namespace created below \<open>b\<close> is \<open>a\<close> again. The two are then each other's parent: \<open>fork\<close> into the new namespace
  panics, and \<open>pid_ns_is_max_depth\<close>, which \<open>unshare\<close> calls, never ends.
\<close>

theorem pid_ns_parent_reused:
  assumes "pref (pidnstable s a) = 1" "a < NNAMESPACE" "\<forall>i<a. pref (pidnstable s i) \<noteq> 0" "a \<noteq> b" "pparent (pidnstable s b) = Some a"
  shows "\<exists>s1 s2. pid_ns_put a s = Ret s1 \<and> pid_ns_new (Some b) s1 = Ret (a, s2) \<and>
    pparent (pidnstable s2 a) = Some b \<and> pparent (pidnstable s2 b) = Some a \<and>
    fork_pids MAX_PID_NS_DEPTH (Some a) s2 = Panic ''too many danif!'' \<and> pid_ns_is_max_depth a s2 = None"
proof -
  let ?s1 = "upd_pid_ns a (\<lambda>p. p\<lparr>pref := pref p - 1\<rparr>) s"
  let ?s2 = "pid_ns_init_ns a (Some b) (upd_pid_ns a (\<lambda>p. p\<lparr>pref := 1\<rparr>) ?s1)"
  have put: "pid_ns_put a s = Ret ?s1" using assms(1) by (simp add: pid_ns_put_def)
  have free: "pref (pidnstable ?s1 i) = 0 \<longleftrightarrow> i = a \<or> pref (pidnstable s i) = 0" for i using assms(1) by (simp add: upd_pid_ns_def)
  have "first_slot (\<lambda>i. pref (pidnstable ?s1 i) = 0) NNAMESPACE = Some a"
  proof (cases "first_slot (\<lambda>i. pref (pidnstable ?s1 i) = 0) NNAMESPACE")
    case None
    then show ?thesis using assms(2) free [of a] by (auto simp: first_slot_None)
  next
    case (Some j)
    then have j: "j < NNAMESPACE" "j = a \<or> pref (pidnstable s j) = 0" "\<forall>i<j. i \<noteq> a" using first_slot_Some [OF Some] free by auto
    then have "\<not> a < j" "\<not> j < a" using assms(3) by auto
    then show ?thesis using Some by simp
  qed
  then have new: "pid_ns_new (Some b) ?s1 = Ret (a, ?s2)" by (simp add: pid_ns_new_def pid_ns_alloc_def)
  have par: "pparent (pidnstable ?s2 a) = Some b" "pparent (pidnstable ?s2 b) = Some a"
    using assms(4,5) by (simp_all add: pid_ns_init_ns_def upd_pid_ns_def)
  have "fork_pids k (Some c) u = Panic ''too many danif!''"
    if "pparent (pidnstable u a) = Some b" "pparent (pidnstable u b) = Some a" "c = a \<or> c = b" for k c u
    using that
  proof (induction k arbitrary: c u)
    case (Suc k)
    let ?u = "snd (pid_ns_next_pid c u)"
    have "pparent (pidnstable ?u i) = pparent (pidnstable u i)" for i by (simp add: pid_ns_next_pid_def upd_pid_ns_def)
    then show ?case using Suc.IH [of ?u a] Suc.IH [of ?u b] Suc.prems by (auto simp: split_def)
  qed simp
  then show ?thesis using put new par pid_ns_depth_cycle [OF par] by (auto simp: pid_ns_is_max_depth_def)
qed

theorem pid_ns_parent_reused_witness:
  "\<exists>s s1 s2. pid_ns_put 1 s = Ret s1 \<and> pid_ns_new (Some 2) s1 = Ret (1, s2) \<and> pid_ns_is_max_depth 1 s2 = None"
proof -
  let ?s = "upd_pid_ns 0 (\<lambda>p. p\<lparr>pref := 1\<rparr>) (upd_pid_ns 1 (\<lambda>p. p\<lparr>pref := 1, pparent := Some 0\<rparr>)
    (upd_pid_ns 2 (\<lambda>p. p\<lparr>pref := 1, pparent := Some 1\<rparr>) boot_nst))"
  have "pref (pidnstable ?s 1) = 1" "1 < NNAMESPACE" "\<forall>i<1. pref (pidnstable ?s i) \<noteq> 0" "(1 :: nat) \<noteq> 2" "pparent (pidnstable ?s 2) = Some 1"
    by (simp_all add: upd_pid_ns_def NNAMESPACE_def)
  from pid_ns_parent_reused [OF this] show ?thesis by blast
qed


section \<open>Copying a mount namespace\<close>

definition same_mount :: "mount \<Rightarrow> mount \<Rightarrow> bool" where
  "same_mount new old = (mountpoint new = mountpoint old \<and> isbind new = isbind old \<and>
     (if isbind old then mbind new = mbind old else msb new = msb old))"

lemma copymount_entry:
  assumes "e \<noteq> m"
  shows "same_mount (mnt_list (copymount e m s) m) (mnt_list s e) \<and> mparent (mnt_list (copymount e m s) m) = None \<and>
    mref (mnt_list (copymount e m s) m) = 1" "j \<noteq> m \<Longrightarrow> mnt_list (copymount e m s) j = mnt_list s j"
    "mountnstable (copymount e m s) = mountnstable s \<and> namespacetable (copymount e m s) = namespacetable s \<and>
     cur_nsproxy (copymount e m s) = cur_nsproxy s \<and> cwdmount (copymount e m s) = cwdmount s"
  using assms
  by (auto simp: copymount_def Let_def same_mount_def upd_mnt_def idup_def sbdup_def split: option.splits)

lemma copymount_frame:
  "mountnstable (copymount e m s) = mountnstable s \<and> namespacetable (copymount e m s) = namespacetable s \<and> cur_nsproxy (copymount e m s) = cur_nsproxy s"
  by (auto simp: copymount_def Let_def upd_mnt_def idup_def sbdup_def split: option.splits)

lemma allocmntlist_free:
  assumes "allocmntlist s = Ret (m, s')"
  shows "mref (mnt_list s m) = 0" "mnt_list s' = (mnt_list s)(m := (mnt_list s m)\<lparr>mref := 1\<rparr>)"
    "mountnstable s' = mountnstable s \<and> namespacetable s' = namespacetable s \<and> cur_nsproxy s' = cur_nsproxy s \<and> cwdmount s' = cwdmount s"
  using assms by (auto simp: allocmntlist_def upd_mnt_def dest: first_slot_Some split: option.splits)

lemma shallowcopy_spec:
  assumes "shallowcopyactivemounts es nc s = Ret (ms, nc', s')" "\<forall>e\<in>set es. mref (mnt_list s e) \<noteq> 0"
  shows "length ms = length es \<and> distinct ms \<and> (\<forall>m\<in>set ms. mref (mnt_list s m) = 0) \<and>
    (\<forall>j. j \<notin> set ms \<longrightarrow> mnt_list s' j = mnt_list s j) \<and>
    (\<forall>k<length es. same_mount (mnt_list s' (ms ! k)) (mnt_list s (es ! k)) \<and> mparent (mnt_list s' (ms ! k)) = None) \<and>
    mountnstable s' = mountnstable s \<and> namespacetable s' = namespacetable s \<and> cur_nsproxy s' = cur_nsproxy s"
  using assms
proof (induction es arbitrary: nc s ms)
  case (Cons e es)
  then obtain m s1 ms1 where a: "allocmntlist s = Ret (m, s1)" and ms: "ms = m # ms1"
    and r: "shallowcopyactivemounts es (if cwdmount s1 = Some e then Some m else nc) (copymount e m s1) = Ret (ms1, nc', s')"
    by (auto simp: bindO_Ret_iff)
  note al = allocmntlist_free [OF a]
  have em: "e \<noteq> m" using Cons.prems(2) al(1) by auto
  let ?s = "copymount e m s1"
  note c = copymount_entry [OF em, where s = s1]
  have old: "mnt_list ?s j = mnt_list s j" if "j \<noteq> m" for j using c(2) [OF that] al(2) that by simp
  have "\<forall>e\<in>set es. mref (mnt_list ?s e) \<noteq> 0" using Cons.prems(2) al(1) old by (metis list.set_intros(2))
  note IH = Cons.IH [OF r this]
  have fresh: "m \<notin> set ms1" using IH c(1) by auto
  have "mref (mnt_list s x) = 0" if "x \<in> set ms1" for x using IH old [of x] that fresh by (metis (no_types, lifting))
  moreover have "mnt_list s' j = mnt_list s j" if "j \<notin> set ms" for j using IH old that ms by auto
  moreover have "same_mount (mnt_list s' (ms ! k)) (mnt_list s ((e # es) ! k)) \<and> mparent (mnt_list s' (ms ! k)) = None"
    if k: "k < length (e # es)" for k
  proof (cases k)
    case 0
    then show ?thesis using IH c(1) fresh ms al(2) em by auto
  next
    case (Suc l)
    then have l: "l < length es" using k by simp
    have "es ! l \<noteq> m" using Cons.prems(2) al(1) l nth_mem [OF l] by auto
    then have "mnt_list ?s (es ! l) = mnt_list s (es ! l)" by (rule old)
    moreover have "same_mount (mnt_list s' (ms1 ! l)) (mnt_list ?s (es ! l)) \<and> mparent (mnt_list s' (ms1 ! l)) = None"
      using IH l by blast
    ultimately show ?thesis using Suc ms by simp
  qed
  ultimately show ?case using IH fresh ms al c(3) by simp
qed auto


lemma finder_mem: "finder es ns p = Ret (Some q) \<Longrightarrow> q \<in> set ns"
  by (induction es ns p rule: finder.induct) (auto split: if_splits list.splits)

lemma fixparents_loop_spec:
  assumes "fixparents_loop all es ms s = Ret s'" "length ms = length es" "distinct ms" "set ms \<inter> set es = {}"
  shows "(\<forall>j. j \<notin> set ms \<longrightarrow> mnt_list s' j = mnt_list s j) \<and> (\<forall>j. same_mount (mnt_list s' j) (mnt_list s j)) \<and>
    (\<forall>k<length es. case mparent (mnt_list s (es ! k)) of
       None \<Rightarrow> mparent (mnt_list s' (ms ! k)) = mparent (mnt_list s (ms ! k))
     | Some p \<Rightarrow> finder all (drop k ms) p = Ret (mparent (mnt_list s' (ms ! k))))"
  using assms
proof (induction es arbitrary: ms s)
  case (Cons e es)
  then obtain m ms1 where ms: "ms = m # ms1" by (cases ms) auto
  have fresh: "m \<notin> set es" "m \<noteq> e" "m \<notin> set ms1" using Cons.prems(3,4) ms by auto
  obtain s1 where run: "fixparents_loop all es ms1 s1 = Ret s'"
    and s1: "\<And>j. j \<notin> set ms \<Longrightarrow> mnt_list s1 j = mnt_list s j" "\<And>j. same_mount (mnt_list s1 j) (mnt_list s j)"
      "\<And>j. j \<noteq> m \<Longrightarrow> mparent (mnt_list s1 j) = mparent (mnt_list s j)"
    and pm: "case mparent (mnt_list s e) of None \<Rightarrow> mparent (mnt_list s1 m) = mparent (mnt_list s m)
      | Some p \<Rightarrow> finder all ms p = Ret (mparent (mnt_list s1 m))"
  proof (cases "mparent (mnt_list s e)")
    case None
    then show thesis using that [of s] Cons.prems(1) ms by (simp add: same_mount_def)
  next
    case (Some p)
    then obtain q where q: "finder all ms p = Ret q"
        "fixparents_loop all es ms1 (upd_mnt m (\<lambda>x. x\<lparr>mparent := q\<rparr>) (case q of None \<Rightarrow> s | Some q \<Rightarrow> mntdup q s)) = Ret s'"
      using Cons.prems(1) ms by (auto simp: bindO_Ret_iff)
    let ?u = "case q of None \<Rightarrow> s | Some q \<Rightarrow> mntdup q s"
    have "q = Some r \<Longrightarrow> r \<in> set ms" for r using finder_mem q(1) by blast
    then have u: "j \<notin> set ms \<Longrightarrow> mnt_list ?u j = mnt_list s j" "same_mount (mnt_list ?u j) (mnt_list s j)" "mparent (mnt_list ?u j) = mparent (mnt_list s j)" for j
      by (cases q; auto simp: mntdup_def upd_mnt_def same_mount_def)+
    have v: "mnt_list (upd_mnt m (\<lambda>x. x\<lparr>mparent := q\<rparr>) ?u) = (mnt_list ?u)(m := (mnt_list ?u m)\<lparr>mparent := q\<rparr>)" by (simp add: upd_mnt_def)
    show thesis by (rule that [OF q(2)]) (use u ms Some q(1) in \<open>auto simp: v same_mount_def\<close>)
  qed
  have IH: "\<And>j. j \<notin> set ms1 \<Longrightarrow> mnt_list s' j = mnt_list s1 j" "\<And>j. same_mount (mnt_list s' j) (mnt_list s1 j)"
      "\<And>k. k < length es \<Longrightarrow> (case mparent (mnt_list s1 (es ! k)) of
         None \<Rightarrow> mparent (mnt_list s' (ms1 ! k)) = mparent (mnt_list s1 (ms1 ! k))
       | Some p \<Rightarrow> finder all (drop k ms1) p = Ret (mparent (mnt_list s' (ms1 ! k))))"
    using Cons.IH [OF run] Cons.prems(2-4) ms by auto
  have "case mparent (mnt_list s ((e # es) ! k)) of
       None \<Rightarrow> mparent (mnt_list s' (ms ! k)) = mparent (mnt_list s (ms ! k))
     | Some p \<Rightarrow> finder all (drop k ms) p = Ret (mparent (mnt_list s' (ms ! k)))" if "k < length (e # es)" for k
  proof (cases k)
    case 0
    then show ?thesis using pm IH(1) [of m] fresh ms by (simp split: option.splits)
  next
    case (Suc l)
    then have l: "l < length es" "es ! l \<noteq> m" "ms1 ! l \<noteq> m" using that fresh Cons.prems(2) ms nth_mem by auto
    then show ?thesis using IH(3) [OF l(1)] s1(3) Suc ms by (simp split: option.splits)
  qed
  moreover have "same_mount (mnt_list s' j) (mnt_list s j)" for j using IH(2) [of j] s1(2) [of j] by (auto simp: same_mount_def split: if_splits)
  moreover have "mnt_list s' j = mnt_list s j" if "j \<notin> set ms" for j using IH(1) s1(1) that ms by auto
  ultimately show ?case by blast
qed (auto simp: same_mount_def)

lemma same_mount_trans: "same_mount a b \<Longrightarrow> same_mount b c \<Longrightarrow> same_mount a c"
  by (auto simp: same_mount_def split: if_splits)

lemma copyactivemounts_steps:
  assumes "copyactivemounts s = Ret (ms, s')"
  shows "\<exists>nc s1 s2. shallowcopyactivemounts (getactivemounts None s) None s = Ret (ms, nc, s1) \<and> fixparents ms s1 = Ret s2 \<and>
    (\<forall>j. same_mount (mnt_list s' j) (mnt_list s2 j) \<and> mparent (mnt_list s' j) = mparent (mnt_list s2 j))"
proof -
  obtain nc s1 s2 where 1: "shallowcopyactivemounts (getactivemounts None s) None s = Ret (ms, nc, s1)" "fixparents ms s1 = Ret s2"
    and s': "s' = (case nc of None \<Rightarrow> s2
               | Some m \<Rightarrow> (case cwdmount s of None \<Rightarrow> (mntdup m s2)\<lparr>cwdmount := Some m\<rparr>
                            | Some c \<Rightarrow> mntput c ((mntdup m s2)\<lparr>cwdmount := Some m\<rparr>)))"
    using assms by (auto simp: copyactivemounts_def Let_def bindO_Ret_iff)
  have "same_mount (mnt_list s' j) (mnt_list s2 j) \<and> mparent (mnt_list s' j) = mparent (mnt_list s2 j)" for j
    by (auto simp: s' same_mount_def mntdup_def mntput_def upd_mnt_def split: option.split)
  then show ?thesis using 1 by blast
qed

lemma copyactivemounts_frame:
  assumes "copyactivemounts s = Ret (ms, s')"
  shows "mountnstable s' = mountnstable s \<and> namespacetable s' = namespacetable s \<and> cur_nsproxy s' = cur_nsproxy s"
proof -
  have sh: "mountnstable u' = mountnstable u \<and> namespacetable u' = namespacetable u \<and> cur_nsproxy u' = cur_nsproxy u"
    if "shallowcopyactivemounts es nc u = Ret (ms, nc', u')" for es nc u ms nc' u'
    using that
  proof (induction es arbitrary: nc u ms)
    case (Cons e es)
    then obtain m u1 ms1 where "allocmntlist u = Ret (m, u1)"
        "shallowcopyactivemounts es (if cwdmount u1 = Some e then Some m else nc) (copymount e m u1) = Ret (ms1, nc', u')"
      by (auto simp: bindO_Ret_iff)
    then show ?case using Cons.IH allocmntlist_free(3) copymount_frame by metis
  qed simp
  have fx: "mountnstable u' = mountnstable u \<and> namespacetable u' = namespacetable u \<and> cur_nsproxy u' = cur_nsproxy u"
    if "fixparents_loop all es ms u = Ret u'" for all es ms u u'
    using that
  proof (induction all es ms u rule: fixparents_loop.induct)
    case (1 all e es m ms u)
    then show ?case by (fastforce simp: bindO_Ret_iff upd_mnt_def mntdup_def split: option.splits)
  qed auto
  obtain nc s1 s2 where 1: "shallowcopyactivemounts (getactivemounts None s) None s = Ret (ms, nc, s1)" "fixparents ms s1 = Ret s2"
    and s': "s' = (case nc of None \<Rightarrow> s2
               | Some m \<Rightarrow> (case cwdmount s of None \<Rightarrow> (mntdup m s2)\<lparr>cwdmount := Some m\<rparr>
                            | Some c \<Rightarrow> mntput c ((mntdup m s2)\<lparr>cwdmount := Some m\<rparr>)))"
    using assms by (auto simp: copyactivemounts_def Let_def bindO_Ret_iff)
  show ?thesis using sh [OF 1(1)] fx [of _ _ ms s1 s2] 1(2)
    by (auto simp: s' fixparents_def mntdup_def mntput_def upd_mnt_def split: option.split)
qed

text \<open>What a successful copy is, entry by entry.\<close>

lemma copyactivemounts_entries:
  assumes "copyactivemounts s = Ret (ms, s')" "es = getactivemounts None s" "\<forall>e\<in>set es. mref (mnt_list s e) \<noteq> 0"
  shows "length ms = length es \<and> distinct ms \<and> (\<forall>m\<in>set ms. mref (mnt_list s m) = 0) \<and> set ms \<inter> set es = {} \<and>
    (\<forall>k<length es. same_mount (mnt_list s' (ms ! k)) (mnt_list s (es ! k)) \<and>
       (case mparent (mnt_list s (es ! k)) of None \<Rightarrow> mparent (mnt_list s' (ms ! k)) = None
        | Some p \<Rightarrow> finder es (drop k ms) p = Ret (mparent (mnt_list s' (ms ! k))))) \<and>
    (\<forall>e\<in>set es. same_mount (mnt_list s' e) (mnt_list s e) \<and> mparent (mnt_list s' e) = mparent (mnt_list s e))"
proof -
  obtain nc s1 s2 where 1: "shallowcopyactivemounts es None s = Ret (ms, nc, s1)" and 2: "fixparents ms s1 = Ret s2"
    and s': "\<And>j. same_mount (mnt_list s' j) (mnt_list s2 j) \<and> mparent (mnt_list s' j) = mparent (mnt_list s2 j)"
    using copyactivemounts_steps [OF assms(1)] assms(2) by blast
  note sp = shallowcopy_spec [OF 1 assms(3)]
  have disj: "set ms \<inter> set es = {}" using sp assms(3) by auto
  have "fixparents_loop es es ms s1 = Ret s2" using 2 sp assms(2) by (simp add: fixparents_def getactivemounts_def cur_mount_ns_def)
  from fixparents_loop_spec [OF this] sp disj have fp: "\<And>j. j \<notin> set ms \<Longrightarrow> mnt_list s2 j = mnt_list s1 j" "\<And>j. same_mount (mnt_list s2 j) (mnt_list s1 j)"
      "\<And>k. k < length es \<Longrightarrow> (case mparent (mnt_list s1 (es ! k)) of None \<Rightarrow> mparent (mnt_list s2 (ms ! k)) = mparent (mnt_list s1 (ms ! k))
       | Some p \<Rightarrow> finder es (drop k ms) p = Ret (mparent (mnt_list s2 (ms ! k))))" by auto
  have old: "mnt_list s1 e = mnt_list s e" if "e \<in> set es" for e using sp disj that by blast
  have "same_mount (mnt_list s' (ms ! k)) (mnt_list s (es ! k)) \<and> (case mparent (mnt_list s (es ! k)) of
      None \<Rightarrow> mparent (mnt_list s' (ms ! k)) = None | Some p \<Rightarrow> finder es (drop k ms) p = Ret (mparent (mnt_list s' (ms ! k))))"
    if k: "k < length es" for k
  proof
    have "same_mount (mnt_list s1 (ms ! k)) (mnt_list s (es ! k))" "mparent (mnt_list s1 (ms ! k)) = None" using sp k by blast+
    then show "same_mount (mnt_list s' (ms ! k)) (mnt_list s (es ! k))" using fp(2) s' same_mount_trans by blast
    show "case mparent (mnt_list s (es ! k)) of None \<Rightarrow> mparent (mnt_list s' (ms ! k)) = None
        | Some p \<Rightarrow> finder es (drop k ms) p = Ret (mparent (mnt_list s' (ms ! k)))"
      using fp(3) [OF k] old [OF nth_mem [OF k]] s' [of "ms ! k"] \<open>mparent (mnt_list s1 (ms ! k)) = None\<close> by (simp split: option.splits)
  qed
  moreover have "same_mount (mnt_list s' e) (mnt_list s e) \<and> mparent (mnt_list s' e) = mparent (mnt_list s e)" if "e \<in> set es" for e
  proof -
    have "e \<notin> set ms" using disj that by blast
    then show ?thesis using s' [of e] fp(1) [of e] old [OF that] by simp
  qed
  ultimately show ?thesis using sp disj by blast
qed



text \<open>A namespace with a root and one mount below it, the working directory in the latter.\<close>

definition two_mounts :: nst where
  "two_mounts = boot_nst\<lparr>
     mnt_list := (\<lambda>i. if i = 0 then \<lparr>mparent = None, mountpoint = None, mref = 2, isbind = False, msb = 1, mbind = 0\<rparr>
       else if i = 1 then \<lparr>mparent = Some 0, mountpoint = Some 7, mref = 2, isbind = False, msb = 2, mbind = 0\<rparr>
       else \<lparr>mparent = None, mountpoint = None, mref = 0, isbind = False, msb = 0, mbind = 0\<rparr>),
     mountnstable := (\<lambda>i. if i = 0 then \<lparr>nref = 1, nroot = Some 0, active_mounts = [1, 0]\<rparr> else \<lparr>nref = 0, nroot = None, active_mounts = []\<rparr>),
     namespacetable := (\<lambda>_. \<lparr>xref = 1, xmount_ns = 0, xpid_ns = 0\<rparr>), cwdmount := Some 1\<rparr>"


lemma two_mounts_active: "getactivemounts None two_mounts = [1, 0]"
  by (simp add: two_mounts_def getactivemounts_def cur_mount_ns_def boot_nst_def)





section \<open>Closing a mount namespace\<close>

lemma umountall_elsewhere:
  assumes "set ms \<inter> set (getactivemounts None s) = {}" "\<exists>m\<in>set ms. mparent (mnt_list s m) \<noteq> None"
  shows "umountall ms s = Panic ''failed to umount upon namespace close''"
  using assms
proof (induction ms arbitrary: s)
  case (Cons m ms)
  show ?case
  proof (cases "mparent (mnt_list s m)")
    case None
    let ?s = "upd_mnt m (\<lambda>e. e\<lparr>mref := 0\<rparr>) s"
    have "mparent (mnt_list ?s j) = mparent (mnt_list s j)" "getactivemounts None ?s = getactivemounts None s" for j
      by (simp_all add: upd_mnt_def getactivemounts_def cur_mount_ns_def)
    then show ?thesis using Cons None by auto
  next
    case (Some p)
    then show ?thesis using Cons.prems(1) by (simp add: umount_def)
  qed
qed simp

text \<open>
  Claim C27. A process that is alone in its mount namespace, with a mount besides the root in it, cannot unshare it:
  \<open>unshare\<close> installs the copy first and then closes the old namespace, \<open>umount\<close> looks for the
  old mounts in the new namespace and does not find them. However the copy goes, the call ends in a panic.
\<close>

theorem unshare_mount_panics:
  assumes "xref (namespacetable s (cur_nsproxy s)) = 1" "nref (mountnstable s (cur_mount_ns s)) = 1"
    "\<forall>e\<in>set (getactivemounts None s). mref (mnt_list s e) \<noteq> 0" "\<exists>e\<in>set (getactivemounts None s). mparent (mnt_list s e) \<noteq> None"
  shows "\<exists>msg. unshare MOUNT_NS s = Some (Panic msg)"
proof -
  let ?x = "cur_nsproxy s" and ?i = "cur_mount_ns s"
  have "\<exists>msg. unshare_mount s = Panic msg"
  proof (cases "copymount_ns s")
    case (Ret r)
    obtain j s' where r: "r = (j, s')" by (cases r)
    obtain s1 ms s2 q where 1: "allocmount_ns s = Ret (j, s1)" "copyactivemounts s1 = Ret (ms, s2)"
        "s' = upd_mount_ns j (\<lambda>n. n\<lparr>nroot := q\<rparr>) (upd_mount_ns j (\<lambda>n. n\<lparr>active_mounts := ms\<rparr>) s2)"
      using Ret r by (auto simp: copymount_ns_def Let_def bindO_Ret_iff)
    have s1: "nref (mountnstable s j) = 0" "s1 = upd_mount_ns j (\<lambda>n. n\<lparr>nref := 1\<rparr>) s"
      using 1(1) by (auto simp: allocmount_ns_def dest: first_slot_Some split: option.splits)
    then have ij: "?i \<noteq> j" using assms(2) by auto
    have a1: "getactivemounts None s1 = getactivemounts None s" "mnt_list s1 = mnt_list s"
      using s1(2) ij by (simp_all add: getactivemounts_def cur_mount_ns_def upd_mount_ns_def)
    note ce = copyactivemounts_entries [OF 1(2) a1(1) [symmetric], unfolded a1, OF assms(3)]
    have f: "mountnstable s2 = mountnstable s1 \<and> namespacetable s2 = namespacetable s1 \<and> cur_nsproxy s2 = cur_nsproxy s1"
      by (rule copyactivemounts_frame [OF 1(2)])
    let ?s = "upd_proxy (cur_nsproxy s') (\<lambda>x. x\<lparr>xmount_ns := j\<rparr>) s'"
    have "cur_nsproxy s' = ?x" using 1(3) f s1(2) by (simp add: upd_mount_ns_def)
    then have new: "getactivemounts None ?s = ms" "mnt_list ?s = mnt_list s2" "mountnstable ?s ?i = mountnstable s ?i"
      using 1(3) f s1(2) ij by (simp_all add: getactivemounts_def cur_mount_ns_def upd_proxy_def upd_mount_ns_def)
    have es: "active_mounts (mountnstable s ?i) = getactivemounts None s" by (simp add: getactivemounts_def)
    have "umountall (getactivemounts None s) ?s = Panic ''failed to umount upon namespace close''"
      by (rule umountall_elsewhere) (use ce assms(4) new in auto)
    then have "mount_nsput ?i ?s = Panic ''failed to umount upon namespace close''"
      unfolding mount_nsput_def new(3) es using assms(2) by simp
    then show ?thesis using Ret r by (simp add: unshare_mount_def Let_def)
  qed (simp add: unshare_mount_def Let_def)
  then show ?thesis using assms(1) by (auto simp: unshare_def unshare_proxy_def)
qed

theorem unshare_mount_panics_witness:
  "\<exists>msg. unshare MOUNT_NS two_mounts = Some (Panic msg)"
proof (rule unshare_mount_panics)
  show "\<forall>e\<in>set (getactivemounts None two_mounts). mref (mnt_list two_mounts e) \<noteq> 0"
    "\<exists>e\<in>set (getactivemounts None two_mounts). mparent (mnt_list two_mounts e) \<noteq> None"
    unfolding two_mounts_active by (simp_all add: two_mounts_def)
qed (simp_all add: two_mounts_def boot_nst_def cur_mount_ns_def)

end
