(* ===== verification/Cgroup.thy ===== *)
theory Cgroup
  imports Kalloc Klib Ref_Table
begin

text \<open>
  Control groups: \<open>kernel/cgroup.c\<close>, the path functions of \<open>kernel/fs/cgfs.c\<close> it calls and the
  protected-page helpers of \<open>kernel/vm.c\<close>. The table of groups is a function from indices;
  a group's \<open>parent\<close> pointer is an optional index and its \<open>proc\<close> array a function from slots to
  indices of the process table. Paths are character lists without the terminating NUL. Each
  routine runs under \<open>cgtable.lock\<close>, so it is one step. The loops that climb from a group to the
  root end only when the parents form a tree: they are partial functions, and the invariant
  below shows that they return.
\<close>

section \<open>Constants and data\<close>

definition NPROC :: nat where "NPROC = 64"
definition NCPU :: int where "NCPU = 8"
definition NDEV :: nat where "NDEV = 10"
definition DEVICE_NAME :: nat where "DEVICE_NAME = 17"
definition MAX_DES_DEF :: u32 where "MAX_DES_DEF = 64"
definition MAX_DEP_DEF :: u32 where "MAX_DEP_DEF = 64"
definition CGROUP_ACCOUNT_PERIOD_100MS :: u32 where "CGROUP_ACCOUNT_PERIOD_100MS = 100 * 1000"

datatype result_code = RESULT_ERROR_OPERATION | RESULT_ERROR_ARGUMENT | RESULT_ERROR | RESULT_SUCCESS
  | RESULT_SUCCESS_OPERATION

text \<open>The entry of \<open>io_stats\<close> without the driver's own counters.\<close>

record cgroup_io_device_statistics =
  dev_name :: "u8 list"
  major :: u32
  minor :: u32

text \<open>
  The four controllers; the pairs of flags \<open>cpu_controller_avalible\<close>, \<open>cpu_controller_enabled\<close>, ...
  of the struct are the two functions \<open>avalible\<close> and \<open>enabled\<close>.
\<close>

datatype controller = Cpu | Pid | CpuSet | Mem

record cgroup =
  cgroup_dir_path :: string
  ref_count :: int
  cproc :: "nat \<Rightarrow> nat option"
  num_of_procs :: int
  cparent :: "nat option"
  avalible :: "controller \<Rightarrow> bool"
  enabled :: "controller \<Rightarrow> bool"
  populated :: bool
  max_descendants_value :: u32
  max_depth_value :: u32
  depth :: u32
  nr_descendants :: u32
  nr_dying_descendants :: u32
  max_num_of_procs :: int
  cpu_to_use :: u8
  is_frozen :: int
  current_mem :: u32
  current_page :: u32
  mem_stat_file_dirty :: u32
  mem_stat_file_dirty_aggregated :: u32
  mem_stat_pgfault :: u32
  mem_stat_pgmajfault :: u32
  max_mem :: u32
  min_mem :: u32
  protected_mem :: u32
  cpu_time :: u64
  cpu_period_time :: u32
  cpu_percent :: u32
  cpu_account_period :: u32
  cpu_time_limit :: u32
  cpu_account_frame :: u32
  cpu_nr_periods :: u32
  cpu_nr_throttled :: u32
  cpu_throttled_usec :: u32
  cpu_is_throttled_period :: bool
  used_devices :: u32
  io_stats :: "nat \<Rightarrow> cgroup_io_device_statistics"

text \<open>
  The table with what the routines read and write of the processes, their sizes and groups, and
  the page allocator, whose counter of protected pages they adjust.
\<close>

record cgtable =
  cgroups :: "nat \<Rightarrow> cgroup"
  psz :: "nat \<Rightarrow> u32"
  pcgroup :: "nat \<Rightarrow> nat option"
  cmem :: kmem

definition upd_cg :: "nat \<Rightarrow> (cgroup \<Rightarrow> cgroup) \<Rightarrow> cgtable \<Rightarrow> cgtable" where
  "upd_cg g f s = s\<lparr>cgroups := (cgroups s)(g := f (cgroups s g))\<rparr>"

text \<open>\<open>PGROUNDUP(sz) / PGSIZE\<close> on a \<open>uint\<close>.\<close>

definition pages_of :: "u32 \<Rightarrow> u32" where
  "pages_of sz = ((sz + 0xFFF) AND NOT 0xFFF) div 0x1000"

text \<open>\<open>cgroup_root\<close> is the first entry of the table.\<close>

definition cgroup_root :: nat where "cgroup_root = 0"

section \<open>Paths\<close>

text \<open>
  The copying loop of \<open>format_path\<close>: \<open>n\<close> characters remain up to \<open>path_end\<close>, \<open>path\<close> is the rest of
  the string and \<open>rbuf\<close> what is in the buffer before \<open>bufp\<close>, last character first. The result
  is the empty string when \<open>..\<close> leaves the root.
\<close>

definition at_end :: "string \<Rightarrow> bool" where
  "at_end path = (case path of [] \<Rightarrow> True | c # _ \<Rightarrow> c = CHR ''/'')"

fun format_path_loop :: "nat \<Rightarrow> string \<Rightarrow> string \<Rightarrow> string option" where
  "format_path_loop (Suc n) (c # path) rbuf =
    (if (case rbuf of [] \<Rightarrow> False | b # _ \<Rightarrow> b = CHR ''/'') \<and> c = CHR ''.'' then
       if at_end path then format_path_loop (n - 1) (drop 1 path) rbuf
       else if hd path = CHR ''.'' \<and> at_end (tl path) then
         (case dropWhile (\<lambda>b. b \<noteq> CHR ''/'') (tl rbuf) of
            [] \<Rightarrow> None
          | r \<Rightarrow> format_path_loop (n - 2) (drop 2 path) r)
       else format_path_loop n path (c # rbuf)
     else format_path_loop n path (c # rbuf))"
| "format_path_loop _ _ rbuf = Some rbuf"

text \<open>\<open>cwdp\<close> is the working directory of the calling process, never empty while it runs.\<close>

definition format_path :: "string \<Rightarrow> string \<Rightarrow> string" where
  "format_path cwdp path =
    (let rbuf = (case path of
           CHR ''/'' # _ \<Rightarrow> []
         | _ \<Rightarrow> (case rev cwdp of CHR ''/'' # r \<Rightarrow> CHR ''/'' # r | r \<Rightarrow> CHR ''/'' # r));
         n = (case path of [] \<Rightarrow> 0 | _ \<Rightarrow> max 1 (length (dropWhile (\<lambda>c. c = CHR ''/'') (rev path))))
     in case format_path_loop n path rbuf of
          None \<Rightarrow> []
        | Some rbuf \<Rightarrow> (case rbuf of CHR ''/'' # b # r \<Rightarrow> rev (b # r) | r \<Rightarrow> rev r))"

text \<open>The position of the last slash, 0 when there is none, as the pointer \<open>file_name_temp\<close>.\<close>

definition last_slash :: "string \<Rightarrow> nat" where
  "last_slash p = fold (\<lambda>i acc. if p ! i = CHR ''/'' then i else acc) [0..<length p] 0"

definition get_base_name :: "string \<Rightarrow> string \<Rightarrow> string option" where
  "get_base_name cwdp path =
    (let fpath = format_path cwdp path; k = last_slash fpath in
     if k = 0 \<or> k + 1 = length fpath then None else Some (drop (k + 1) fpath))"

definition get_dir_name :: "string \<Rightarrow> string \<Rightarrow> string option" where
  "get_dir_name cwdp path =
    (let fpath = format_path cwdp path; k = last_slash fpath in
     if k = 0 \<or> k + 1 = length fpath then None else Some (take k fpath))"

definition unsafe_get_cgroup_by_path :: "string \<Rightarrow> string \<Rightarrow> cgtable \<Rightarrow> nat option" where
  "unsafe_get_cgroup_by_path cwdp path s =
    (let fpath = format_path cwdp path in
     if fpath \<noteq> [] then first_slot (\<lambda>i. cgroup_dir_path (cgroups s i) = fpath) NPROC else None)"

definition unsafe_set_cgroup_dir_path :: "string \<Rightarrow> nat \<Rightarrow> string \<Rightarrow> cgtable \<Rightarrow> cgtable" where
  "unsafe_set_cgroup_dir_path cwdp g path s =
    (let fpath = format_path cwdp path in
     if fpath \<noteq> [] then upd_cg g (\<lambda>c. c\<lparr>cgroup_dir_path := fpath\<rparr>) s else s)"

section \<open>Limits\<close>

definition set_max_descendants_value :: "nat \<Rightarrow> u32 \<Rightarrow> cgtable \<Rightarrow> cgtable" where
  "set_max_descendants_value g v = upd_cg g (\<lambda>c. c\<lparr>max_descendants_value := v\<rparr>)"

definition set_max_depth_value :: "nat \<Rightarrow> u32 \<Rightarrow> cgtable \<Rightarrow> cgtable" where
  "set_max_depth_value g v = upd_cg g (\<lambda>c. c\<lparr>max_depth_value := v\<rparr>)"

definition set_nr_descendants :: "nat \<Rightarrow> u32 \<Rightarrow> cgtable \<Rightarrow> cgtable" where
  "set_nr_descendants g v = upd_cg g (\<lambda>c. c\<lparr>nr_descendants := v\<rparr>)"

definition set_nr_dying_descendants :: "nat \<Rightarrow> u32 \<Rightarrow> cgtable \<Rightarrow> cgtable" where
  "set_nr_dying_descendants g v = upd_cg g (\<lambda>c. c\<lparr>nr_dying_descendants := v\<rparr>)"

definition set_max_procs :: "nat option \<Rightarrow> int \<Rightarrow> cgtable \<Rightarrow> result_code \<times> cgtable" where
  "set_max_procs cg limit s =
    (case cg of None \<Rightarrow> (RESULT_ERROR, s)
     | Some g \<Rightarrow> if 0 \<le> limit \<and> limit \<le> int NPROC
        then (RESULT_SUCCESS_OPERATION, upd_cg g (\<lambda>c. c\<lparr>max_num_of_procs := limit\<rparr>) s)
        else (RESULT_SUCCESS, s))"

text \<open>\<open>cpu_to_use\<close> is a byte.\<close>

definition set_cpu_id :: "nat option \<Rightarrow> int \<Rightarrow> cgtable \<Rightarrow> result_code \<times> cgtable" where
  "set_cpu_id cg cpuid s =
    (case cg of None \<Rightarrow> (RESULT_ERROR, s)
     | Some g \<Rightarrow> if 0 \<le> cpuid \<and> cpuid \<le> NCPU + 1
        then (RESULT_SUCCESS_OPERATION, upd_cg g (\<lambda>c. c\<lparr>cpu_to_use := of_int cpuid\<rparr>) s)
        else (RESULT_SUCCESS, s))"

definition frz_grp :: "nat option \<Rightarrow> int \<Rightarrow> cgtable \<Rightarrow> result_code \<times> cgtable" where
  "frz_grp cg frz s =
    (case cg of None \<Rightarrow> (RESULT_ERROR, s)
     | Some g \<Rightarrow> if frz = 1 \<or> frz = 0 then (RESULT_SUCCESS_OPERATION, upd_cg g (\<lambda>c. c\<lparr>is_frozen := frz\<rparr>) s)
        else (RESULT_SUCCESS, s))"

definition set_max_mem :: "nat option \<Rightarrow> u32 \<Rightarrow> cgtable \<Rightarrow> result_code \<times> cgtable" where
  "set_max_mem cg limit s =
    (case cg of None \<Rightarrow> (RESULT_ERROR, s)
     | Some g \<Rightarrow> if unat limit \<le> KERNBASE \<and> min_mem (cgroups s g) \<le> limit
        then (RESULT_SUCCESS_OPERATION, upd_cg g (\<lambda>c. c\<lparr>max_mem := limit\<rparr>) s)
        else (RESULT_SUCCESS, s))"

text \<open>An \<open>int\<close> computed from \<open>uint\<close> operands is their wrapped difference read as signed.\<close>

definition set_protect_mem :: "nat \<Rightarrow> u32 \<Rightarrow> cgtable \<Rightarrow> result_code \<times> cgtable" where
  "set_protect_mem g pages s =
    (let c = cgroups s g; protect = pages - current_page c in
     if sint protect \<le> 0 then
       if protected_mem c \<noteq> 0
       then (RESULT_SUCCESS, upd_cg g (\<lambda>c. c\<lparr>protected_mem := 0\<rparr>)
               (s\<lparr>cmem := fst (decrese_protect_counter (sint (protected_mem c)) (cmem s))\<rparr>))
       else (RESULT_SUCCESS, s)
     else
       (case increse_protect_counter (sint (protect - protected_mem c)) (cmem s) of (k, r) \<Rightarrow>
          if r = 0 then (RESULT_SUCCESS, upd_cg g (\<lambda>c. c\<lparr>protected_mem := protect\<rparr>) (s\<lparr>cmem := k\<rparr>))
          else (RESULT_ERROR, s\<lparr>cmem := k\<rparr>)))"

definition set_min_mem :: "nat option \<Rightarrow> u32 \<Rightarrow> cgtable \<Rightarrow> result_code \<times> cgtable" where
  "set_min_mem cg limit s =
    (case cg of None \<Rightarrow> (RESULT_ERROR, s)
     | Some g \<Rightarrow> if unat limit \<le> KERNBASE \<and> limit \<le> max_mem (cgroups s g) then
          (case set_protect_mem g (pages_of limit) s of (r, s) \<Rightarrow>
             if r = RESULT_SUCCESS then (RESULT_SUCCESS_OPERATION, upd_cg g (\<lambda>c. c\<lparr>min_mem := limit\<rparr>) s)
             else (RESULT_SUCCESS, s))
        else (RESULT_SUCCESS, s))"

section \<open>Membership\<close>

text \<open>The loops \<open>while (cgroup != 0) { ...; cgroup = cgroup->parent; }\<close> that update a group and its ancestors.\<close>

partial_function (option) climb :: "(cgroup \<Rightarrow> cgroup) \<Rightarrow> nat option \<Rightarrow> cgtable \<Rightarrow> cgtable option" where
  "climb f cg s =
    (case cg of
       None \<Rightarrow> Some s
     | Some g \<Rightarrow> climb f (cparent (cgroups (upd_cg g f s) g)) (upd_cg g f s))"

definition erase_account :: "u32 \<Rightarrow> cgroup \<Rightarrow> cgroup" where
  "erase_account sz c = c\<lparr>num_of_procs := num_of_procs c - 1, current_mem := current_mem c - sz,
     current_page := current_page c - pages_of sz,
     populated := (if num_of_procs c - 1 = 0 then False else populated c)\<rparr>"

definition unsafe_cgroup_erase :: "nat \<Rightarrow> nat \<Rightarrow> cgtable \<Rightarrow> cgtable option" where
  "unsafe_cgroup_erase g p s =
    (case first_slot (\<lambda>i. cproc (cgroups s g) i = Some p) NPROC of
       None \<Rightarrow> Some s
     | Some i \<Rightarrow>
        let s = s\<lparr>pcgroup := (pcgroup s)(p := Some cgroup_root)\<rparr>;
            s = upd_cg g (\<lambda>c. c\<lparr>cproc := (cproc c)(i := None)\<rparr>) s
        in climb (erase_account (psz s p)) (Some g) s)"

text \<open>\<open>protect_memory\<close>: sizes are below \<open>KERNBASE\<close>, so the signed page count is the unsigned one.\<close>

definition calc_dec_dst_protect_pg :: "nat \<Rightarrow> u32 \<Rightarrow> cgtable \<Rightarrow> u32" where
  "calc_dec_dst_protect_pg g proc_pg s =
    (let c = cgroups s g in
     if g \<noteq> cgroup_root \<and> enabled c Mem \<and> protected_mem c \<noteq> 0 then
       let used_pg = current_page c + proc_pg; need_protect = pages_of (min_mem c) - used_pg in
       if sint need_protect \<le> 0 then protected_mem c else protected_mem c - need_protect
     else 0)"

definition calc_inc_src_protect_pg :: "nat \<Rightarrow> u32 \<Rightarrow> cgtable \<Rightarrow> u32" where
  "calc_inc_src_protect_pg g proc_pg s =
    (let c = cgroups s g in
     if g \<noteq> cgroup_root \<and> enabled c Mem then
       let used_pg = current_page c - proc_pg; need_protect = pages_of (min_mem c) - used_pg in
       if sint need_protect \<le> 0 then 0 else need_protect - protected_mem c
     else 0)"

definition protect_memory :: "nat \<Rightarrow> nat \<Rightarrow> u32 \<Rightarrow> cgtable \<Rightarrow> result_code \<times> cgtable" where
  "protect_memory src dst proc_size s =
    (let proc_pg = pages_of proc_size;
         dec = calc_dec_dst_protect_pg dst proc_pg s;
         inc = calc_inc_src_protect_pg src proc_pg s
     in case increse_protect_counter (sint (inc - dec)) (cmem s) of (k, r) \<Rightarrow>
       if r = 0 then
         (RESULT_SUCCESS,
          upd_cg src (\<lambda>c. c\<lparr>protected_mem := protected_mem c + inc\<rparr>)
            (upd_cg dst (\<lambda>c. c\<lparr>protected_mem := protected_mem c - dec\<rparr>) (s\<lparr>cmem := k\<rparr>)))
       else (RESULT_ERROR, s\<lparr>cmem := k\<rparr>))"

definition insert_account :: "u32 \<Rightarrow> cgroup \<Rightarrow> cgroup" where
  "insert_account sz c = c\<lparr>num_of_procs := num_of_procs c + 1, populated := True,
     current_mem := current_mem c + sz, current_page := current_page c + pages_of sz\<rparr>"

definition insert_commit :: "nat \<Rightarrow> nat \<Rightarrow> nat \<Rightarrow> cgtable \<Rightarrow> (result_code \<times> cgtable) option" where
  "insert_commit g p index s =
    (let s = upd_cg g (\<lambda>c. c\<lparr>cproc := (cproc c)(index := Some p)\<rparr>) s;
         s = s\<lparr>pcgroup := (pcgroup s)(p := Some g)\<rparr>
     in map_option (\<lambda>s. (RESULT_SUCCESS, s)) (climb (insert_account (psz s p)) (Some g) s))"

definition unsafe_cgroup_insert :: "nat \<Rightarrow> nat \<Rightarrow> cgtable \<Rightarrow> (result_code \<times> cgtable) option" where
  "unsafe_cgroup_insert g p s =
    (let c = cgroups s g in
     if enabled c Pid \<and> num_of_procs c + 1 > max_num_of_procs c then Some (RESULT_ERROR, s)
     else if enabled c Mem \<and> current_mem c + psz s p > max_mem c then Some (RESULT_ERROR, s)
     else if list_ex (\<lambda>i. cproc c i = Some p) [0..<NPROC] then Some (RESULT_SUCCESS, s)
     else case first_slot (\<lambda>i. cproc c i = None) NPROC of
       None \<Rightarrow> Some (RESULT_ERROR, s)
     | Some index \<Rightarrow>
        (case pcgroup s p of
           None \<Rightarrow> insert_commit g p index s
         | Some old \<Rightarrow>
            (case protect_memory old g (psz s p) s of (r, s) \<Rightarrow>
               if r \<noteq> RESULT_SUCCESS then Some (RESULT_ERROR, s)
               else Option.bind (unsafe_cgroup_erase old p s) (insert_commit g p index))))"

section \<open>Creating and deleting groups\<close>

definition init_root :: "cgroup \<Rightarrow> cgroup" where
  "init_root c = c\<lparr>avalible := (\<lambda>_. True), enabled := (\<lambda>k. k \<noteq> CpuSet), depth := 0, cgroup_dir_path := [],
     cparent := None\<rparr>"

definition init_child :: "nat \<Rightarrow> cgroup \<Rightarrow> cgroup \<Rightarrow> cgroup" where
  "init_child p parent c = c\<lparr>cparent := Some p,
     avalible := (\<lambda>k. if k = CpuSet \<and> p = cgroup_root then True else enabled parent k),
     enabled := (\<lambda>_. False), depth := depth parent + 1\<rparr>"

definition init_counters :: "cgroup \<Rightarrow> cgroup" where
  "init_counters c = c\<lparr>ref_count := 0, num_of_procs := 0, populated := False, current_mem := 0\<rparr>"

definition init_stats :: "cgroup \<Rightarrow> cgroup" where
  "init_stats c = c\<lparr>mem_stat_file_dirty := 0, mem_stat_file_dirty_aggregated := 0, mem_stat_pgfault := 0,
     mem_stat_pgmajfault := 0\<rparr>"

text \<open>The call of \<open>memset\<close> clears the first entry of \<open>io_stats\<close> only.\<close>

definition init_cpu_io :: "cgroup \<Rightarrow> cgroup" where
  "init_cpu_io c = c\<lparr>current_page := 0, protected_mem := 0, cpu_account_frame := 0, cpu_percent := 0, cpu_time := 0,
     cpu_period_time := 0, cpu_time_limit := NOT 0, cpu_account_period := CGROUP_ACCOUNT_PERIOD_100MS,
     cpu_nr_periods := 0, cpu_nr_throttled := 0, cpu_throttled_usec := 0, cpu_is_throttled_period := False,
     io_stats := (io_stats c)(0 := \<lparr>dev_name = replicate DEVICE_NAME 0, major = 0, minor = 0\<rparr>),
     used_devices := 0\<rparr>"

definition cgroup_initialize :: "string \<Rightarrow> nat \<Rightarrow> string \<Rightarrow> nat option \<Rightarrow> cgtable \<Rightarrow> cgtable" where
  "cgroup_initialize cwdp g path parent s =
    (let s = (case parent of
           None \<Rightarrow> upd_cg g init_root s
         | Some p \<Rightarrow> unsafe_set_cgroup_dir_path cwdp g path (upd_cg g (init_child p (cgroups s p)) s));
         s = upd_cg g init_counters s;
         s = set_nr_dying_descendants g 0 (set_nr_descendants g 0
               (set_max_depth_value g MAX_DEP_DEF (set_max_descendants_value g MAX_DES_DEF s)));
         s = snd (set_max_procs (Some g) (int NPROC) s);
         s = snd (set_cpu_id (Some g) 0 s);
         s = snd (frz_grp (Some g) 0 s);
         s = upd_cg g init_stats s;
         s = snd (set_max_mem (Some g)
               (case parent of None \<Rightarrow> of_nat KERNBASE | Some p \<Rightarrow> max_mem (cgroups s p)) s);
         s = snd (set_min_mem (Some g) 0 s)
     in upd_cg g init_cpu_io s)"

text \<open>The loop of \<open>cgroup_create\<close> over the ancestors, with its counter \<open>i\<close>.\<close>

partial_function (option) create_check :: "u32 \<Rightarrow> nat option \<Rightarrow> cgtable \<Rightarrow> unit outcome option" where
  "create_check i cg s =
    (case cg of
       None \<Rightarrow> Some (Ret ())
     | Some g \<Rightarrow>
        if max_depth_value (cgroups s g) \<le> i then Some (Panic ''cgroup_create: max depth allowed reached'')
        else if max_descendants_value (cgroups s g) = nr_descendants (cgroups s g)
        then Some (Panic ''cgroup_create: max number of descendants allowed reached'')
        else create_check (i + 1) (cparent (cgroups s g)) s)"

definition free_cgroup :: "cgtable \<Rightarrow> nat option" where
  "free_cgroup s = find (\<lambda>i. cgroup_dir_path (cgroups s i) = [] \<and> ref_count (cgroups s i) = 0) [1..<NPROC]"

definition create_commit :: "string \<Rightarrow> string \<Rightarrow> nat \<Rightarrow> cgtable \<Rightarrow> (nat option \<times> cgtable) outcome option" where
  "create_commit cwdp fpath parent s =
    (case free_cgroup s of
       None \<Rightarrow> Some (Panic ''cgroup_create: no avalible cgroup slots'')
     | Some g \<Rightarrow>
        map_option (\<lambda>s. Ret (Some g, s))
          (climb (\<lambda>c. c\<lparr>nr_descendants := nr_descendants c + 1\<rparr>) (Some parent) (cgroup_initialize cwdp g fpath (Some parent) s)))"

definition cgroup_create :: "string \<Rightarrow> string \<Rightarrow> cgtable \<Rightarrow> (nat option \<times> cgtable) outcome option" where
  "cgroup_create cwdp path s =
    (let fpath = format_path cwdp path in
     case (get_dir_name cwdp fpath, get_base_name cwdp fpath) of
       (Some parent_path, Some new_dir_name) \<Rightarrow>
         (case unsafe_get_cgroup_by_path cwdp parent_path s of
            None \<Rightarrow> Some (Ret (None, s))
          | Some parent \<Rightarrow>
             (case create_check 0 (Some parent) s of
                None \<Rightarrow> None
              | Some (Panic msg) \<Rightarrow> Some (Panic msg)
              | Some (Ret _) \<Rightarrow> create_commit cwdp fpath parent s))
     | _ \<Rightarrow> Some (Ret (None, s)))"

definition cgroup_delete :: "string \<Rightarrow> string \<Rightarrow> string \<Rightarrow> cgtable \<Rightarrow> (result_code \<times> cgtable) option" where
  "cgroup_delete cwdp path type s =
    (case unsafe_get_cgroup_by_path cwdp path s of
       None \<Rightarrow> Some (RESULT_ERROR_ARGUMENT, s)
     | Some g \<Rightarrow>
        let c = cgroups s g in
        if type = ''umount'' \<and> g \<noteq> cgroup_root then Some (RESULT_ERROR_OPERATION, s)
        else if type = ''unlink'' \<and> g = cgroup_root then Some (RESULT_ERROR_OPERATION, s)
        else if nr_descendants c \<noteq> 0 \<or> num_of_procs c \<noteq> 0 \<and> g \<noteq> cgroup_root then Some (RESULT_ERROR_OPERATION, s)
        else
          let s = (if g \<noteq> cgroup_root \<and> enabled c Mem then snd (set_min_mem (Some g) 0 s) else s);
              s = upd_cg g (\<lambda>c. c\<lparr>cgroup_dir_path := []\<rparr>) s;
              dying = ref_count (cgroups s g) > 0
          in map_option (\<lambda>s. (RESULT_SUCCESS, s))
               (climb (\<lambda>c. c\<lparr>nr_descendants := nr_descendants c - 1,
                    nr_dying_descendants := (if dying then nr_dying_descendants c + 1 else nr_dying_descendants c)\<rparr>)
                  (cparent (cgroups s g)) s))"

definition decrement_nr_dying_descendants :: "nat option \<Rightarrow> cgtable \<Rightarrow> cgtable option" where
  "decrement_nr_dying_descendants = climb (\<lambda>c. c\<lparr>nr_dying_descendants := nr_dying_descendants c - 1\<rparr>)"

text \<open>The names of the children, written 64 bytes apart into the buffer.\<close>

definition get_cgroup_names_at_path :: "string \<Rightarrow> cgtable \<Rightarrow> string list" where
  "get_cgroup_names_at_path path s =
    (if path = [] then []
     else map (\<lambda>i. drop (length path + 1) (cgroup_dir_path (cgroups s i)))
       (filter (\<lambda>i. cgroup_dir_path (cgroups s i) \<noteq> [] \<and>
          (case cparent (cgroups s i) of None \<Rightarrow> False | Some p \<Rightarrow> cgroup_dir_path (cgroups s p) = path)) [1..<NPROC]))"

text \<open>
  This loop starts at the root group, whose \<open>parent\<close> is null: once the root is mounted, the string
  compared with its path is whatever lies at address 0, here \<open>null_path\<close>.
\<close>

definition cgorup_num_of_immidiate_children :: "string \<Rightarrow> nat \<Rightarrow> cgtable \<Rightarrow> int" where
  "cgorup_num_of_immidiate_children null_path g s =
    (let path = cgroup_dir_path (cgroups s g) in
     if path = [] then - 1
     else int (length (filter (\<lambda>i. cgroup_dir_path (cgroups s i) \<noteq> [] \<and>
       (case cparent (cgroups s i) of None \<Rightarrow> null_path | Some p \<Rightarrow> cgroup_dir_path (cgroups s p)) = path) [0..<NPROC])))"

section \<open>Controllers\<close>

text \<open>
  The four pairs of routines have one shape. \<open>set_avalible\<close> is their loop over the table that
  changes the flag of the children, \<open>child_enabled\<close> the loop that looks for a child with the
  controller enabled.
\<close>

definition set_avalible :: "controller \<Rightarrow> bool \<Rightarrow> nat \<Rightarrow> cgtable \<Rightarrow> cgtable" where
  "set_avalible k b g s = s\<lparr>cgroups := (\<lambda>i. if 1 \<le> i \<and> i < NPROC \<and> cparent (cgroups s i) = Some g
     then (cgroups s i)\<lparr>avalible := (avalible (cgroups s i))(k := b)\<rparr> else cgroups s i)\<rparr>"

definition child_enabled :: "controller \<Rightarrow> nat \<Rightarrow> cgtable \<Rightarrow> bool" where
  "child_enabled k g s = list_ex (\<lambda>i. cparent (cgroups s i) = Some g \<and> enabled (cgroups s i) k) [1..<NPROC]"

definition set_enabled :: "controller \<Rightarrow> bool \<Rightarrow> nat \<Rightarrow> cgtable \<Rightarrow> cgtable" where
  "set_enabled k b g = upd_cg g (\<lambda>c. c\<lparr>enabled := (enabled c)(k := b)\<rparr>)"

definition enable_controller :: "controller \<Rightarrow> nat option \<Rightarrow> cgtable \<Rightarrow> result_code \<times> cgtable" where
  "enable_controller k cg s =
    (case cg of
       None \<Rightarrow> (RESULT_ERROR, s)
     | Some g \<Rightarrow>
        if populated (cgroups s g) then (RESULT_ERROR, s)
        else if enabled (cgroups s g) k then (RESULT_SUCCESS, s)
        else if avalible (cgroups s g) k then (RESULT_SUCCESS, set_avalible k True g (set_enabled k True g s))
        else (RESULT_SUCCESS, s))"

definition disable_controller :: "controller \<Rightarrow> nat option \<Rightarrow> cgtable \<Rightarrow> result_code \<times> cgtable" where
  "disable_controller k cg s =
    (case cg of
       None \<Rightarrow> (RESULT_ERROR, s)
     | Some g \<Rightarrow>
        if \<not> enabled (cgroups s g) k then (RESULT_SUCCESS, s)
        else if child_enabled k g s then (RESULT_ERROR, s)
        else (RESULT_SUCCESS, set_avalible k False g (set_enabled k False g s)))"

definition unsafe_enable_cpu_controller :: "nat option \<Rightarrow> cgtable \<Rightarrow> result_code \<times> cgtable" where
  "unsafe_enable_cpu_controller = enable_controller Cpu"

definition unsafe_disable_cpu_controller :: "nat option \<Rightarrow> cgtable \<Rightarrow> result_code \<times> cgtable" where
  "unsafe_disable_cpu_controller = disable_controller Cpu"

definition unsafe_enable_pid_controller :: "nat option \<Rightarrow> cgtable \<Rightarrow> result_code \<times> cgtable" where
  "unsafe_enable_pid_controller = enable_controller Pid"

definition unsafe_disable_pid_controller :: "nat option \<Rightarrow> cgtable \<Rightarrow> result_code \<times> cgtable" where
  "unsafe_disable_pid_controller = disable_controller Pid"

definition unsafe_enable_set_controller :: "nat option \<Rightarrow> cgtable \<Rightarrow> result_code \<times> cgtable" where
  "unsafe_enable_set_controller = enable_controller CpuSet"

definition unsafe_disable_set_controller :: "nat option \<Rightarrow> cgtable \<Rightarrow> result_code \<times> cgtable" where
  "unsafe_disable_set_controller = disable_controller CpuSet"

definition unsafe_enable_mem_controller :: "nat option \<Rightarrow> cgtable \<Rightarrow> result_code \<times> cgtable" where
  "unsafe_enable_mem_controller cg s =
    (case cg of
       None \<Rightarrow> (RESULT_ERROR, s)
     | Some g \<Rightarrow>
        let c = cgroups s g in
        if populated c then (RESULT_ERROR, s)
        else if enabled c Mem then (RESULT_SUCCESS, s)
        else
          let protect = sint (pages_of (min_mem c) - current_page c);
              (k, r) = (if protect > 0 then increse_protect_counter protect (cmem s) else (cmem s, 0));
              s = s\<lparr>cmem := k\<rparr>
          in if r \<noteq> 0 then (RESULT_ERROR, s)
             else if avalible c Mem then (RESULT_SUCCESS, set_avalible Mem True g (set_enabled Mem True g s))
             else (RESULT_SUCCESS, s))"

definition unsafe_disable_mem_controller :: "nat option \<Rightarrow> cgtable \<Rightarrow> result_code \<times> cgtable" where
  "unsafe_disable_mem_controller cg s =
    (case cg of
       None \<Rightarrow> (RESULT_ERROR, s)
     | Some g \<Rightarrow>
        if \<not> enabled (cgroups s g) Mem then (RESULT_SUCCESS, s)
        else if child_enabled Mem g s then (RESULT_ERROR, s)
        else
          let s = set_enabled Mem False g s;
              s = snd (set_min_mem (Some g) 0 s);
              s = snd (set_max_mem (Some g) (of_nat KERNBASE) s)
          in (RESULT_SUCCESS, set_avalible Mem False g s))"

section \<open>Statistics and devices\<close>

text \<open>The tests of the statistics routines: a populated group other than the root.\<close>

definition stat_incr :: "(cgroup \<Rightarrow> cgroup) \<Rightarrow> nat option \<Rightarrow> cgtable \<Rightarrow> cgtable" where
  "stat_incr f cg s =
    (case cg of None \<Rightarrow> s | Some g \<Rightarrow> if g \<noteq> cgroup_root \<and> populated (cgroups s g) then upd_cg g f s else s)"

definition cgroup_mem_stat_file_dirty_incr :: "nat option \<Rightarrow> cgtable \<Rightarrow> cgtable" where
  "cgroup_mem_stat_file_dirty_incr = stat_incr (\<lambda>c. c\<lparr>mem_stat_file_dirty := mem_stat_file_dirty c + 1\<rparr>)"

definition cgroup_mem_stat_file_dirty_decr :: "nat option \<Rightarrow> cgtable \<Rightarrow> cgtable" where
  "cgroup_mem_stat_file_dirty_decr = stat_incr (\<lambda>c. c\<lparr>mem_stat_file_dirty := mem_stat_file_dirty c - 1\<rparr>)"

definition cgroup_mem_stat_file_dirty_aggregated_incr :: "nat option \<Rightarrow> cgtable \<Rightarrow> cgtable" where
  "cgroup_mem_stat_file_dirty_aggregated_incr =
    stat_incr (\<lambda>c. c\<lparr>mem_stat_file_dirty_aggregated := mem_stat_file_dirty_aggregated c + 1\<rparr>)"

definition cgroup_mem_stat_pgfault_incr :: "nat option \<Rightarrow> cgtable \<Rightarrow> cgtable" where
  "cgroup_mem_stat_pgfault_incr = stat_incr (\<lambda>c. c\<lparr>mem_stat_pgfault := mem_stat_pgfault c + 1\<rparr>)"

definition cgroup_mem_stat_pgmajfault_incr :: "nat option \<Rightarrow> cgtable \<Rightarrow> cgtable" where
  "cgroup_mem_stat_pgmajfault_incr = stat_incr (\<lambda>c. c\<lparr>mem_stat_pgmajfault := mem_stat_pgmajfault c + 1\<rparr>)"

text \<open>The name of a device in a buffer: \<open>itoa\<close> of both numbers around a colon, \<open>None\<close> past its end.\<close>

definition dev_id_to_name :: "u32 \<Rightarrow> u32 \<Rightarrow> u8 list \<Rightarrow> u8 list option" where
  "dev_id_to_name mj mn buf =
    Option.bind (itoa buf (sint mj)) (\<lambda>(buf, _).
    let t = length (takeWhile (\<lambda>b. b \<noteq> 0) buf) in
    Option.bind (store buf t 58) (\<lambda>buf.
    Option.bind (itoa (drop (t + 1) buf) (sint mn)) (\<lambda>(rest, _).
    Some (take (t + 1) buf @ rest))))"

text \<open>The index \<open>i\<close> stays 0: every device is recorded in the first entry.\<close>

definition cgroup_add_io_device :: "nat option \<Rightarrow> u32 \<Rightarrow> u32 \<Rightarrow> cgtable \<Rightarrow> cgtable outcome option" where
  "cgroup_add_io_device cg mj mn s =
    (case cg of
       None \<Rightarrow> Some (Ret s)
     | Some g \<Rightarrow>
        if g \<noteq> cgroup_root \<and> populated (cgroups s g) then
          if used_devices (cgroups s g) > of_nat NDEV then Some (Panic ''Can't add more IO devices to cgroup'')
          else
            map_option (\<lambda>name.
              Ret (upd_cg g (\<lambda>c. c\<lparr>used_devices := used_devices c + 1,
                io_stats := (io_stats c)(0 := \<lparr>dev_name = name, major = mj, minor = mn\<rparr>)\<rparr>) s))
              (dev_id_to_name mj mn (replicate DEVICE_NAME 0))
        else Some (Ret s))"

fun remove_loop :: "nat list \<Rightarrow> u32 \<Rightarrow> u32 \<Rightarrow> cgroup \<Rightarrow> cgroup" where
  "remove_loop [] mj mn c = c"
| "remove_loop (i # is) mj mn c =
    remove_loop is mj mn
      (if mj = major (io_stats c i) \<and> mn = minor (io_stats c i)
       then c\<lparr>io_stats := (io_stats c)(i := \<lparr>dev_name = replicate DEVICE_NAME 0, major = 0, minor = 0\<rparr>),
              used_devices := used_devices c - 1\<rparr>
       else c)"

definition cgroup_remove_io_device :: "nat option \<Rightarrow> u32 \<Rightarrow> u32 \<Rightarrow> cgtable \<Rightarrow> cgtable outcome" where
  "cgroup_remove_io_device cg mj mn s =
    (case cg of
       None \<Rightarrow> Ret s
     | Some g \<Rightarrow>
        if g = cgroup_root \<or> \<not> populated (cgroups s g) then Ret s
        else if used_devices (cgroups s g) = 0 then Panic ''No available IO devices in cgroup to remove''
        else Ret (upd_cg g (remove_loop [0..<NDEV] mj mn) s))"

section \<open>Memory of a process\<close>

definition dec_protect_mem :: "nat \<Rightarrow> cgtable \<Rightarrow> int \<times> cgtable" where
  "dec_protect_mem g s =
    (let c = cgroups s g in
     if g \<noteq> cgroup_root \<and> enabled c Mem \<and> protected_mem c \<noteq> 0 then
       (0, upd_cg g (\<lambda>c. c\<lparr>protected_mem := protected_mem c - 1\<rparr>) (s\<lparr>cmem := fst (decrese_protect_counter 1 (cmem s))\<rparr>))
     else (1, s))"

definition inc_protect_mem :: "nat \<Rightarrow> int \<Rightarrow> cgtable \<Rightarrow> cgtable" where
  "inc_protect_mem g n s =
    upd_cg g (\<lambda>c. c\<lparr>protected_mem := protected_mem c + of_int n\<rparr>) (s\<lparr>cmem := fst (increse_protect_counter n (cmem s))\<rparr>)"

definition update_protect_mem :: "nat \<Rightarrow> u32 \<Rightarrow> u32 \<Rightarrow> cgtable \<Rightarrow> cgtable" where
  "update_protect_mem g oldsz newsz s =
    (if g = cgroup_root \<or> \<not> enabled (cgroups s g) Mem then s
     else
       let s = upd_cg g (\<lambda>c. c\<lparr>current_page := current_page c - (pages_of oldsz - pages_of newsz)\<rparr>) s;
           c = cgroups s g;
           protect = pages_of (min_mem c) - current_page c
       in if sint protect > 0 then
            upd_cg g (\<lambda>c. c\<lparr>protected_mem := protect\<rparr>)
              (s\<lparr>cmem := fst (increse_protect_counter (sint (protect - protected_mem c)) (cmem s))\<rparr>)
          else s)"

section \<open>Start\<close>

text \<open>The table when the first process is set up: cleared memory, then the root initialised.\<close>

definition zero_cgroup :: cgroup where
  "zero_cgroup = \<lparr>cgroup_dir_path = [], ref_count = 0, cproc = (\<lambda>_. None), num_of_procs = 0, cparent = None,
     avalible = (\<lambda>_. False), enabled = (\<lambda>_. False), populated = False, max_descendants_value = 0, max_depth_value = 0,
     depth = 0, nr_descendants = 0, nr_dying_descendants = 0, max_num_of_procs = 0, cpu_to_use = 0, is_frozen = 0,
     current_mem = 0, current_page = 0, mem_stat_file_dirty = 0, mem_stat_file_dirty_aggregated = 0, mem_stat_pgfault = 0,
     mem_stat_pgmajfault = 0, max_mem = 0, min_mem = 0, protected_mem = 0, cpu_time = 0, cpu_period_time = 0, cpu_percent = 0,
     cpu_account_period = 0, cpu_time_limit = 0, cpu_account_frame = 0, cpu_nr_periods = 0, cpu_nr_throttled = 0,
     cpu_throttled_usec = 0, cpu_is_throttled_period = False, used_devices = 0,
     io_stats = (\<lambda>_. \<lparr>dev_name = replicate DEVICE_NAME 0, major = 0, minor = 0\<rparr>)\<rparr>"

definition zero_cgtable :: "kmem \<Rightarrow> cgtable" where
  "zero_cgtable k = \<lparr>cgroups = (\<lambda>_. zero_cgroup), psz = (\<lambda>_. 0), pcgroup = (\<lambda>_. None), cmem = k\<rparr>"

definition boot_cgtable :: "kmem \<Rightarrow> cgtable" where
  "boot_cgtable k = cgroup_initialize ''/'' 0 [] None (zero_cgtable k)"

section \<open>The tree of groups\<close>

text \<open>
  A group is live while it has a path; the root always is. \<open>above s a g\<close>: climbing from \<open>g\<close> reaches
  \<open>a\<close>. The live groups form a tree when a rank decreases along their parents, which are live.
\<close>

definition live :: "cgtable \<Rightarrow> nat \<Rightarrow> bool" where
  "live s g = (g < NPROC \<and> (g = 0 \<or> cgroup_dir_path (cgroups s g) \<noteq> []))"

definition above :: "cgtable \<Rightarrow> nat \<Rightarrow> nat \<Rightarrow> bool" where
  "above s a g = (\<lambda>x y. cparent (cgroups s x) = Some y)\<^sup>*\<^sup>* g a"

definition cg_tree :: "(nat \<Rightarrow> nat) \<Rightarrow> cgtable \<Rightarrow> bool" where
  "cg_tree r s = (cparent (cgroups s 0) = None \<and>
     (\<forall>g. live s g \<longrightarrow> g \<noteq> 0 \<longrightarrow> (\<exists>p. cparent (cgroups s g) = Some p \<and> live s p \<and> r p < r g)))"

lemma above_refl [simp]: "above s g g"
  by (simp add: above_def)

lemma above_step: "cparent (cgroups s g) = Some p \<Longrightarrow> above s a g \<longleftrightarrow> a = g \<or> above s a p"
  unfolding above_def by (metis (mono_tags, lifting) converse_rtranclpE converse_rtranclp_into_rtranclp option.inject rtranclp.rtrancl_refl)

lemma above_top: "cparent (cgroups s g) = None \<Longrightarrow> above s a g \<longleftrightarrow> a = g"
  unfolding above_def by (metis (mono_tags, lifting) converse_rtranclpE option.distinct(1) rtranclp.rtrancl_refl)

lemma above_live:
  assumes "cg_tree r s" "live s g" "above s a g"
  shows "live s a \<and> r a \<le> r g"
  using assms(3,2) unfolding above_def
proof (induction rule: converse_rtranclp_induct)
  case (step x y)
  then have "x \<noteq> 0" using assms(1) by (metis cg_tree_def option.distinct(1))
  then obtain p where "cparent (cgroups s x) = Some p" "live s p" "r p < r x" using assms(1) step.prems by (auto simp: cg_tree_def)
  then show ?case using step.IH step.hyps(1) by auto
qed simp

lemma above_cong:
  assumes "\<And>x. above s x g \<Longrightarrow> cparent (cgroups s' x) = cparent (cgroups s x)"
  shows "above s' a g \<longleftrightarrow> above s a g"
proof -
  have "above s' a x" if "above s a x" "\<And>y. above s y x \<Longrightarrow> cparent (cgroups s' y) = cparent (cgroups s y)" for x
    using that unfolding above_def
  proof (induction rule: converse_rtranclp_induct)
    case (step x y)
    then show ?case by (metis (mono_tags, lifting) converse_rtranclp_into_rtranclp rtranclp.rtrancl_refl)
  qed simp
  moreover have "above s a x" if "above s' a x" "\<And>y. above s y x \<Longrightarrow> cparent (cgroups s' y) = cparent (cgroups s y)" for x
    using that unfolding above_def
  proof (induction rule: converse_rtranclp_induct)
    case (step x y)
    have "cparent (cgroups s x) = Some y" using step.hyps(1) step.prems by simp
    moreover from this have "(\<lambda>x y. cparent (cgroups s x) = Some y)\<^sup>*\<^sup>* y a"
      using step.IH step.prems by (metis (mono_tags, lifting) converse_rtranclp_into_rtranclp)
    ultimately show ?case by (metis (mono_tags, lifting) converse_rtranclp_into_rtranclp)
  qed simp
  ultimately show ?thesis using assms by blast
qed

text \<open>Climbing from a live group returns, and updates exactly the groups above it.\<close>

lemma climb_frame:
  assumes "climb f cg s = Some s'"
  shows "pcgroup s' = pcgroup s \<and> psz s' = psz s \<and> cmem s' = cmem s"
proof (rule climb.raw_induct [where P = "\<lambda>f cg s s'. pcgroup s' = pcgroup s \<and> psz s' = psz s \<and> cmem s' = cmem s"])
  fix up f cg s s'
  assume IH: "\<And>f cg s s'. up f cg s = Some s' \<Longrightarrow> pcgroup s' = pcgroup s \<and> psz s' = psz s \<and> cmem s' = cmem s"
    and run: "(case cg of None \<Rightarrow> Some s | Some g \<Rightarrow> up f (cparent (cgroups (upd_cg g f s) g)) (upd_cg g f s)) = Some s'"
  have "pcgroup (upd_cg g f s) = pcgroup s \<and> psz (upd_cg g f s) = psz s \<and> cmem (upd_cg g f s) = cmem s" for g by (simp add: upd_cg_def)
  then show "pcgroup s' = pcgroup s \<and> psz s' = psz s \<and> cmem s' = cmem s" using run IH by (cases cg) auto
qed (rule assms)

lemma climb_live:
  assumes "cg_tree r s" "live s g" "\<And>c. cparent (f c) = cparent c" "\<And>c. cgroup_dir_path (f c) = cgroup_dir_path c"
  shows "climb f (Some g) s = Some (s\<lparr>cgroups := (\<lambda>h. if above s h g then f (cgroups s h) else cgroups s h)\<rparr>)"
  using assms(1,2)
proof (induction "r g" arbitrary: g s rule: less_induct)
  case less
  let ?s = "upd_cg g f s"
  have par: "cparent (cgroups ?s x) = cparent (cgroups s x)" for x by (simp add: upd_cg_def assms(3))
  have live: "live ?s x = live s x" for x by (simp add: live_def upd_cg_def assms(4))
  have run: "climb f (Some g) s = climb f (cparent (cgroups s g)) ?s"
    using par [of g] by (subst climb.simps) simp
  show ?case
  proof (cases "cparent (cgroups s g)")
    case None
    have "climb f None ?s = Some ?s" by (subst climb.simps) simp
    moreover have "(\<lambda>h. if above s h g then f (cgroups s h) else cgroups s h) = (cgroups s)(g := f (cgroups s g))"
      by (rule ext) (simp add: above_top [OF None])
    ultimately show ?thesis using run None by (simp add: upd_cg_def)
  next
    case (Some p)
    then have p: "live s p" "r p < r g" using less.prems by (auto simp: cg_tree_def)
    have "cg_tree r ?s" using less.prems(1) by (simp add: cg_tree_def par live)
    from less.hyps [OF p(2) this] p(1) live
    have "climb f (Some p) ?s = Some (?s\<lparr>cgroups := (\<lambda>h. if above ?s h p then f (cgroups ?s h) else cgroups ?s h)\<rparr>)" by simp
    moreover have "above ?s h p = above s h p" for h by (rule above_cong) (rule par)
    moreover have "\<not> above s g p" using above_live [OF less.prems(1) p(1), of g] p(2) by auto
    moreover have "(\<lambda>h. if above s h p then f (cgroups ?s h) else cgroups ?s h) = (\<lambda>h. if above s h g then f (cgroups s h) else cgroups s h)"
      using calculation(3) by (intro ext) (auto simp: upd_cg_def above_step [OF Some])
    ultimately show ?thesis using run Some by (simp add: upd_cg_def)
  qed
qed

end
