(* ===== verification/Cpu_Account.thy ===== *)
theory Cpu_Account
  imports Cgroup
begin

text \<open>
  CPU accounting and throttling: \<open>kernel/cpu_account.c\<close> and \<open>kernel/steady_clock.c\<close>. The callbacks of
  the scheduler work on the per-cpu \<open>struct cpu_account\<close>, the accounting fields of a process and
  the groups above it. The time stamp counter is an argument. A division by zero is a
  processor exception, here \<open>Panic\<close>.
\<close>

section \<open>Data\<close>

definition steady_clock_now :: "u64 \<Rightarrow> u64 \<Rightarrow> u64" where
  "steady_clock_now tsc_frequency_khz cycles = cycles * 1000 div tsc_frequency_khz"

record cpu_account =
  ca_now :: u32
  ca_account_period :: u32
  ca_account_frame :: u32
  ca_process_cpu_time :: u32
  ca_cgroup :: "nat option"

text \<open>The accounting fields of \<open>struct proc\<close>.\<close>

record proc_account =
  pa_cpu_time :: u32
  pa_period_time :: u32
  pa_percent :: u32
  pa_account_frame :: u32

section \<open>The callbacks\<close>

definition cpu_account_initialize :: cpu_account where
  "cpu_account_initialize = \<lparr>ca_now = 0, ca_account_period = 1 * 100 * 1000, ca_account_frame = 0, ca_process_cpu_time = 0,
     ca_cgroup = None\<rparr>"

text \<open>\<open>clock\<close> is the value \<open>steady_clock_now\<close> returns; the fields are \<open>unsigned int\<close> and keep its low half.\<close>

definition cpu_account_schedule_start :: "u64 \<Rightarrow> cpu_account \<Rightarrow> cpu_account" where
  "cpu_account_schedule_start clock cpu = cpu\<lparr>ca_now := ucast clock\<rparr>"

definition cpu_account_schedule_proc_update :: "cpu_account \<Rightarrow> proc_account \<Rightarrow> proc_account" where
  "cpu_account_schedule_proc_update cpu p =
    (if ca_account_frame cpu > pa_account_frame p then
       let current = (if pa_period_time p > ca_account_period cpu then ca_account_period cpu else pa_period_time p)
       in p\<lparr>pa_percent := current * 100 div ca_account_period cpu, pa_account_frame := ca_account_frame cpu,
            pa_period_time := pa_period_time p - current\<rparr>
     else p)"

text \<open>The body of the loop over the groups: the start of a new frame, then the test of the limit.\<close>

definition new_frame :: "u32 \<Rightarrow> cgroup \<Rightarrow> cgroup" where
  "new_frame now c =
    (let frame = now div cpu_account_period c in
     if frame > cpu_account_frame c then
       let current = (if cpu_period_time c > cpu_account_period c then cpu_account_period c else cpu_period_time c)
       in c\<lparr>cpu_nr_periods := (if enabled c Cpu then cpu_nr_periods c + 1 else cpu_nr_periods c),
            cpu_is_throttled_period := False,
            cpu_percent := current * 100 div cpu_account_period c,
            cpu_account_frame := frame,
            cpu_period_time := cpu_period_time c - current\<rparr>
     else c)"

definition over_limit :: "cgroup \<Rightarrow> bool" where
  "over_limit c = (enabled c Cpu \<and> cpu_period_time c > cpu_time_limit c)"

definition throttle :: "cgroup \<Rightarrow> cgroup" where
  "throttle c =
    (if over_limit c \<and> \<not> cpu_is_throttled_period c then
       c\<lparr>cpu_nr_throttled := cpu_nr_throttled c + 1,
         cpu_throttled_usec := cpu_throttled_usec c + (cpu_account_period c - cpu_period_time c),
         cpu_is_throttled_period := True\<rparr>
     else c)"

partial_function (option) decision_loop :: "u32 \<Rightarrow> nat option \<Rightarrow> bool \<Rightarrow> cgtable \<Rightarrow> (bool \<times> cgtable) outcome option" where
  "decision_loop now cg schedule s =
    (case cg of
       None \<Rightarrow> Some (Ret (schedule, s))
     | Some g \<Rightarrow>
        if cpu_account_period (cgroups s g) = 0 then Some (Panic ''divide error'')
        else
          let c = new_frame now (cgroups s g)
          in decision_loop now (cparent c) (if over_limit c then False else schedule) (upd_cg g (\<lambda>_. throttle c) s))"

definition cpu_account_schedule_process_decision ::
  "cpu_account \<Rightarrow> nat option \<Rightarrow> cgtable \<Rightarrow> cpu_account \<times> (bool \<times> cgtable) outcome option" where
  "cpu_account_schedule_process_decision cpu cg s =
    (cpu\<lparr>ca_cgroup := cg\<rparr>, decision_loop (ca_now cpu) cg True s)"

definition cpu_account_before_process_schedule :: "u64 \<Rightarrow> cpu_account \<Rightarrow> cpu_account" where
  "cpu_account_before_process_schedule clock cpu = cpu\<lparr>ca_process_cpu_time := ucast clock\<rparr>"

definition cpu_account_after_process_schedule ::
  "u64 \<Rightarrow> cpu_account \<Rightarrow> proc_account \<Rightarrow> cgtable \<Rightarrow> (cpu_account \<times> proc_account \<times> cgtable) option" where
  "cpu_account_after_process_schedule clock cpu p s =
    (let cpu = cpu\<lparr>ca_now := ucast clock\<rparr>;
         t = ca_now cpu - ca_process_cpu_time cpu;
         p = p\<lparr>pa_cpu_time := pa_cpu_time p + t, pa_period_time := pa_period_time p + t\<rparr>
     in map_option (\<lambda>s. (cpu\<lparr>ca_process_cpu_time := t\<rparr>, p, s))
          (climb (\<lambda>c. c\<lparr>cpu_time := cpu_time c + ucast t, cpu_period_time := cpu_period_time c + t\<rparr>) (ca_cgroup cpu) s))"

section \<open>Percentages\<close>



lemma new_frame_simps [simp]:
  "cparent (new_frame now c) = cparent c" "cgroup_dir_path (new_frame now c) = cgroup_dir_path c"
  "cparent (throttle c) = cparent c" "cgroup_dir_path (throttle c) = cgroup_dir_path c"
  "cpu_percent (throttle c) = cpu_percent c" "over_limit (throttle c) = over_limit c"
  by (auto simp: new_frame_def throttle_def over_limit_def Let_def)

text \<open>What one pass makes of every group above \<open>g\<close>.\<close>

definition decided :: "u32 \<Rightarrow> nat \<Rightarrow> cgtable \<Rightarrow> cgtable" where
  "decided now g s = s\<lparr>cgroups := (\<lambda>h. if above s h g then throttle (new_frame now (cgroups s h)) else cgroups s h)\<rparr>"

lemma upd_cg_overwrite: "(upd_cg g f s)\<lparr>cgroups := F\<rparr> = s\<lparr>cgroups := F\<rparr>"
  by (simp add: upd_cg_def)

lemma decision_loop_live:
  assumes "cg_tree r s" "live s g" "\<And>a. above s a g \<Longrightarrow> cpu_account_period (cgroups s a) \<noteq> 0"
  shows "decision_loop now (Some g) b s =
    Some (Ret (b \<and> (\<forall>a. above s a g \<longrightarrow> \<not> over_limit (new_frame now (cgroups s a))), decided now g s))"
  using assms
proof (induction "r g" arbitrary: g s b rule: less_induct)
  case less
  let ?c = "new_frame now (cgroups s g)"
  let ?s = "upd_cg g (\<lambda>_. throttle ?c) s" and ?b = "if over_limit ?c then False else b"
  have par: "cparent (cgroups ?s x) = cparent (cgroups s x)" for x by (simp add: upd_cg_def)
  have live: "live ?s x = live s x" for x by (simp add: live_def upd_cg_def)
  have ab: "above ?s x y = above s x y" for x y by (rule above_cong) (rule par)
  have "cpu_account_period (cgroups s g) \<noteq> 0" using less.prems(3) by simp
  then have run: "decision_loop now (Some g) b s = decision_loop now (cparent (cgroups s g)) ?b ?s"
    by (subst decision_loop.simps) (simp add: Let_def)
  show ?case
  proof (cases "cparent (cgroups s g)")
    case None
    have "decision_loop now None ?b ?s = Some (Ret (?b, ?s))" by (subst decision_loop.simps) simp
    moreover have "?s = decided now g s"
      by (simp add: upd_cg_def decided_def above_top [OF None] fun_upd_def cong: if_cong)
    ultimately show ?thesis using run None by (simp add: above_top [OF None])
  next
    case (Some p)
    then have p: "live s p" "r p < r g" using less.prems by (auto simp: cg_tree_def)
    have low: "\<not> above s g p" using above_live [OF less.prems(1) p(1), of g] p(2) by auto
    have t: "cg_tree r ?s" using less.prems(1) by (simp add: cg_tree_def par live)
    have eq: "cgroups ?s a = cgroups s a" if "above s a p" for a using that low by (auto simp: upd_cg_def)
    have z: "cpu_account_period (cgroups ?s a) \<noteq> 0" if "above ?s a p" for a
      using less.prems(3) [of a] that eq above_step [OF Some, of a] by (simp add: ab)
    have "live ?s p" using p(1) live by simp
    from less.hyps [OF p(2) t this z]
    have "decision_loop now (Some p) ?b ?s =
      Some (Ret (?b \<and> (\<forall>a. above s a p \<longrightarrow> \<not> over_limit (new_frame now (cgroups ?s a))), decided now p ?s))"
      by (simp add: ab)
    moreover have "decided now p ?s = decided now g s"
    proof -
      have "(\<lambda>h. if above s h p then throttle (new_frame now (cgroups ?s h)) else cgroups ?s h) =
        (\<lambda>h. if above s h g then throttle (new_frame now (cgroups s h)) else cgroups s h)"
        using low eq by (intro ext) (auto simp: above_step [OF Some] upd_cg_def)
      then show ?thesis by (simp add: decided_def ab upd_cg_overwrite)
    qed
    moreover have "(?b \<and> (\<forall>a. above s a p \<longrightarrow> \<not> over_limit (new_frame now (cgroups ?s a)))) =
      (b \<and> (\<forall>a. above s a g \<longrightarrow> \<not> over_limit (new_frame now (cgroups s a))))"
      using eq by (auto simp: above_step [OF Some])
    ultimately show ?thesis using run Some by simp
  qed
qed









lemma throttle_usage [simp]:
  "cpu_period_time (throttle c) = cpu_period_time c" "cpu_account_frame (throttle c) = cpu_account_frame c"
  by (simp_all add: throttle_def)



text \<open>The root alone, with the accounting fields of an initialised group.\<close>

definition only_root :: "u32 \<Rightarrow> u32 \<Rightarrow> u32 \<Rightarrow> cgtable" where
  "only_root limit used frame = (zero_cgtable (boot_kmem (\<lambda>_. 0)))\<lparr>cgroups := (\<lambda>_. zero_cgroup\<lparr>enabled := (\<lambda>_. True),
     cpu_account_period := 100000, cpu_time_limit := limit, cpu_period_time := used, cpu_account_frame := frame\<rparr>)\<rparr>"

lemma only_root_fields:
  "cparent (cgroups (only_root l u f) g) = None" "cpu_account_period (cgroups (only_root l u f) g) = 100000"
  "cpu_percent (cgroups (only_root l u f) g) = 0" "over_limit (cgroups (only_root l u f) g) = (u > l)"
  "cpu_period_time (cgroups (only_root l u f) g) = u" "cpu_time_limit (cgroups (only_root l u f) g) = l" "enabled (cgroups (only_root l u f) g) c"
  "cpu_account_frame (cgroups (only_root l u f) g) = f" "live (only_root l u f) g \<longleftrightarrow> g = 0"
  by (auto simp: only_root_def zero_cgtable_def zero_cgroup_def over_limit_def live_def NPROC_def)

lemma only_root_tree: "cg_tree (\<lambda>_. 0) (only_root l u f)"
  by (simp add: cg_tree_def only_root_fields)




text \<open>
  Claim C31. The clock is kept in 32 bits and wraps around after 2^32 microseconds, 71 minutes. The
  frame number of a group then lies ahead of the clock, so no new frame starts: a group that
  was over its limit at that time is refused the processor until the clock has caught up again.
\<close>

theorem clock_wrap_stalls:
  assumes "cg_tree r s" "live s g" "\<forall>a. above s a g \<longrightarrow> cpu_account_period (cgroups s a) \<noteq> 0" "over_limit (cgroups s g)"
    "2 ^ 32 \<le> unat clock" "unat clock < 2 ^ 32 + unat (cpu_account_period (cgroups s g)) * unat (cpu_account_frame (cgroups s g))"
    "unat (cpu_account_period (cgroups s g)) * unat (cpu_account_frame (cgroups s g)) < 2 ^ 32"
  shows "\<exists>s'. snd (cpu_account_schedule_process_decision (cpu_account_schedule_start clock cpu) (Some g) s) = Some (Ret (False, s'))"
proof -
  let ?c = "cgroups s g" and ?now = "ucast clock :: u32"
  have "unat ?now = unat clock mod 2 ^ 32" by (simp add: unsigned_ucast_eq take_bit_eq_mod)
  also have "\<dots> = unat clock - 2 ^ 32" using assms(5-7) by (simp add: le_mod_geq)
  finally have "unat ?now < unat (cpu_account_period ?c) * unat (cpu_account_frame ?c)" using assms(5,6) by linarith
  then have "unat (?now div cpu_account_period ?c) < unat (cpu_account_frame ?c)"
    by (simp add: unat_div less_mult_imp_div_less mult.commute)
  then have "\<not> ?now div cpu_account_period ?c > cpu_account_frame ?c" by (simp add: word_less_nat_alt)
  then have "over_limit (new_frame ?now ?c)" using assms(4) by (simp add: new_frame_def Let_def)
  then have "\<not> (\<forall>a. above s a g \<longrightarrow> \<not> over_limit (new_frame ?now (cgroups s a)))" by force
  then show ?thesis using decision_loop_live [OF assms(1,2), of ?now True] assms(3)
    by (auto simp: cpu_account_schedule_process_decision_def cpu_account_schedule_start_def)
qed

theorem clock_wrap_stalls_witness:
  "\<exists>s'. snd (cpu_account_schedule_process_decision (cpu_account_schedule_start (2 ^ 32 + 90000000) cpu_account_initialize) (Some 0)
     (only_root 10 20 42949)) = Some (Ret (False, s'))"
  by (rule clock_wrap_stalls [of "\<lambda>_. 0"])
    (simp_all add: only_root_tree only_root_fields)

text \<open>
  The frame number of \<open>struct cpu_account\<close> stays 0, so the percentages of processes are never computed.
\<close>

lemma proc_percent_never_updated:
  "ca_account_frame cpu = 0 \<Longrightarrow> cpu_account_schedule_proc_update cpu p = p"
  "ca_account_frame cpu_account_initialize = 0" "ca_account_frame (cpu_account_schedule_start clock cpu) = ca_account_frame cpu"
  "ca_account_frame (fst (cpu_account_schedule_process_decision cpu cg s)) = ca_account_frame cpu"
  "ca_account_frame (cpu_account_before_process_schedule clock cpu) = ca_account_frame cpu"
  "cpu_account_after_process_schedule clock cpu p s = Some (cpu', p', s') \<Longrightarrow> ca_account_frame cpu' = ca_account_frame cpu"
  by (auto simp: cpu_account_schedule_proc_update_def cpu_account_initialize_def cpu_account_schedule_start_def
      cpu_account_schedule_process_decision_def cpu_account_before_process_schedule_def cpu_account_after_process_schedule_def Let_def)

end
