(* ===== verification/Native_Fs.thy ===== *)
theory Native_Fs
  imports Cgroup
begin

text \<open>
  The native file system of \<open>kernel/fs/native_fs.c\<close>: the block allocator, inodes and file contents,
  with the layout of \<open>include/fsdefs.h\<close>. Directories are in \<open>Native_Dir\<close>.

  Blocks are read and changed through the buffer cache, which keeps one copy of each block, and
  reach the disk through the log; here a block is its current contents, a function from the
  offset of a byte. A file system is named by the index of its super block, which stands for its
  device too. The inode cache is a table; its entry \<open>NINODE\<close> is the memory after the array. Block numbers
  and offsets are natural numbers below \<open>2 ^ 32\<close> where the code has a \<open>uint\<close>.
\<close>

section \<open>Layout\<close>

definition BSIZE :: nat where "BSIZE = 1024"
definition NDIRECT :: nat where "NDIRECT = 12"
definition NINDIRECT :: nat where "NINDIRECT = BSIZE div 4"
definition MAXFILE :: nat where "MAXFILE = NDIRECT + NINDIRECT"
definition BPB :: nat where "BPB = BSIZE * 8"
definition IPB :: nat where "IPB = BSIZE div 64"
definition ROOTINO :: nat where "ROOTINO = 1"
definition DIRSIZ :: nat where "DIRSIZ = 14"
definition NINODE :: nat where "NINODE = 60"
definition MAX_TTY :: nat where "MAX_TTY = 4"
definition T_DIR :: u16 where "T_DIR = 1"
definition T_FILE :: u16 where "T_FILE = 2"
definition T_DEV :: u16 where "T_DEV = 3"

lemmas layout = BSIZE_def NDIRECT_def NINDIRECT_def MAXFILE_def BPB_def IPB_def

record native_superblock =
  fs_size :: nat
  fs_nblocks :: nat
  fs_nlog :: nat
  fs_logstart :: nat
  fs_inodestart :: nat
  fs_bmapstart :: nat
  fs_ninodes :: nat

definition IBLOCK :: "nat \<Rightarrow> native_superblock \<Rightarrow> nat" where "IBLOCK i sb = i div IPB + fs_inodestart sb"
definition BBLOCK :: "nat \<Rightarrow> native_superblock \<Rightarrow> nat" where "BBLOCK b sb = b div BPB + fs_bmapstart sb"

record native_inode =
  addrs :: "u32 list"
  isb :: nat
  inum :: nat
  ref :: int
  valid :: bool
  itype :: u16
  imajor :: u16
  iminor :: u16
  nlink :: u16
  isize :: nat

record nfs =
  blk :: "nat \<Rightarrow> nat \<Rightarrow> mem"
  sbs :: "nat \<Rightarrow> native_superblock"
  root_ip :: "nat \<Rightarrow> nat"
  devref :: "nat \<Rightarrow> int"
  icache :: "nat \<Rightarrow> native_inode"

definition upd_blk :: "nat \<Rightarrow> nat \<Rightarrow> (mem \<Rightarrow> mem) \<Rightarrow> nfs \<Rightarrow> nfs" where
  "upd_blk v b f s = s\<lparr>blk := (blk s)(v := (blk s v)(b := f (blk s v b)))\<rparr>"

definition upd_inode :: "nat \<Rightarrow> (native_inode \<Rightarrow> native_inode) \<Rightarrow> nfs \<Rightarrow> nfs" where
  "upd_inode i f s = s\<lparr>icache := (icache s)(i := f (icache s i))\<rparr>"

section \<open>Blocks\<close>

text \<open>The super block is the seven words at the start of block 1.\<close>

definition readsb :: "nat \<Rightarrow> nfs \<Rightarrow> nfs" where
  "readsb v s =
    (let w = (\<lambda>i. unat (load32 (blk s v 1) (4 * i)))
     in s\<lparr>sbs := (sbs s)(v := \<lparr>fs_size = w 0, fs_nblocks = w 1, fs_nlog = w 2, fs_logstart = w 3,
                               fs_inodestart = w 4, fs_bmapstart = w 5, fs_ninodes = w 6\<rparr>)\<rparr>)"

definition bzero :: "nat \<Rightarrow> nat \<Rightarrow> nfs \<Rightarrow> nfs" where
  "bzero v b s = upd_blk v b (\<lambda>m. memset m 0 0 BSIZE) s"

definition bmask :: "nat \<Rightarrow> u8" where "bmask bi = push_bit (bi mod 8) 1"

definition bit_clear :: "mem \<Rightarrow> nat \<Rightarrow> bool" where
  "bit_clear m bi = (m (bi div 8) AND bmask bi = 0)"

definition mark_used :: "nat \<Rightarrow> mem \<Rightarrow> mem" where
  "mark_used bi m = m(bi div 8 := m (bi div 8) OR bmask bi)"

definition mark_free :: "nat \<Rightarrow> mem \<Rightarrow> mem" where
  "mark_free bi m = m(bi div 8 := m (bi div 8) AND NOT (bmask bi))"

text \<open>The inner loop of \<open>balloc\<close> stops at the first clear bit of one bitmap block; the outer one goes through the bitmap.\<close>

function balloc_loop :: "nat \<Rightarrow> nat \<Rightarrow> nfs \<Rightarrow> (nat \<times> nfs) outcome" where
  "balloc_loop v b s =
    (if b < fs_size (sbs s v) then
       case first_slot (\<lambda>bi. b + bi < fs_size (sbs s v) \<and> bit_clear (blk s v (BBLOCK b (sbs s v))) bi) BPB of
         Some bi \<Rightarrow> Ret (b + bi, bzero v (b + bi) (upd_blk v (BBLOCK b (sbs s v)) (mark_used bi) s))
       | None \<Rightarrow> balloc_loop v (b + BPB) s
     else Panic ''balloc: out of blocks'')"
  by auto
termination by (relation "measure (\<lambda>(v, b, s). fs_size (sbs s v) - b)") (auto simp: layout)

definition balloc :: "nat \<Rightarrow> nfs \<Rightarrow> (nat \<times> nfs) outcome" where
  "balloc v s = balloc_loop v 0 s"

definition bfree :: "nat \<Rightarrow> nat \<Rightarrow> nfs \<Rightarrow> nfs outcome" where
  "bfree v b s =
    (let s = readsb v s; bb = BBLOCK b (sbs s v); bi = b mod BPB
     in if bit_clear (blk s v bb) bi then Panic ''freeing free block''
        else Ret (upd_blk v bb (mark_free bi) s))"

section \<open>Inodes\<close>

text \<open>The inode \<open>n\<close> on disk is 64 bytes at \<open>dinode_at n\<close> of its block.\<close>

definition dinode_at :: "nat \<Rightarrow> nat" where "dinode_at n = 64 * (n mod IPB)"

fun store_addrs :: "mem \<Rightarrow> nat \<Rightarrow> u32 list \<Rightarrow> mem" where
  "store_addrs m a [] = m"
| "store_addrs m a (w # ws) = store_addrs (store32 m a w) (a + 4) ws"

definition put_dinode :: "native_inode \<Rightarrow> mem \<Rightarrow> mem" where
  "put_dinode ip m =
    (let o' = dinode_at (inum ip);
         m = store16 m o' (itype ip);
         m = store16 m (o' + 2) (imajor ip);
         m = store16 m (o' + 4) (iminor ip);
         m = store16 m (o' + 6) (nlink ip);
         m = store32 m (o' + 8) (of_nat (isize ip))
     in store_addrs m (o' + 12) (addrs ip))"

definition get_dinode :: "mem \<Rightarrow> native_inode \<Rightarrow> native_inode" where
  "get_dinode m ip =
    (let o' = dinode_at (inum ip)
     in ip\<lparr>itype := load16 m o', imajor := load16 m (o' + 2), iminor := load16 m (o' + 4), nlink := load16 m (o' + 6),
           isize := unat (load32 m (o' + 8)), addrs := map (\<lambda>k. load32 m (o' + 12 + 4 * k)) [0..<NDIRECT + 1]\<rparr>)"

text \<open>
  \<open>iget\<close>. After the loop \<open>ip\<close> points behind the array; when no entry is empty, its \<open>ref\<close> is read
  there and the memory may be taken for an entry.
\<close>

definition iget_slot :: "nfs \<Rightarrow> nat option" where
  "iget_slot s =
    (case first_slot (\<lambda>i. ref (icache s i) = 0) NINODE of
       Some i \<Rightarrow> Some i
     | None \<Rightarrow> if ref (icache s NINODE) = 0 then Some NINODE else None)"

definition deviceget :: "nat \<Rightarrow> nfs \<Rightarrow> nfs outcome" where
  "deviceget v s = (if 0 < devref s v then Ret (s\<lparr>devref := (devref s)(v := devref s v + 1)\<rparr>) else Panic ''assertion'')"

definition iget :: "nat \<Rightarrow> nat \<Rightarrow> nfs \<Rightarrow> (nat \<times> nfs) outcome" where
  "iget v n s =
    (case first_slot (\<lambda>i. 0 < ref (icache s i) \<and> isb (icache s i) = v \<and> inum (icache s i) = n) NINODE of
       Some i \<Rightarrow> Ret (i, upd_inode i (\<lambda>ip. ip\<lparr>ref := ref ip + 1\<rparr>) s)
     | None \<Rightarrow>
        (case iget_slot s of
           None \<Rightarrow> Panic ''iget: no inodes''
         | Some i \<Rightarrow>
            bindO (deviceget v s) (\<lambda>s.
            Ret (i, upd_inode i (\<lambda>ip. ip\<lparr>isb := v, inum := n, ref := 1, valid := False\<rparr>) s))))"

text \<open>\<open>ialloc\<close> takes the first inode on disk with type 0; the loop starts at inode 1.\<close>

definition ialloc :: "nat \<Rightarrow> u16 \<Rightarrow> nfs \<Rightarrow> (nat \<times> nfs) outcome" where
  "ialloc v ty s =
    (case find (\<lambda>n. load16 (blk s v (IBLOCK n (sbs s v))) (dinode_at n) = 0) [1..<fs_ninodes (sbs s v)] of
       Some n \<Rightarrow> iget v n (upd_blk v (IBLOCK n (sbs s v)) (\<lambda>m. store16 (memset m (dinode_at n) 0 64) (dinode_at n) ty) s)
     | None \<Rightarrow> Panic ''ialloc: no inodes'')"

definition iupdate :: "nat \<Rightarrow> nfs \<Rightarrow> nfs" where
  "iupdate i s =
    (let ip = icache s i; v = isb ip in upd_blk v (IBLOCK (inum ip) (sbs s v)) (put_dinode ip) s)"

text \<open>The loops of \<open>itrunc\<close> over the direct blocks and over the words of the indirect block.\<close>

fun free_direct :: "nat \<Rightarrow> nat list \<Rightarrow> nfs \<Rightarrow> nfs outcome" where
  "free_direct i [] s = Ret s"
| "free_direct i (k # ks) s =
    (let a = addrs (icache s i) ! k in
     if a \<noteq> 0 then
       bindO (bfree (isb (icache s i)) (unat a) s) (\<lambda>s.
       free_direct i ks (upd_inode i (\<lambda>ip. ip\<lparr>addrs := (addrs ip)[k := 0]\<rparr>) s))
     else free_direct i ks s)"

fun free_indirect :: "nat \<Rightarrow> nat \<Rightarrow> nat list \<Rightarrow> nfs \<Rightarrow> nfs outcome" where
  "free_indirect v b [] s = Ret s"
| "free_indirect v b (j # js) s =
    (let a = load32 (blk s v b) (4 * j) in
     bindO (if a \<noteq> 0 then bfree v (unat a) s else Ret s) (free_indirect v b js))"

definition itrunc :: "nat \<Rightarrow> nfs \<Rightarrow> nfs outcome" where
  "itrunc i s =
    bindO (free_direct i [0..<NDIRECT] s) (\<lambda>s.
    let ip = icache s i; a = addrs ip ! NDIRECT in
    bindO (if a \<noteq> 0 then
             bindO (free_indirect (isb ip) (unat a) [0..<NINDIRECT] s) (\<lambda>s.
             bindO (bfree (isb ip) (unat a) s) (\<lambda>s.
             Ret (upd_inode i (\<lambda>ip. ip\<lparr>addrs := (addrs ip)[NDIRECT := 0]\<rparr>) s)))
           else Ret s) (\<lambda>s.
    Ret (iupdate i (upd_inode i (\<lambda>ip. ip\<lparr>isize := 0\<rparr>) s))))"

text \<open>\<open>fsstart\<close> without the call of \<open>initlog\<close>, which \<open>Native_Log\<close> models.\<close>

definition fsstart :: "nat \<Rightarrow> nfs \<Rightarrow> nfs outcome" where
  "fsstart v s = bindO (iget v ROOTINO (readsb v s)) (\<lambda>(i, s). Ret (s\<lparr>root_ip := (root_ip s)(v := i)\<rparr>))"

definition native_idup :: "nat \<Rightarrow> nfs \<Rightarrow> nfs" where
  "native_idup i s = upd_inode i (\<lambda>ip. ip\<lparr>ref := ref ip + 1\<rparr>) s"

text \<open>\<open>ilock\<close> once it has the inode's sleep lock.\<close>

definition ilock :: "nat \<Rightarrow> nfs \<Rightarrow> nfs outcome" where
  "ilock i s =
    (let ip = icache s i; v = isb ip in
     if ref ip < 1 then Panic ''ilock''
     else if valid ip then Ret s
     else
       let ip = get_dinode (blk s v (IBLOCK (inum ip) (sbs s v))) ip;
           s = upd_inode i (\<lambda>_. ip\<lparr>valid := True\<rparr>) s
       in if itype ip = 0 then Panic ''ilock: no type'' else Ret s)"

definition deviceput :: "nat \<Rightarrow> nfs \<Rightarrow> nfs outcome" where
  "deviceput v s = (if 0 < devref s v then Ret (s\<lparr>devref := (devref s)(v := devref s v - 1)\<rparr>) else Panic ''assertion'')"

definition native_iput :: "nat \<Rightarrow> nfs \<Rightarrow> nfs outcome" where
  "native_iput i s =
    bindO (if valid (icache s i) \<and> nlink (icache s i) = 0 \<and> ref (icache s i) = 1 then
             bindO (itrunc i s) (\<lambda>s.
             Ret (upd_inode i (\<lambda>ip. ip\<lparr>valid := False\<rparr>) (iupdate i (upd_inode i (\<lambda>ip. ip\<lparr>itype := 0\<rparr>) s))))
           else Ret s) (\<lambda>s.
    let s = upd_inode i (\<lambda>ip. ip\<lparr>ref := ref ip - 1\<rparr>) s in
    if ref (icache s i) = 0 then deviceput (isb (icache s i)) s else Ret s)"

definition fsdestroy :: "nat \<Rightarrow> nfs \<Rightarrow> nfs outcome" where
  "fsdestroy v s = native_iput (root_ip s v) s"

section \<open>File contents\<close>

text \<open>The direct slot of \<open>bmap\<close>, also used for the indirect block: the block in \<open>addrs[k]\<close>, allocated if there is none.\<close>

definition bmap_slot :: "nat \<Rightarrow> nat \<Rightarrow> nfs \<Rightarrow> (nat \<times> nfs) outcome" where
  "bmap_slot i k s =
    (let a = addrs (icache s i) ! k in
     if a \<noteq> 0 then Ret (unat a, s)
     else bindO (balloc (isb (icache s i)) s) (\<lambda>(b, s).
       Ret (b, upd_inode i (\<lambda>ip. ip\<lparr>addrs := (addrs ip)[k := of_nat b]\<rparr>) s)))"

definition bmap :: "nat \<Rightarrow> nat \<Rightarrow> nfs \<Rightarrow> (nat \<times> nfs) outcome" where
  "bmap i bn s =
    (if bn < NDIRECT then bmap_slot i bn s
     else
       let bn = bn - NDIRECT; v = isb (icache s i) in
       if bn < NINDIRECT then
         bindO (bmap_slot i NDIRECT s) (\<lambda>(b, s).
         let a = load32 (blk s v b) (4 * bn) in
         if a \<noteq> 0 then Ret (unat a, s)
         else bindO (balloc v s) (\<lambda>(c, s). Ret (c, upd_blk v b (\<lambda>m. store32 m (4 * bn) (of_nat c)) s)))
       else Panic ''bmap: out of range'')"

record stat =
  st_type :: u16
  st_dev :: nat
  st_ino :: nat
  st_nlink :: u16
  st_size :: nat

definition stati :: "nat \<Rightarrow> nfs \<Rightarrow> stat" where
  "stati i s = (let ip = icache s i in \<lparr>st_type = itype ip, st_dev = isb ip, st_ino = inum ip, st_nlink = nlink ip, st_size = isize ip\<rparr>)"

text \<open>
  The device switch of \<open>vfs_file.h\<close>: for a major number, functions to read up to \<open>n\<close> bytes and to write bytes,
  if the device has them.
\<close>

record devsw =
  dev_read :: "(nat \<Rightarrow> nat \<Rightarrow> int \<times> u8 list) option"
  dev_write :: "(nat \<Rightarrow> u8 list \<Rightarrow> int) option"

text \<open>The device branch of \<open>readi\<close> and \<open>writei\<close>: the switch entry, unless a number is out of range.\<close>

definition dev_of :: "(nat \<Rightarrow> devsw) \<Rightarrow> native_inode \<Rightarrow> devsw option" where
  "dev_of dsw ip =
    (if sint (imajor ip) < 0 \<or> sint (imajor ip) \<ge> int NDEV \<or> sint (iminor ip) < 0 \<or> sint (iminor ip) \<ge> int MAX_TTY then None
     else Some (dsw (unat (imajor ip))))"

text \<open>The copying loops: \<open>m\<close> bytes of the block at \<open>off\<close> in each turn.\<close>

function readi_loop :: "nat \<Rightarrow> nat \<Rightarrow> nat \<Rightarrow> nfs \<Rightarrow> (u8 list \<times> nfs) outcome" where
  "readi_loop i off n s =
    (if n = 0 then Ret ([], s)
     else bindO (bmap i (off div BSIZE) s) (\<lambda>(b, s).
       let m = min n (BSIZE - off mod BSIZE); o' = off mod BSIZE in
       bindO (readi_loop i (off + m) (n - m) s) (\<lambda>(bs, s').
       Ret (map (blk s (isb (icache s i)) b) [o'..<o' + m] @ bs, s'))))"
  by auto
termination by (relation "measure (\<lambda>(i, off, n, s). n)") (auto simp: layout)

definition readi :: "(nat \<Rightarrow> devsw) \<Rightarrow> nat \<Rightarrow> u32 \<Rightarrow> u32 \<Rightarrow> nfs \<Rightarrow> (int \<times> u8 list \<times> nfs) outcome" where
  "readi dsw i off n s =
    (let ip = icache s i in
     if itype ip = T_DEV then
       (case Option.bind (dev_of dsw ip) dev_read of
          None \<Rightarrow> Ret (- 1, [], s)
        | Some rd \<Rightarrow> case rd i (unat n) of (r, bs) \<Rightarrow> Ret (r, bs, s))
     else if unat off > isize ip \<or> off + n < off then Ret (- 1, [], s)
     else
       let n = (if unat (off + n) > isize ip then isize ip - unat off else unat n) in
       bindO (readi_loop i (unat off) n s) (\<lambda>(bs, s). Ret (sint (of_nat n :: u32), bs, s)))"

definition write_bytes :: "mem \<Rightarrow> nat \<Rightarrow> u8 list \<Rightarrow> mem" where
  "write_bytes m a bs = (\<lambda>x. if a \<le> x \<and> x < a + length bs then bs ! (x - a) else m x)"

function writei_loop :: "nat \<Rightarrow> nat \<Rightarrow> u8 list \<Rightarrow> nfs \<Rightarrow> nfs outcome" where
  "writei_loop i off src s =
    (if src = [] then Ret s
     else bindO (bmap i (off div BSIZE) s) (\<lambda>(b, s).
       let m = min (length src) (BSIZE - off mod BSIZE) in
       writei_loop i (off + m) (drop m src)
         (upd_blk (isb (icache s i)) b (\<lambda>mm. write_bytes mm (off mod BSIZE) (take m src)) s)))"
  by auto
termination by (relation "measure (\<lambda>(i, off, src, s). length src)") (auto simp: layout)

text \<open>\<open>writei\<close> of the bytes \<open>src\<close>; \<open>n\<close> is their number.\<close>

definition writei :: "(nat \<Rightarrow> devsw) \<Rightarrow> nat \<Rightarrow> u8 list \<Rightarrow> u32 \<Rightarrow> nfs \<Rightarrow> (int \<times> nfs) outcome" where
  "writei dsw i src off s =
    (let ip = icache s i; n = of_nat (length src) in
     if itype ip = T_DEV then
       (case Option.bind (dev_of dsw ip) dev_write of
          None \<Rightarrow> Ret (- 1, s)
        | Some wr \<Rightarrow> Ret (wr i src, s))
     else if unat off > isize ip \<or> off + n < off then Ret (- 1, s)
     else if unat (off + n) > MAXFILE * BSIZE then Ret (- 1, s)
     else
       bindO (writei_loop i (unat off) src s) (\<lambda>s.
       let off = unat (off + n);
           s = (if 0 < n \<and> off > isize (icache s i) then iupdate i (upd_inode i (\<lambda>ip. ip\<lparr>isize := off\<rparr>) s) else s)
       in Ret (sint n, s)))"

declare balloc_loop.simps [simp del] readi_loop.simps [simp del] writei_loop.simps [simp del]

section \<open>The free map\<close>

lemma bit_clear_iff: "bit_clear m bi \<longleftrightarrow> \<not> bit (m (bi div 8)) (bi mod 8)"
proof -
  have "x AND push_bit n 1 = 0 \<longleftrightarrow> \<not> bit x n" for x :: u8 and n
    by (metis and_exp_eq_0_iff_not_bit push_bit_of_1)
  then show ?thesis by (simp add: bit_clear_def bmask_def)
qed

lemma bit_bmask: "bit (bmask bi) n \<longleftrightarrow> n = bi mod 8"
  by (auto simp: bmask_def bit_exp_iff)

lemma same_bit: "bi div 8 = bj div 8 \<Longrightarrow> bi mod 8 = bj mod 8 \<Longrightarrow> bi = bj" for bi bj :: nat
  by (metis div_mult_mod_eq)

lemma bit_clear_mark_used: "bit_clear (mark_used bi m) bj \<longleftrightarrow> bit_clear m bj \<and> bj \<noteq> bi"
  using same_bit [of bi bj] by (auto simp: bit_clear_iff mark_used_def bit_or_iff bit_bmask)

lemma bit_clear_mark_free: "bit_clear (mark_free bi m) bj \<longleftrightarrow> bit_clear m bj \<or> bj = bi"
proof -
  have n: "bit (w AND NOT (bmask bi)) (k mod 8) \<longleftrightarrow> bit w (k mod 8) \<and> k mod 8 \<noteq> bi mod 8" for w :: u8 and k :: nat
    by (simp only: bit_and_iff bit_not_iff bit_bmask possible_bit_word) simp
  have e: "mark_free bi m (bj div 8) = (if bj div 8 = bi div 8 then m (bj div 8) AND NOT (bmask bi) else m (bj div 8))"
    by (simp add: mark_free_def)
  show ?thesis
  proof (cases "bj div 8 = bi div 8")
    case True
    then have "mark_free bi m (bj div 8) = m (bj div 8) AND NOT (bmask bi)" unfolding e by (rule if_P)
    then have "bit_clear (mark_free bi m) bj \<longleftrightarrow> \<not> (bit (m (bj div 8)) (bj mod 8) \<and> bj mod 8 \<noteq> bi mod 8)"
      using n [of "m (bj div 8)" bj] by (simp only: bit_clear_iff)
    moreover have "bj mod 8 = bi mod 8 \<longleftrightarrow> bj = bi" using same_bit [OF True] by (rule iffI) (simp_all only:)
    ultimately show ?thesis by (simp only: bit_clear_iff de_Morgan_conj not_not)
  next
    case False
    then have "mark_free bi m (bj div 8) = m (bj div 8)" unfolding e by (rule if_not_P)
    then show ?thesis using False unfolding bit_clear_iff by auto
  qed
qed

text \<open>Whether the map has block \<open>b\<close> in use, the blocks of the map, and those mkfs marks once for all.\<close>

definition used :: "nfs \<Rightarrow> nat \<Rightarrow> nat \<Rightarrow> bool" where
  "used s v b = (\<not> bit_clear (blk s v (BBLOCK b (sbs s v))) (b mod BPB))"

definition map_block :: "native_superblock \<Rightarrow> nat \<Rightarrow> bool" where
  "map_block sb b = (\<exists>c<fs_size sb. b = BBLOCK c sb)"

definition inode_block :: "native_superblock \<Rightarrow> nat \<Rightarrow> bool" where
  "inode_block sb b = (\<exists>n<fs_ninodes sb. b = IBLOCK n sb)"

definition reserved :: "native_superblock \<Rightarrow> nat \<Rightarrow> bool" where
  "reserved sb b = (b = 0 \<or> map_block sb b \<or> inode_block sb b)"

definition sb_ok :: "nfs \<Rightarrow> nat \<Rightarrow> bool" where
  "sb_ok s v =
    (fs_size (sbs s v) < 2 ^ 32 \<and>
     (\<forall>b. reserved (sbs s v) b \<longrightarrow> b < fs_size (sbs s v) \<and> used s v b) \<and>
     (\<forall>b. map_block (sbs s v) b \<longrightarrow> \<not> inode_block (sbs s v) b))"

text \<open>The state after \<open>balloc\<close> has taken block \<open>c\<close>.\<close>

definition taken :: "nat \<Rightarrow> nat \<Rightarrow> nfs \<Rightarrow> nfs" where
  "taken v c s = bzero v c (upd_blk v (BBLOCK c (sbs s v)) (mark_used (c mod BPB)) s)"

lemma balloc_loop_taken:
  assumes "balloc_loop v b s = Ret (c, s')" "BPB dvd b"
  shows "c < fs_size (sbs s v) \<and> \<not> used s v c \<and> s' = taken v c s"
  using assms
proof (induction v b s rule: balloc_loop.induct)
  case (1 v b s)
  let ?P = "\<lambda>bi. b + bi < fs_size (sbs s v) \<and> bit_clear (blk s v (BBLOCK b (sbs s v))) bi"
  have b: "b < fs_size (sbs s v)" using "1.prems"(1) by (simp add: balloc_loop.simps [of v b s] split: if_splits)
  show ?case
  proof (cases "first_slot ?P BPB")
    case None
    then show ?thesis using "1.IH" [OF b None] "1.prems" b by (simp add: balloc_loop.simps [of v b s])
  next
    case (Some bi)
    then have bi: "bi < BPB" "?P bi" using first_slot_Some [OF Some] by auto
    have "(b + bi) div BPB = b div BPB" "(b + bi) mod BPB = bi" using "1.prems"(2) bi(1) by auto
    then have "BBLOCK (b + bi) (sbs s v) = BBLOCK b (sbs s v)" "(b + bi) mod BPB = bi" by (simp_all add: BBLOCK_def)
    then show ?thesis using "1.prems"(1) b Some bi(2)
      by (auto simp: balloc_loop.simps [of v b s] used_def taken_def)
  qed
qed

lemma balloc_taken: "balloc v s = Ret (c, s') \<Longrightarrow> c < fs_size (sbs s v) \<and> \<not> used s v c \<and> s' = taken v c s"
  unfolding balloc_def using balloc_loop_taken [of v 0 s c s'] by simp

lemma taken_fields [simp]: "sbs (taken v c s) = sbs s" "icache (taken v c s) = icache s" "w \<noteq> v \<Longrightarrow> blk (taken v c s) w = blk s w"
  by (simp_all add: taken_def bzero_def upd_blk_def)

lemma taken_used:
  assumes "sb_ok s v" "\<not> used s v c" "c < fs_size (sbs s v)" "d < fs_size (sbs s v)"
  shows "used (taken v c s) v d \<longleftrightarrow> used s v d \<or> d = c"
proof -
  have "\<not> map_block (sbs s v) c" using assms(1,2) by (auto simp: sb_ok_def reserved_def)
  then have "BBLOCK d (sbs s v) \<noteq> c" using assms(4) by (auto simp: map_block_def)
  then have "blk (taken v c s) v (BBLOCK d (sbs s v)) =
      (if BBLOCK d (sbs s v) = BBLOCK c (sbs s v) then mark_used (c mod BPB) (blk s v (BBLOCK d (sbs s v))) else blk s v (BBLOCK d (sbs s v)))"
    by (simp add: taken_def bzero_def upd_blk_def)
  moreover have "d = c" if "BBLOCK d (sbs s v) = BBLOCK c (sbs s v)" "d mod BPB = c mod BPB"
    using that by (metis BBLOCK_def add_right_cancel div_mult_mod_eq)
  ultimately show ?thesis by (auto simp: used_def bit_clear_mark_used)
qed

lemma taken_blk: "d \<noteq> c \<Longrightarrow> \<not> map_block (sbs s v) d \<Longrightarrow> c < fs_size (sbs s v) \<Longrightarrow> blk (taken v c s) v d = blk s v d"
  by (auto simp: taken_def bzero_def upd_blk_def map_block_def)

lemma taken_zero: "o' < BSIZE \<Longrightarrow> blk (taken v c s) v c o' = 0"
  by (simp add: taken_def bzero_def upd_blk_def memset_apply)

lemma taken_sb_ok:
  assumes "sb_ok s v" "\<not> used s v c" "c < fs_size (sbs s v)"
  shows "sb_ok (taken v c s) v"
  using assms(1) taken_used [OF assms] by (auto simp: sb_ok_def)

section \<open>The blocks of a file\<close>

text \<open>
  The block numbers an inode holds, by position: below \<open>MAXFILE\<close> the blocks of the contents, at
  \<open>MAXFILE\<close> the indirect block; 0 where there is none.
\<close>

definition slot :: "nfs \<Rightarrow> nat \<Rightarrow> nat \<Rightarrow> nat" where
  "slot s i p =
    (let ip = icache s i; ind = addrs ip ! NDIRECT in
     if p < NDIRECT then unat (addrs ip ! p)
     else if p = MAXFILE then unat ind
     else if ind = 0 then 0
     else unat (load32 (blk s (isb ip) (unat ind)) (4 * (p - NDIRECT))))"

definition owns :: "nfs \<Rightarrow> nat \<Rightarrow> nat \<Rightarrow> bool" where
  "owns s i b = (b \<noteq> 0 \<and> (\<exists>p\<le>MAXFILE. slot s i p = b))"

text \<open>A file whose blocks are different data blocks in use.\<close>

definition file_ok :: "nfs \<Rightarrow> nat \<Rightarrow> bool" where
  "file_ok s i =
    (let ip = icache s i; v = isb ip in
     sb_ok s v \<and> inum ip < fs_ninodes (sbs s v) \<and> length (addrs ip) = NDIRECT + 1 \<and>
     (\<forall>b. owns s i b \<longrightarrow> b < fs_size (sbs s v) \<and> used s v b \<and> \<not> reserved (sbs s v) b) \<and>
     (\<forall>p\<le>MAXFILE. \<forall>q\<le>MAXFILE. slot s i p = slot s i q \<longrightarrow> slot s i p \<noteq> 0 \<longrightarrow> p = q))"

text \<open>
  How the routines below change a file system when they work on inode \<open>i\<close>: they may add free blocks to the
  file and change the contents of its blocks, and nothing else.
\<close>

definition extends :: "nat \<Rightarrow> nfs \<Rightarrow> nfs \<Rightarrow> bool" where
  "extends i s s' =
    (let v = isb (icache s i) in
     sbs s' = sbs s \<and> (\<exists>as. icache s' = (icache s)(i := (icache s i)\<lparr>addrs := as\<rparr>)) \<and>
     (\<forall>w. w \<noteq> v \<longrightarrow> blk s' w = blk s w) \<and>
     (\<forall>b<fs_size (sbs s v). used s v b \<longrightarrow> used s' v b) \<and>
     (\<forall>p\<le>MAXFILE. slot s i p \<noteq> 0 \<longrightarrow> slot s' i p = slot s i p) \<and>
     (\<forall>p\<le>MAXFILE. slot s i p = 0 \<longrightarrow> slot s' i p \<noteq> 0 \<longrightarrow> slot s' i p < fs_size (sbs s v) \<and> \<not> used s v (slot s' i p)) \<and>
     (\<forall>b<fs_size (sbs s v). used s v b \<longrightarrow> \<not> map_block (sbs s v) b \<longrightarrow> \<not> owns s i b \<longrightarrow> blk s' v b = blk s v b))"

lemma extendsD:
  assumes "extends i s s'"
  shows "sbs s' = sbs s" "isb (icache s' i) = isb (icache s i)" "inum (icache s' i) = inum (icache s i)"
    "isize (icache s' i) = isize (icache s i)" "itype (icache s' i) = itype (icache s i)" "ref (icache s' i) = ref (icache s i)"
  using assms by (auto simp: extends_def Let_def)

lemma extends_refl: "extends i s s"
  by (auto simp: extends_def Let_def intro: exI [of _ "addrs (icache s i)"])

lemma file_okD:
  assumes "file_ok s i"
  shows "sb_ok s (isb (icache s i))" "inum (icache s i) < fs_ninodes (sbs s (isb (icache s i)))" "length (addrs (icache s i)) = NDIRECT + 1"
    "owns s i b \<Longrightarrow> b < fs_size (sbs s (isb (icache s i))) \<and> used s (isb (icache s i)) b \<and> \<not> reserved (sbs s (isb (icache s i))) b"
    "p \<le> MAXFILE \<Longrightarrow> q \<le> MAXFILE \<Longrightarrow> slot s i p = slot s i q \<Longrightarrow> slot s i p \<noteq> 0 \<Longrightarrow> p = q"
  using assms by (simp_all add: file_ok_def Let_def)

lemma slot_owns: "p \<le> MAXFILE \<Longrightarrow> slot s i p \<noteq> 0 \<Longrightarrow> owns s i (slot s i p)"
  by (auto simp: owns_def)

lemma extends_owns:
  assumes "extends i s s'" "owns s' i b"
  shows "owns s i b \<or> \<not> used s (isb (icache s i)) b"
proof -
  obtain p where p: "p \<le> MAXFILE" "slot s' i p = b" "b \<noteq> 0" using assms(2) by (auto simp: owns_def)
  show ?thesis
  proof (cases "slot s i p = 0")
    case True
    then show ?thesis using assms(1) p by (auto simp: extends_def Let_def)
  next
    case False
    then have "slot s i p = b" using assms(1) p by (simp add: extends_def Let_def)
    then show ?thesis using slot_owns [OF p(1) False] by simp
  qed
qed

lemma extends_trans:
  assumes "extends i s t" "extends i t u"
  shows "extends i s u"
proof -
  note d = extendsD [OF assms(1)]
  let ?v = "isb (icache s i)"
  have st: "\<forall>b<fs_size (sbs s ?v). used s ?v b \<longrightarrow> used t ?v b" "\<forall>p\<le>MAXFILE. slot s i p \<noteq> 0 \<longrightarrow> slot t i p = slot s i p"
    "\<forall>p\<le>MAXFILE. slot s i p = 0 \<longrightarrow> slot t i p \<noteq> 0 \<longrightarrow> slot t i p < fs_size (sbs s ?v) \<and> \<not> used s ?v (slot t i p)"
    "\<forall>b<fs_size (sbs s ?v). used s ?v b \<longrightarrow> \<not> map_block (sbs s ?v) b \<longrightarrow> \<not> owns s i b \<longrightarrow> blk t ?v b = blk s ?v b"
    using assms(1) by (simp_all add: extends_def Let_def)
  have tu: "\<forall>b<fs_size (sbs s ?v). used t ?v b \<longrightarrow> used u ?v b" "\<forall>p\<le>MAXFILE. slot t i p \<noteq> 0 \<longrightarrow> slot u i p = slot t i p"
    "\<forall>p\<le>MAXFILE. slot t i p = 0 \<longrightarrow> slot u i p \<noteq> 0 \<longrightarrow> slot u i p < fs_size (sbs s ?v) \<and> \<not> used t ?v (slot u i p)"
    "\<forall>b<fs_size (sbs s ?v). used t ?v b \<longrightarrow> \<not> map_block (sbs s ?v) b \<longrightarrow> \<not> owns t i b \<longrightarrow> blk u ?v b = blk t ?v b"
    using assms(2) d by (simp_all add: extends_def Let_def)
  obtain as where as: "icache t = (icache s)(i := (icache s i)\<lparr>addrs := as\<rparr>)" using assms(1) by (auto simp: extends_def Let_def)
  obtain bs where "icache u = (icache t)(i := (icache t i)\<lparr>addrs := bs\<rparr>)" using assms(2) by (auto simp: extends_def Let_def)
  then have "icache u = (icache s)(i := (icache s i)\<lparr>addrs := bs\<rparr>)" using as by simp
  moreover have "sbs u = sbs s" "\<forall>w. w \<noteq> ?v \<longrightarrow> blk u w = blk s w" using assms d by (simp_all add: extends_def Let_def)
  moreover have "\<forall>b<fs_size (sbs s ?v). used s ?v b \<longrightarrow> used u ?v b" using st(1) tu(1) by blast
  moreover have "\<forall>p\<le>MAXFILE. slot s i p \<noteq> 0 \<longrightarrow> slot u i p = slot s i p" using st(2) tu(2) by metis
  moreover have "\<forall>p\<le>MAXFILE. slot s i p = 0 \<longrightarrow> slot u i p \<noteq> 0 \<longrightarrow> slot u i p < fs_size (sbs s ?v) \<and> \<not> used s ?v (slot u i p)"
    using st(1,3) tu(2,3) by metis
  moreover have "\<forall>b<fs_size (sbs s ?v). used s ?v b \<longrightarrow> \<not> map_block (sbs s ?v) b \<longrightarrow> \<not> owns s i b \<longrightarrow> blk u ?v b = blk s ?v b"
    using st(1,4) tu(4) extends_owns [OF assms(1)] by metis
  ultimately show ?thesis unfolding extends_def Let_def by blast
qed

text \<open>What a file looks like to its readers: the byte at each offset.\<close>

definition content :: "nfs \<Rightarrow> nat \<Rightarrow> nat \<Rightarrow> u8" where
  "content s i x =
    (let b = slot s i (x div BSIZE) in if b = 0 then 0 else blk s (isb (icache s i)) b (x mod BSIZE))"

section \<open>Allocation\<close>

lemma taken_slot:
  assumes "file_ok s i" "\<not> used s (isb (icache s i)) c" "c < fs_size (sbs s (isb (icache s i)))" "p \<le> MAXFILE"
  shows "slot (taken (isb (icache s i)) c s) i p = slot s i p"
proof (cases "p < NDIRECT \<or> p = MAXFILE \<or> addrs (icache s i) ! NDIRECT = 0")
  case True
  then show ?thesis by (auto simp: slot_def Let_def)
next
  case False
  then have "owns s i (unat (addrs (icache s i) ! NDIRECT))"
    by (auto simp: owns_def slot_def Let_def layout unat_eq_zero intro!: exI [of _ MAXFILE])
  from file_okD(4) [OF assms(1) this] assms(2)
  have "blk (taken (isb (icache s i)) c s) (isb (icache s i)) (unat (addrs (icache s i) ! NDIRECT)) =
      blk s (isb (icache s i)) (unat (addrs (icache s i) ! NDIRECT))"
    by (intro taken_blk [OF _ _ assms(3)]) (auto simp: reserved_def)
  then show ?thesis by (simp add: slot_def Let_def)
qed

text \<open>A file that has been given the free block \<open>c\<close> at the empty position \<open>p\<close>.\<close>

definition placed :: "nat \<Rightarrow> nat \<Rightarrow> nat \<Rightarrow> nfs \<Rightarrow> nfs \<Rightarrow> bool" where
  "placed i p c s t =
    (let v = isb (icache s i) in
     sbs t = sbs s \<and> (\<exists>as. length as = NDIRECT + 1 \<and> icache t = (icache s)(i := (icache s i)\<lparr>addrs := as\<rparr>)) \<and>
     (\<forall>w. w \<noteq> v \<longrightarrow> blk t w = blk s w) \<and>
     (\<forall>d<fs_size (sbs s v). used t v d \<longleftrightarrow> used s v d \<or> d = c) \<and>
     (\<forall>q\<le>MAXFILE. slot t i q = (if q = p then c else slot s i q)) \<and>
     (\<forall>d. d \<noteq> c \<longrightarrow> \<not> map_block (sbs s v) d \<longrightarrow> d \<noteq> slot s i MAXFILE \<or> d = 0 \<longrightarrow> blk t v d = blk s v d))"

lemma fresh_block:
  assumes "sb_ok s v" "\<not> used s v c"
  shows "c \<noteq> 0" "\<not> reserved (sbs s v) c" "\<not> map_block (sbs s v) c"
proof -
  show "\<not> reserved (sbs s v) c" using assms by (auto simp: sb_ok_def)
  then show "c \<noteq> 0" "\<not> map_block (sbs s v) c" by (auto simp: reserved_def)
qed

lemma placed_file_ok:
  assumes ok: "file_ok s i" and c: "\<not> used s (isb (icache s i)) c" "c < fs_size (sbs s (isb (icache s i)))"
    and p: "p \<le> MAXFILE" "slot s i p = 0" and t: "placed i p c s t"
  shows "file_ok t i"
proof -
  let ?v = "isb (icache s i)"
  note f = file_okD [OF ok]
  have v: "isb (icache t i) = ?v" "inum (icache t i) = inum (icache s i)" "length (addrs (icache t i)) = NDIRECT + 1" "sbs t = sbs s"
    using t by (auto simp: placed_def Let_def)
  have u: "\<forall>d<fs_size (sbs s ?v). used t ?v d \<longleftrightarrow> used s ?v d \<or> d = c" "\<forall>q\<le>MAXFILE. slot t i q = (if q = p then c else slot s i q)"
    using t by (simp_all add: placed_def Let_def)
  have sb: "sb_ok t ?v" using f(1) u(1) by (simp add: sb_ok_def v(4))
  have own: "d = c \<or> owns s i d" if "owns t i d" for d
  proof -
    from that obtain q where "q \<le> MAXFILE" "slot t i q = d" "d \<noteq> 0" unfolding owns_def by blast
    then show ?thesis using spec [OF u(2), of q] slot_owns [of q s i] by (cases "q = p") auto
  qed
  have "d < fs_size (sbs s ?v) \<and> used t ?v d \<and> \<not> reserved (sbs s ?v) d" if "owns t i d" for d
    using own [OF that] f(4) [of d] u(1) c(2) fresh_block(2) [OF f(1) c(1)] by blast
  moreover have "q = r" if h: "q \<le> MAXFILE" "r \<le> MAXFILE" "slot t i q = slot t i r" "slot t i q \<noteq> 0" for q r
  proof -
    have "slot s i q \<noteq> c" if "q \<le> MAXFILE" for q
      using slot_owns [OF that, of s i] f(4) [of "slot s i q"] c(1) fresh_block(1) [OF f(1) c(1)] by auto
    from this [OF h(1)] this [OF h(2)] show ?thesis
      using h(3,4) spec [OF u(2), of q] spec [OF u(2), of r] h(1,2) f(5) [OF h(1,2)] by (simp split: if_splits)
  qed
  ultimately show ?thesis unfolding file_ok_def Let_def using sb v f(2) by auto
qed

lemma placed_extends:
  assumes ok: "file_ok s i" and c: "\<not> used s (isb (icache s i)) c" "c < fs_size (sbs s (isb (icache s i)))"
    and p: "p \<le> MAXFILE" "slot s i p = 0" and t: "placed i p c s t"
  shows "extends i s t"
proof -
  let ?v = "isb (icache s i)"
  have u: "\<forall>d<fs_size (sbs s ?v). used t ?v d \<longleftrightarrow> used s ?v d \<or> d = c" "\<forall>q\<le>MAXFILE. slot t i q = (if q = p then c else slot s i q)"
    "\<forall>w. w \<noteq> ?v \<longrightarrow> blk t w = blk s w" "sbs t = sbs s" "\<exists>as. icache t = (icache s)(i := (icache s i)\<lparr>addrs := as\<rparr>)"
    using t by (auto simp: placed_def Let_def)
  have "\<forall>d<fs_size (sbs s ?v). used s ?v d \<longrightarrow> \<not> map_block (sbs s ?v) d \<longrightarrow> \<not> owns s i d \<longrightarrow> blk t ?v d = blk s ?v d"
    using t c(1) by (auto simp: placed_def Let_def owns_def)
  moreover have "\<forall>q\<le>MAXFILE. slot s i q \<noteq> 0 \<longrightarrow> slot t i q = slot s i q" using u(2) p(2) by auto
  moreover have "\<forall>q\<le>MAXFILE. slot s i q = 0 \<longrightarrow> slot t i q \<noteq> 0 \<longrightarrow> slot t i q < fs_size (sbs s ?v) \<and> \<not> used s ?v (slot t i q)"
    using u(2) c by auto
  moreover have "\<forall>d<fs_size (sbs s ?v). used s ?v d \<longrightarrow> used t ?v d" using u(1) by blast
  ultimately show ?thesis unfolding extends_def Let_def using u(3,4,5) by blast
qed

lemma placed_content:
  assumes ok: "file_ok s i" and c: "\<not> used s (isb (icache s i)) c"
    and p: "slot s i p = 0" and t: "placed i p c s t"
    and z: "p < MAXFILE \<Longrightarrow> \<forall>x<BSIZE. blk t (isb (icache s i)) c x = 0"
    and x: "x div BSIZE < MAXFILE"
  shows "content t i x = content s i x"
proof -
  let ?v = "isb (icache s i)" and ?q = "x div BSIZE"
  note f = file_okD [OF ok]
  have v: "isb (icache t i) = ?v" using t by (auto simp: placed_def Let_def)
  have u: "slot t i ?q = (if ?q = p then c else slot s i ?q)" using t x by (simp add: placed_def Let_def)
  show ?thesis
  proof (cases "?q = p")
    case True
    then show ?thesis using u z x p by (simp add: content_def Let_def v layout)
  next
    case False
    show ?thesis
    proof (cases "slot s i ?q = 0")
      case True
      then show ?thesis using u False by (simp add: content_def Let_def)
    next
      case nz: False
      have "owns s i (slot s i ?q)" using slot_owns [of ?q s i] x nz by simp
      then have "used s ?v (slot s i ?q)" "\<not> map_block (sbs s ?v) (slot s i ?q)" using f(4) by (auto simp: reserved_def)
      moreover have "slot s i ?q \<noteq> slot s i MAXFILE" using f(5) [of ?q MAXFILE] x nz by auto
      ultimately have "blk t ?v (slot s i ?q) = blk s ?v (slot s i ?q)" using t c by (auto simp: placed_def Let_def)
      then show ?thesis using u False by (simp add: content_def Let_def v)
    qed
  qed
qed

text \<open>The two places a number is put: a word of the inode, and a word of the indirect block.\<close>

lemma unat_pos: "w \<noteq> 0 \<Longrightarrow> 0 < unat w" for w :: u32
  by (simp add: unat_gt_0)

lemma of_nat_block: "c < 2 ^ 32 \<Longrightarrow> unat (of_nat c :: u32) = c"
  by (simp add: unsigned_of_nat take_bit_nat_eq_self)

lemma placed_addr:
  assumes ok: "file_ok s i" and c: "\<not> used s (isb (icache s i)) c" "c < fs_size (sbs s (isb (icache s i)))"
    and k: "k \<le> NDIRECT" "addrs (icache s i) ! k = 0" and p: "p = (if k = NDIRECT then MAXFILE else k)"
  shows "placed i p c s (upd_inode i (\<lambda>ip. ip\<lparr>addrs := (addrs ip)[k := of_nat c]\<rparr>) (taken (isb (icache s i)) c s))" (is "placed i p c s ?t")
proof -
  let ?v = "isb (icache s i)"
  note f = file_okD [OF ok]
  have b: "blk ?t = blk (taken ?v c s)" "sbs ?t = sbs s" by (simp_all add: upd_inode_def)
  have c32: "unat (of_nat c :: u32) = c" using f(1) c(2) by (intro of_nat_block) (simp add: sb_ok_def)
  have c0: "c \<noteq> 0" using fresh_block(1) [OF f(1) c(1)] .
  have u: "\<forall>d<fs_size (sbs s ?v). used ?t ?v d \<longleftrightarrow> used s ?v d \<or> d = c"
    using taken_used [OF f(1) c] by (simp add: used_def b)
  have "slot ?t i q = (if q = p then c else slot s i q)" if q: "q \<le> MAXFILE" for q
  proof (cases "q < NDIRECT \<or> q = MAXFILE")
    case True
    then show ?thesis using f(3) k p c32 by (auto simp: slot_def Let_def upd_inode_def layout nth_list_update)
  next
    case False
    then have "q < MAXFILE" "NDIRECT \<le> q" "q \<noteq> p" using q p k(1) by (auto simp: layout)
    show ?thesis
    proof (cases "k = NDIRECT")
      case True
      have "load32 (blk (taken ?v c s) ?v c) (4 * (q - NDIRECT)) = 0"
        using \<open>q < MAXFILE\<close> taken_zero [of _ ?v c s] by (simp add: load32_def layout)
      moreover have "(of_nat c :: u32) \<noteq> 0" using c32 c0 by (metis unsigned_0)
      ultimately show ?thesis using True False \<open>q \<noteq> p\<close> f(3) k(2) c32 by (simp add: slot_def Let_def upd_inode_def)
    next
      case kn: False
      then have "slot ?t i q = slot (taken ?v c s) i q" using False by (simp add: slot_def Let_def upd_inode_def)
      then show ?thesis using taken_slot [OF ok c q] \<open>q \<noteq> p\<close> by simp
    qed
  qed
  moreover have "\<forall>d. d \<noteq> c \<longrightarrow> \<not> map_block (sbs s ?v) d \<longrightarrow> blk ?t ?v d = blk s ?v d" using taken_blk [of _ c s ?v] c(2) by (simp add: b)
  moreover have "\<exists>as. length as = NDIRECT + 1 \<and> icache ?t = (icache s)(i := (icache s i)\<lparr>addrs := as\<rparr>)"
    by (rule exI [of _ "(addrs (icache s i))[k := of_nat c]"]) (simp add: upd_inode_def f(3))
  ultimately show ?thesis using u b by (simp add: placed_def Let_def)
qed

lemma placed_indirect:
  assumes ok: "file_ok s i" and c: "\<not> used s (isb (icache s i)) c" "c < fs_size (sbs s (isb (icache s i)))"
    and p: "NDIRECT \<le> p" "p < MAXFILE" and ind: "ind = slot s i MAXFILE" "ind \<noteq> 0"
  shows "placed i p c s (upd_blk (isb (icache s i)) ind (\<lambda>m. store32 m (4 * (p - NDIRECT)) (of_nat c)) (taken (isb (icache s i)) c s))"
    (is "placed i p c s ?t")
proof -
  let ?v = "isb (icache s i)" and ?ts = "taken (isb (icache s i)) c s"
  note f = file_okD [OF ok]
  have indb: "ind = unat (addrs (icache s i) ! NDIRECT)" "addrs (icache s i) ! NDIRECT \<noteq> 0" using ind by (auto simp: slot_def layout)
  have io: "used s ?v ind" "\<not> map_block (sbs s ?v) ind" using f(4) [of ind] slot_owns [of MAXFILE s i] ind by (auto simp: reserved_def)
  have b: "sbs ?t = sbs s" "icache ?t = icache s" "\<And>d. d \<noteq> ind \<Longrightarrow> blk ?t ?v d = blk ?ts ?v d" "\<And>w. w \<noteq> ?v \<Longrightarrow> blk ?t w = blk s w"
    by (simp_all add: upd_blk_def)
  have bi: "blk ?t ?v ind = store32 (blk s ?v ind) (4 * (p - NDIRECT)) (of_nat c)"
  proof -
    have "ind \<noteq> c" using io(1) c(1) by blast
    from taken_blk [OF this io(2) c(2)] show ?thesis by (simp add: upd_blk_def)
  qed
  have c32: "unat (of_nat c :: u32) = c" using f(1) c(2) by (intro of_nat_block) (simp add: sb_ok_def)
  have u: "used ?t ?v d \<longleftrightarrow> used s ?v d \<or> d = c" if "d < fs_size (sbs s ?v)" for d
  proof -
    have "BBLOCK d (sbs s ?v) \<noteq> ind" using io(2) that by (auto simp: map_block_def)
    then show ?thesis using taken_used [OF f(1) c that] b by (simp add: used_def)
  qed
  have "slot ?t i q = (if q = p then c else slot s i q)" if q: "q \<le> MAXFILE" for q
  proof (cases "q < NDIRECT \<or> q = MAXFILE")
    case True
    then show ?thesis using p b(2) by (auto simp: slot_def Let_def)
  next
    case False
    then have "4 * (p - NDIRECT) + 4 \<le> 4 * (q - NDIRECT) \<or> 4 * (q - NDIRECT) + 4 \<le> 4 * (p - NDIRECT)" if "q \<noteq> p" using that p by auto
    then have "load32 (blk ?t ?v ind) (4 * (q - NDIRECT)) = (if q = p then of_nat c else load32 (blk s ?v ind) (4 * (q - NDIRECT)))"
      unfolding bi by (simp add: load32_store32_other)
    then show ?thesis using False b(2) indb c32 by (simp add: slot_def Let_def)
  qed
  moreover have "\<forall>d. d \<noteq> c \<longrightarrow> \<not> map_block (sbs s ?v) d \<longrightarrow> d \<noteq> ind \<longrightarrow> blk ?t ?v d = blk s ?v d" using taken_blk [of _ c s ?v] c(2) b(3) by simp
  moreover have "\<exists>as. length as = NDIRECT + 1 \<and> icache ?t = (icache s)(i := (icache s i)\<lparr>addrs := as\<rparr>)"
    by (rule exI [of _ "addrs (icache s i)"]) (simp add: b f(3))
  moreover have "ind \<noteq> 0" by (rule ind(2))
  ultimately show ?thesis using u b ind by (auto simp: placed_def Let_def)
qed

text \<open>What \<open>bmap\<close> does to a file: it extends it and leaves its contents as they are.\<close>

definition grows :: "nat \<Rightarrow> nfs \<Rightarrow> nfs \<Rightarrow> bool" where
  "grows i s t = (file_ok t i \<and> extends i s t \<and> (\<forall>x. x div BSIZE < MAXFILE \<longrightarrow> content t i x = content s i x))"

lemma grows_refl: "file_ok s i \<Longrightarrow> grows i s s"
  by (simp add: grows_def extends_refl)

lemma grows_trans: "grows i s t \<Longrightarrow> grows i t u \<Longrightarrow> grows i s u"
  using extends_trans by (auto simp: grows_def)

lemma placed_grows:
  assumes "file_ok s i" "\<not> used s (isb (icache s i)) c" "c < fs_size (sbs s (isb (icache s i)))"
    and "p \<le> MAXFILE" "slot s i p = 0" "placed i p c s t" "p < MAXFILE \<Longrightarrow> \<forall>x<BSIZE. blk t (isb (icache s i)) c x = 0"
  shows "grows i s t" "slot t i p = c"
  using placed_file_ok [OF assms(1-6)] placed_extends [OF assms(1-6)] placed_content [OF assms(1,2,5,6,7)] assms(4,6)
  by (auto simp: grows_def placed_def Let_def)

lemma bmap_slot_spec:
  assumes ok: "file_ok s i" and k: "k \<le> NDIRECT" and run: "bmap_slot i k s = Ret (b, t)" and p: "p = (if k = NDIRECT then MAXFILE else k)"
  shows "grows i s t \<and> slot t i p = b \<and> b \<noteq> 0"
proof (cases "addrs (icache s i) ! k = 0")
  case False
  then show ?thesis using run ok k p by (auto simp: bmap_slot_def Let_def slot_def layout grows_refl unat_pos)
next
  case True
  let ?v = "isb (icache s i)" and ?t = "\<lambda>c. upd_inode i (\<lambda>ip. ip\<lparr>addrs := (addrs ip)[k := of_nat c]\<rparr>) (taken (isb (icache s i)) c s)"
  obtain s1 where a: "balloc ?v s = Ret (b, s1)" and t1: "t = upd_inode i (\<lambda>ip. ip\<lparr>addrs := (addrs ip)[k := of_nat b]\<rparr>) s1"
    using run True by (auto simp: bmap_slot_def Let_def bindO_Ret_iff)
  have c: "b < fs_size (sbs s ?v)" "\<not> used s ?v b" "t = ?t b" using balloc_taken [OF a] t1 by auto
  have "slot s i p = 0" "p \<le> MAXFILE" using True k p by (auto simp: slot_def Let_def layout)
  moreover have "placed i p b s t" unfolding c(3) by (rule placed_addr [OF ok c(2,1) k True p])
  moreover have "\<forall>x<BSIZE. blk t ?v b x = 0" using taken_zero by (simp add: c(3) upd_inode_def)
  ultimately show ?thesis using placed_grows [OF ok c(2,1)] fresh_block(1) [OF file_okD(1) [OF ok] c(2)] by blast
qed

lemma bmap_spec:
  assumes ok: "file_ok s i" and run: "bmap i bn s = Ret (b, t)"
  shows "bn < MAXFILE \<and> grows i s t \<and> slot t i bn = b \<and> b \<noteq> 0"
proof (cases "bn < NDIRECT")
  case True
  then show ?thesis using bmap_slot_spec [OF ok _ _ refl, of bn b t] run by (simp add: bmap_def layout)
next
  case False
  let ?v = "isb (icache s i)" and ?n = "bn - NDIRECT"
  have n: "?n < NINDIRECT" using run False by (auto simp: bmap_def Let_def split: if_splits)
  then have bn: "NDIRECT \<le> bn" "bn < MAXFILE" using False by (auto simp: MAXFILE_def)
  obtain ind s1 where a: "bmap_slot i NDIRECT s = Ret (ind, s1)"
    and b: "(if load32 (blk s1 ?v ind) (4 * ?n) \<noteq> 0 then Ret (unat (load32 (blk s1 ?v ind) (4 * ?n)), s1)
      else bindO (balloc ?v s1) (\<lambda>(c, s). Ret (c, upd_blk ?v ind (\<lambda>m. store32 m (4 * ?n) (of_nat c)) s))) = Ret (b, t)"
    using run False n by (auto simp: bmap_def Let_def bindO_Ret_iff)
  have s1: "grows i s s1" "slot s1 i MAXFILE = ind" "ind \<noteq> 0" using bmap_slot_spec [OF ok _ a refl] by simp_all
  then have ok1: "file_ok s1 i" and v1: "isb (icache s1 i) = ?v" using extendsD(2) by (auto simp: grows_def)
  have w: "slot s1 i bn = unat (load32 (blk s1 ?v ind) (4 * ?n))"
    using bn s1(2,3) v1 by (auto simp: slot_def Let_def layout)
  show ?thesis
  proof (cases "load32 (blk s1 ?v ind) (4 * ?n) = 0")
    case False
    then show ?thesis using b s1(1) w bn by (auto simp: unat_pos)
  next
    case True
    then obtain s2 where "balloc ?v s1 = Ret (b, s2)" "t = upd_blk ?v ind (\<lambda>m. store32 m (4 * ?n) (of_nat b)) s2"
      using b by (auto simp: bindO_Ret_iff)
    then have c: "b < fs_size (sbs s1 ?v)" "\<not> used s1 ?v b" "t = upd_blk ?v ind (\<lambda>m. store32 m (4 * ?n) (of_nat b)) (taken ?v b s1)"
      using balloc_taken by auto
    have pl: "placed i bn b s1 t" unfolding c(3) using placed_indirect [OF ok1 _ _ bn s1(2) [symmetric] s1(3), of b] c(1,2) v1 by simp
    have "ind \<noteq> b" using file_okD(4) [OF ok1 slot_owns [of MAXFILE s1 i]] s1(2,3) c(2) v1 by auto
    then have "\<forall>x<BSIZE. blk t ?v b x = 0" using taken_zero by (simp add: c(3) upd_blk_def)
    then show ?thesis using placed_grows [OF ok1 _ _ _ _ pl] c(1,2) v1 bn w True grows_trans [OF s1(1)]
        fresh_block(1) [OF file_okD(1) [OF ok1]] by simp
  qed
qed

section \<open>Reading and writing\<close>

lemma in_block:
  fixes x :: nat
  assumes "off mod B + m \<le> B" "0 < B"
  shows "(x div B = off div B \<and> off mod B \<le> x mod B \<and> x mod B < off mod B + m) \<longleftrightarrow> off \<le> x \<and> x < off + m"
proof -
  define q r k where "q = off div B" and "r = off mod B" and "k = x - q * B"
  have off: "off = q * B + r" by (simp add: q_def r_def)
  have rm: "r + m \<le> B" using assms(1) by (simp add: r_def)
  have "x div B = q \<and> r \<le> x mod B \<and> x mod B < r + m \<longleftrightarrow> off \<le> x \<and> x < off + m"
  proof
    assume h: "x div B = q \<and> r \<le> x mod B \<and> x mod B < r + m"
    then have "x = q * B + x mod B" using div_mult_mod_eq [of x B] by simp
    then show "off \<le> x \<and> x < off + m" using h off by linarith
  next
    assume h: "off \<le> x \<and> x < off + m"
    then have k: "x = k + q * B" "k < B" "r \<le> k" "k < r + m" using off rm unfolding k_def by linarith+
    have "x div B = q" "x mod B = k" unfolding k(1) using k(2) by simp_all
    then show "x div B = q \<and> r \<le> x mod B \<and> x mod B < r + m" using k(3,4) by blast
  qed
  then show ?thesis unfolding q_def r_def .
qed

lemma write_block:
  assumes ok: "file_ok s i" and p: "p < MAXFILE" "slot s i p = b" "b \<noteq> 0" and a: "a + length bs \<le> BSIZE"
  defines "t \<equiv> upd_blk (isb (icache s i)) b (\<lambda>m. write_bytes m a bs) s"
  shows "file_ok t i" "extends i s t"
    "x div BSIZE < MAXFILE \<Longrightarrow> content t i x =
      (if x div BSIZE = p \<and> a \<le> x mod BSIZE \<and> x mod BSIZE < a + length bs then bs ! (x mod BSIZE - a) else content s i x)"
    "q \<le> MAXFILE \<Longrightarrow> slot t i q = slot s i q"
proof -
  let ?v = "isb (icache s i)"
  note f = file_okD [OF ok]
  have b: "\<not> map_block (sbs s ?v) b" using f(4) [OF slot_owns [of p s i]] p by (auto simp: reserved_def)
  have t: "sbs t = sbs s" "icache t = icache s" "\<And>d. d \<noteq> b \<Longrightarrow> blk t ?v d = blk s ?v d" "\<And>w. w \<noteq> ?v \<Longrightarrow> blk t w = blk s w"
    by (simp_all add: t_def upd_blk_def)
  have used: "used t ?v d \<longleftrightarrow> used s ?v d" if "d < fs_size (sbs s ?v)" for d
    using b that by (auto simp: used_def t map_block_def)
  have "unat (addrs (icache s i) ! NDIRECT) \<noteq> b" using f(5) [of p MAXFILE] p by (auto simp: slot_def Let_def layout split: if_splits)
  then have slot: "slot t i q = slot s i q" for q by (simp add: slot_def Let_def t)
  then show "slot t i q = slot s i q" .
  have sb: "sb_ok t ?v" using f(1) used by (auto simp: sb_ok_def t)
  have owns: "owns t i = owns s i" by (auto simp: owns_def slot)
  show "file_ok t i" using ok sb used by (auto simp: file_ok_def Let_def t slot owns)
  show "extends i s t" using t slot used slot_owns [of p s i] p
    by (auto simp: extends_def Let_def owns_def intro!: exI [of _ "addrs (icache s i)"])
  show "content t i x = (if x div BSIZE = p \<and> a \<le> x mod BSIZE \<and> x mod BSIZE < a + length bs then bs ! (x mod BSIZE - a) else content s i x)"
    if x: "x div BSIZE < MAXFILE"
  proof (cases "x div BSIZE = p")
    case True
    then show ?thesis using p by (simp add: content_def Let_def slot t) (simp add: t_def upd_blk_def write_bytes_def)
  next
    case False
    then have "slot s i (x div BSIZE) \<noteq> b" using f(5) [of "x div BSIZE" p] x p by auto
    then show ?thesis using False by (simp add: content_def Let_def slot t)
  qed
qed

text \<open>What writing does to a file, and which of its positions are filled.\<close>

definition wrote :: "nat \<Rightarrow> nat \<Rightarrow> u8 list \<Rightarrow> nfs \<Rightarrow> nfs \<Rightarrow> bool" where
  "wrote i off src s t =
    (file_ok t i \<and> extends i s t \<and>
     (\<forall>x. x div BSIZE < MAXFILE \<longrightarrow> content t i x = (if off \<le> x \<and> x < off + length src then src ! (x - off) else content s i x)) \<and>
     (\<forall>x. off \<le> x \<longrightarrow> x < off + length src \<longrightarrow> x div BSIZE < MAXFILE \<and> slot t i (x div BSIZE) \<noteq> 0))"

lemma wrote_Nil: "file_ok s i \<Longrightarrow> wrote i off [] s s"
  by (auto simp: wrote_def extends_refl)

lemma wrote_append:
  assumes "wrote i off xs s t" "wrote i (off + length xs) ys t u"
  shows "wrote i off (xs @ ys) s u"
proof -
  have st: "\<And>x. x div BSIZE < MAXFILE \<Longrightarrow> content t i x = (if off \<le> x \<and> x < off + length xs then xs ! (x - off) else content s i x)"
    "\<And>x. off \<le> x \<Longrightarrow> x < off + length xs \<Longrightarrow> x div BSIZE < MAXFILE \<and> slot t i (x div BSIZE) \<noteq> 0"
    using assms(1) by (simp_all add: wrote_def)
  have tu: "\<And>x. x div BSIZE < MAXFILE \<Longrightarrow> content u i x =
      (if off + length xs \<le> x \<and> x < off + length xs + length ys then ys ! (x - (off + length xs)) else content t i x)"
    "\<And>x. off + length xs \<le> x \<Longrightarrow> x < off + length xs + length ys \<Longrightarrow> x div BSIZE < MAXFILE \<and> slot u i (x div BSIZE) \<noteq> 0"
    using assms(2) by (simp_all add: wrote_def)
  have keep: "slot u i p \<noteq> 0" if "p < MAXFILE" "slot t i p \<noteq> 0" for p
    using assms(2) that by (auto simp: wrote_def extends_def Let_def)
  have "content u i x = (if off \<le> x \<and> x < off + length (xs @ ys) then (xs @ ys) ! (x - off) else content s i x)" if "x div BSIZE < MAXFILE" for x
    using st(1) [OF that] tu(1) [OF that] by (auto simp: nth_append)
  moreover have "x div BSIZE < MAXFILE \<and> slot u i (x div BSIZE) \<noteq> 0" if "off \<le> x" "x < off + length (xs @ ys)" for x
    using st(2) [OF that(1)] tu(2) [of x] keep [of "x div BSIZE"] that by (cases "x < off + length xs") auto
  ultimately show ?thesis using assms extends_trans unfolding wrote_def by blast
qed

lemma wrote_block:
  assumes ok: "file_ok s i" and run: "bmap i (off div BSIZE) s = Ret (b, t)" and m: "off mod BSIZE + length bs \<le> BSIZE"
  shows "wrote i off bs s (upd_blk (isb (icache t i)) b (\<lambda>mm. write_bytes mm (off mod BSIZE) bs) t)" (is "wrote i off bs s ?u")
proof -
  have t: "off div BSIZE < MAXFILE" "grows i s t" "slot t i (off div BSIZE) = b" "b \<noteq> 0" using bmap_spec [OF ok run] by auto
  then have "file_ok t i" by (simp add: grows_def)
  note w = write_block [OF this t(1,3,4) m]
  have B: "0 < BSIZE" by (simp add: layout)
  have c: "content t i x = content s i x" if "x div BSIZE < MAXFILE" for x using t(2) that by (simp add: grows_def)
  have d: "x mod BSIZE - off mod BSIZE = x - off" if "x div BSIZE = off div BSIZE" for x
    using that div_mult_mod_eq [of x BSIZE] div_mult_mod_eq [of off BSIZE] by (metis add_diff_cancel_left)
  have "content ?u i x = (if off \<le> x \<and> x < off + length bs then bs ! (x - off) else content s i x)" if "x div BSIZE < MAXFILE" for x
    using w(3) [OF that] c [OF that] in_block [OF m B, of x] d [of x] by auto
  moreover have "x div BSIZE < MAXFILE \<and> slot ?u i (x div BSIZE) \<noteq> 0" if "off \<le> x" "x < off + length bs" for x
    using in_block [OF m B, of x] that t w(4) by auto
  moreover have "extends i s ?u" using extends_trans [OF _ w(2)] t(2) by (simp add: grows_def)
  ultimately show ?thesis using w(1) by (simp add: wrote_def)
qed

lemma writei_loop_spec:
  assumes "file_ok s i" "writei_loop i off src s = Ret t"
  shows "wrote i off src s t"
  using assms
proof (induction i off src s arbitrary: t rule: writei_loop.induct)
  case (1 i off src s)
  show ?case
  proof (cases "src = []")
    case True
    then have "t = s" using "1.prems"(2) by (simp add: writei_loop.simps)
    then show ?thesis using True wrote_Nil [OF "1.prems"(1)] by simp
  next
    case False
    let ?m = "min (length src) (BSIZE - off mod BSIZE)"
    obtain b s1 where b: "bmap i (off div BSIZE) s = Ret (b, s1)"
      and r: "writei_loop i (off + ?m) (drop ?m src) (upd_blk (isb (icache s1 i)) b (\<lambda>mm. write_bytes mm (off mod BSIZE) (take ?m src)) s1) = Ret t"
      using "1.prems"(2) False by (subst (asm) writei_loop.simps) (auto simp: bindO_Ret_iff Let_def)
    let ?u = "upd_blk (isb (icache s1 i)) b (\<lambda>mm. write_bytes mm (off mod BSIZE) (take ?m src)) s1"
    have "off mod BSIZE < BSIZE" by (simp add: layout)
    then have "off mod BSIZE + length (take ?m src) \<le> BSIZE" by auto
    note w = wrote_block [OF "1.prems"(1) b this]
    then have "file_ok ?u i" by (simp add: wrote_def)
    from "1.IH" [OF False refl this r] have "wrote i (off + ?m) (drop ?m src) ?u t" .
    with w show ?thesis using wrote_append [of i off "take ?m src" s ?u "drop ?m src" t] by simp
  qed
qed

text \<open>\<open>iupdate\<close> changes the block of the inode only, which is not a block of any file.\<close>

lemma resize_file:
  fixes n :: nat
  assumes ok: "file_ok s i"
  defines "t \<equiv> iupdate i (upd_inode i (\<lambda>ip. ip\<lparr>isize := n\<rparr>) s)"
  shows "file_ok t i" "slot t i p = slot s i p" "x div BSIZE < MAXFILE \<Longrightarrow> content t i x = content s i x"
    "icache t = (icache s)(i := (icache s i)\<lparr>isize := n\<rparr>)" "sbs t = sbs s"
    "d \<noteq> IBLOCK (inum (icache s i)) (sbs s (isb (icache s i))) \<or> w \<noteq> isb (icache s i) \<Longrightarrow> blk t w d = blk s w d"
proof -
  let ?v = "isb (icache s i)" and ?ib = "IBLOCK (inum (icache s i)) (sbs s (isb (icache s i)))"
  note f = file_okD [OF ok]
  have ib: "inode_block (sbs s ?v) ?ib" using f(2) by (auto simp: inode_block_def)
  then have ib': "reserved (sbs s ?v) ?ib" "\<not> map_block (sbs s ?v) ?ib" using f(1) by (auto simp: reserved_def sb_ok_def)
  show t: "icache t = (icache s)(i := (icache s i)\<lparr>isize := n\<rparr>)" "sbs t = sbs s"
    by (simp_all add: t_def iupdate_def upd_inode_def upd_blk_def Let_def)
  show b: "blk t w d = blk s w d" if "d \<noteq> ?ib \<or> w \<noteq> ?v" for w d
    using that by (auto simp: t_def iupdate_def upd_inode_def upd_blk_def Let_def)
  have used: "used t ?v d \<longleftrightarrow> used s ?v d" if "d < fs_size (sbs s ?v)" for d
    using ib'(2) that b by (auto simp: used_def t map_block_def)
  have ind: "unat (addrs (icache s i) ! NDIRECT) \<noteq> ?ib" if "addrs (icache s i) ! NDIRECT \<noteq> 0"
    using f(4) [OF slot_owns [of MAXFILE s i]] that ib'(1) by (auto simp: slot_def Let_def layout unat_pos)
  show slot: "slot t i p = slot s i p" for p
    using ind b by (auto simp: slot_def Let_def t)
  have owns: "owns t i = owns s i" by (auto simp: owns_def slot)
  show "file_ok t i" using ok used by (auto simp: file_ok_def Let_def t slot owns sb_ok_def)
  have "slot s i p \<noteq> ?ib" if "p \<le> MAXFILE" "slot s i p \<noteq> 0" for p using f(4) [OF slot_owns [OF that]] ib'(1) by auto
  then show "content t i x = content s i x" if "x div BSIZE < MAXFILE"
    using b that by (auto simp: content_def Let_def t slot)
qed

definition dense :: "nfs \<Rightarrow> nat \<Rightarrow> bool" where
  "dense s i = (\<forall>x<isize (icache s i). x div BSIZE < MAXFILE \<and> slot s i (x div BSIZE) \<noteq> 0)"

lemma bmap_present:
  assumes "bn < MAXFILE" "slot s i bn \<noteq> 0"
  shows "bmap i bn s = Ret (slot s i bn, s)"
  using assms by (auto simp: bmap_def bmap_slot_def slot_def Let_def layout unat_pos split: if_splits)

lemma block_offset:
  fixes k :: nat
  assumes "off mod B + k < B"
  shows "(off + k) div B = off div B" "(off + k) mod B = off mod B + k"
proof -
  define q r where "q = off div B" and "r = off mod B"
  have e: "off + k = (r + k) + q * B" by (simp add: q_def r_def)
  have "r + k < B" using assms by (simp add: r_def)
  then have "(off + k) div B = q" "(off + k) mod B = r + k" unfolding e by simp_all
  then show "(off + k) div B = off div B" "(off + k) mod B = off mod B + k" unfolding q_def r_def .
qed

lemma readi_loop_spec:
  assumes "\<And>x. off \<le> x \<Longrightarrow> x < off + n \<Longrightarrow> x div BSIZE < MAXFILE \<and> slot s i (x div BSIZE) \<noteq> 0"
  shows "readi_loop i off n s = Ret (map (content s i) [off..<off + n], s)"
  using assms
proof (induction i off n s rule: readi_loop.induct)
  case (1 i off n s)
  show ?case
  proof (cases "n = 0")
    case True
    then show ?thesis by (simp add: readi_loop.simps)
  next
    case False
    let ?m = "min n (BSIZE - off mod BSIZE)" and ?b = "slot s i (off div BSIZE)"
    have o: "off mod BSIZE < BSIZE" by (simp add: layout)
    have b: "bmap i (off div BSIZE) s = Ret (?b, s)" "?b \<noteq> 0" using "1.prems" [of off] False bmap_present by auto
    have IH: "readi_loop i (off + ?m) (n - ?m) s = Ret (map (content s i) [off + ?m..<off + n], s)"
      using "1.IH" [OF False refl refl, of s] "1.prems" by simp
    have "blk s (isb (icache s i)) ?b (off mod BSIZE + k) = content s i (off + k)" if "k < ?m" for k
    proof -
      have "off mod BSIZE + k < BSIZE" using that o by linarith
      from block_offset [OF this] show ?thesis using b(2) by (simp add: content_def Let_def)
    qed
    then have "map (blk s (isb (icache s i)) ?b) [off mod BSIZE..<off mod BSIZE + ?m] = map (content s i) [off..<off + ?m]"
      by (intro nth_equalityI) simp_all
    moreover have "[off..<off + n] = [off..<off + ?m] @ [off + ?m..<off + n]"
      using upt_add_eq_append [of off "off + ?m" "n - ?m"] by simp
    ultimately show ?thesis using False b IH by (subst readi_loop.simps) (simp add: Let_def)
  qed
qed

lemma sint_small: "n < 2 ^ 31 \<Longrightarrow> sint (of_nat n :: u32) = int n"
  by (simp add: signed_of_nat signed_take_bit_int_eq_self)

text \<open>What \<open>writei\<close> does when it succeeds on a file that is not a device.\<close>

lemma writei_run:
  assumes "itype (icache s i) \<noteq> T_DEV" "length src < 2 ^ 32" "writei dsw i src off s = Ret (r, t)" "0 \<le> r"
  obtains s1 where "writei_loop i (unat off) src s = Ret s1" "r = int (length src)" "unat off \<le> isize (icache s i)"
    "unat off + length src \<le> MAXFILE * BSIZE" "unat (off + of_nat (length src)) = unat off + length src"
    "t = (if isize (icache s1 i) < unat off + length src \<and> src \<noteq> []
          then iupdate i (upd_inode i (\<lambda>ip. ip\<lparr>isize := unat off + length src\<rparr>) s1) else s1)"
proof -
  let ?n = "of_nat (length src) :: u32"
  have n: "unat ?n = length src" using assms(2) by (rule of_nat_block)
  have c: "unat off \<le> isize (icache s i)" "\<not> off + ?n < off" "unat (off + ?n) \<le> MAXFILE * BSIZE"
    using assms(1,3,4) by (auto simp: writei_def Let_def split: if_splits)
  have sum: "unat (off + ?n) = unat off + length src" using c(2) n by (metis linorder_not_le unat_plus_simple)
  have si: "sint ?n = int (length src)" using c(3) sum by (intro sint_small) (simp add: layout)
  have n0: "0 < ?n \<longleftrightarrow> src \<noteq> []" using n by (auto simp: word_less_nat_alt)
  obtain s1 where s1: "writei_loop i (unat off) src s = Ret s1"
    "r = sint ?n" "t = (if 0 < ?n \<and> unat (off + ?n) > isize (icache s1 i) then iupdate i (upd_inode i (\<lambda>ip. ip\<lparr>isize := unat (off + ?n)\<rparr>) s1) else s1)"
    using assms(1,3) c by (cases "writei_loop i (unat off) src s") (simp_all add: writei_def Let_def del: split_paired_All)
  show ?thesis by (rule that [OF s1(1)]) (use s1(2,3) si c sum n0 in auto)
qed

text \<open>The blocks and inodes that work on inode \<open>i\<close> leaves alone.\<close>

definition frame :: "nat \<Rightarrow> nfs \<Rightarrow> nfs \<Rightarrow> bool" where
  "frame i s t =
    (let v = isb (icache s i) in
     sbs t = sbs s \<and> (\<forall>j. j \<noteq> i \<longrightarrow> icache t j = icache s j) \<and> (\<forall>w. w \<noteq> v \<longrightarrow> blk t w = blk s w) \<and>
     (\<forall>d<fs_size (sbs s v). used s v d \<longrightarrow> \<not> reserved (sbs s v) d \<longrightarrow> \<not> owns s i d \<longrightarrow> blk t v d = blk s v d))"

lemma frame_content:
  assumes "frame i s t" "j \<noteq> i" "file_ok s j" "\<And>b. isb (icache s j) = isb (icache s i) \<Longrightarrow> owns s i b \<Longrightarrow> owns s j b \<Longrightarrow> False"
    and x: "x div BSIZE < MAXFILE"
  shows "content t j x = content s j x"
proof -
  let ?w = "isb (icache s j)"
  have ic: "icache t j = icache s j" using assms(1,2) by (simp add: frame_def Let_def)
  have b: "blk t ?w d = blk s ?w d" if "owns s j d" for d
    using that assms(1,4) file_okD(4) [OF assms(3) that] by (cases "?w = isb (icache s i)") (auto simp: frame_def Let_def)
  have sl: "slot t j p = slot s j p" if "p \<le> MAXFILE" for p
  proof (cases "p < NDIRECT \<or> p = MAXFILE \<or> addrs (icache s j) ! NDIRECT = 0")
    case True
    then show ?thesis by (auto simp: slot_def Let_def ic)
  next
    case False
    then have "owns s j (unat (addrs (icache s j) ! NDIRECT))"
      by (auto simp: owns_def slot_def Let_def layout unat_pos intro!: exI [of _ MAXFILE])
    from b [OF this] show ?thesis by (simp add: slot_def Let_def ic)
  qed
  show ?thesis using b [OF slot_owns [of "x div BSIZE" s j]] x sl by (auto simp: content_def Let_def ic)
qed

lemma writei_spec:
  assumes ok: "file_ok s i" and d: "dense s i" and run: "itype (icache s i) \<noteq> T_DEV" "length src < 2 ^ 32" "writei dsw i src off s = Ret (r, t)" "0 \<le> r"
  shows "file_ok t i" "dense t i" "frame i s t" "r = int (length src)" "itype (icache t i) = itype (icache s i) \<and> ref (icache t i) = ref (icache s i)"
    "isize (icache t i) = max (isize (icache s i)) (unat off + length src)"
    "x div BSIZE < MAXFILE \<Longrightarrow> content t i x = (if unat off \<le> x \<and> x < unat off + length src then src ! (x - unat off) else content s i x)"
    "unat (off + of_nat (length src)) = unat off + length src" "unat off + length src \<le> MAXFILE * BSIZE"
proof -
  let ?v = "isb (icache s i)" and ?e = "unat off + length src"
  obtain s1 where s1: "writei_loop i (unat off) src s = Ret s1" "r = int (length src)" "unat off \<le> isize (icache s i)"
    "unat (off + of_nat (length src)) = ?e" "?e \<le> MAXFILE * BSIZE"
    "t = (if isize (icache s1 i) < ?e \<and> src \<noteq> [] then iupdate i (upd_inode i (\<lambda>ip. ip\<lparr>isize := ?e\<rparr>) s1) else s1)"
    using writei_run [OF run] by metis
  note w = writei_loop_spec [OF ok s1(1)]
  then have ok1: "file_ok s1 i" and ex: "extends i s s1" by (simp_all add: wrote_def)
  note e = extendsD [OF ex] and rs = resize_file [OF ok1, where n = ?e]
  have c1: "content s1 i x = (if unat off \<le> x \<and> x < ?e then src ! (x - unat off) else content s i x)" if "x div BSIZE < MAXFILE" for x
    using w that by (simp add: wrote_def)
  show "file_ok t i" using rs(1) ok1 s1(6) by simp
  show r: "r = int (length src)" "unat (off + of_nat (length src)) = ?e" "?e \<le> MAXFILE * BSIZE" by fact+
  show ty: "itype (icache t i) = itype (icache s i) \<and> ref (icache t i) = ref (icache s i)" using s1(6) e(5,6) rs(4) by simp
  show sz: "isize (icache t i) = max (isize (icache s i)) ?e" using s1(3,6) e(4) rs(4) by (auto simp: max_def)
  show "content t i x = (if unat off \<le> x \<and> x < ?e then src ! (x - unat off) else content s i x)" if "x div BSIZE < MAXFILE"
    using c1 [OF that] rs(3) [OF that] s1(6) by simp
  have sl: "slot t i p = slot s1 i p" for p using s1(6) rs(2) by simp
  have "x div BSIZE < MAXFILE \<and> slot s1 i (x div BSIZE) \<noteq> 0" if "x < max (isize (icache s i)) ?e" for x
  proof (cases "unat off \<le> x \<and> x < ?e")
    case True
    then show ?thesis using w by (simp add: wrote_def)
  next
    case False
    then have "x < isize (icache s i)" using that s1(3) by auto
    then have "x div BSIZE < MAXFILE" "slot s i (x div BSIZE) \<noteq> 0" using d by (simp_all add: dense_def)
    then show ?thesis using ex by (auto simp: extends_def Let_def)
  qed
  then show "dense t i" by (simp add: dense_def sz sl)
  have fr: "frame i s s1" using ex by (auto simp: frame_def extends_def Let_def reserved_def)
  have "reserved (sbs s ?v) (IBLOCK (inum (icache s i)) (sbs s ?v))" using file_okD(2) [OF ok] by (auto simp: reserved_def inode_block_def)
  then have "blk (iupdate i (upd_inode i (\<lambda>ip. ip\<lparr>isize := ?e\<rparr>) s1)) w d = blk s1 w d"
    if "\<not> reserved (sbs s ?v) d \<or> w \<noteq> ?v" for w d
    using rs(6) [of d w] e(1,2,3) that by auto
  then have "frame i s (iupdate i (upd_inode i (\<lambda>ip. ip\<lparr>isize := ?e\<rparr>) s1))"
    using fr rs(4,5) e(1,2) by (auto simp: frame_def Let_def)
  then show "frame i s t" using s1(6) fr by simp
qed

text \<open>
  Claim C34. What is written to a file is read back. A write of bytes that \<open>writei\<close> accepts returns their number;
  reading as many bytes at the same place then returns them and changes nothing; every other byte of the
  file is as before, whether the blocks were there or had to be allocated, directly or through the
  indirect block. The file keeps its blocks apart from each other, from the free map and from the inodes, and no
  file that shares no block with it changes.
\<close>

theorem writei_readi:
  assumes "file_ok s i" "dense s i" "itype (icache s i) \<noteq> T_DEV" "length src < 2 ^ 32" "writei dsw i src off s = Ret (r, t)" "0 \<le> r"
  shows "r = int (length src) \<and> readi dsw i off (of_nat (length src)) t = Ret (r, src, t) \<and>
    file_ok t i \<and> dense t i \<and> isize (icache t i) = max (isize (icache s i)) (unat off + length src) \<and>
    (\<forall>x<MAXFILE * BSIZE. \<not> (unat off \<le> x \<and> x < unat off + length src) \<longrightarrow> content t i x = content s i x) \<and>
    (\<forall>j x. j \<noteq> i \<and> file_ok s j \<and> (\<forall>b. owns s i b \<longrightarrow> \<not> owns s j b) \<and> x < MAXFILE * BSIZE \<longrightarrow> content t j x = content s j x)"
proof -
  note w = writei_spec [OF assms]
  have div: "x div BSIZE < MAXFILE" if "x < MAXFILE * BSIZE" for x using that by (simp add: less_mult_imp_div_less)
  have rl: "readi_loop i (unat off) (length src) t = Ret (map (content t i) [unat off..<unat off + length src], t)"
    using w(2,6) by (intro readi_loop_spec) (simp add: dense_def)
  have "map (content t i) [unat off..<unat off + length src] = src"
    using w(2,6,7) by (intro nth_equalityI) (simp_all add: dense_def)
  moreover have "off \<le> off + of_nat (length src)" using w(8) of_nat_block [OF assms(4)] by (metis unat_plus_simple)
  moreover have "sint (of_nat (length src) :: u32) = int (length src)" using w(9) by (intro sint_small) (simp add: layout)
  ultimately have "readi dsw i off (of_nat (length src)) t = Ret (r, src, t)"
    using rl w(4,5,6,8) assms(3) of_nat_block [OF assms(4)] by (simp add: readi_def Let_def)
  moreover have "content t j x = content s j x" if "j \<noteq> i" "file_ok s j" "\<forall>b. owns s i b \<longrightarrow> \<not> owns s j b" "x < MAXFILE * BSIZE" for j x
    using frame_content [OF w(3) that(1,2)] div that by blast
  ultimately show ?thesis using w(1,2,4,6,7) div by auto
qed

text \<open>A disk of eight blocks, all in use, with a file of one byte in block 5.\<close>

definition no_device :: devsw where "no_device = \<lparr>dev_read = None, dev_write = None\<rparr>"

definition tiny_fs :: nfs where
  "tiny_fs = \<lparr>blk = (\<lambda>v b x. if b = 3 then 0xFF else 0),
     sbs = (\<lambda>_. \<lparr>fs_size = 8, fs_nblocks = 4, fs_nlog = 0, fs_logstart = 2, fs_inodestart = 2, fs_bmapstart = 3, fs_ninodes = 16\<rparr>),
     root_ip = (\<lambda>_. 0), devref = (\<lambda>_. 1),
     icache = (\<lambda>_. \<lparr>addrs = 5 # replicate 12 0, isb = 0, inum = 1, ref = 1, valid = True, itype = T_FILE, imajor = 0, iminor = 0,
       nlink = 1, isize = 1\<rparr>)\<rparr>"

lemma tiny_slot: "p \<le> MAXFILE \<Longrightarrow> slot tiny_fs i p = (if p = 0 then 5 else 0)"
  by (auto simp: slot_def tiny_fs_def Let_def layout nth_Cons split: nat.split)

lemma tiny_used: "d < 8 \<Longrightarrow> used tiny_fs v d"
proof -
  assume "d < 8"
  then have "d \<in> {0, 1, 2, 3, 4, 5, 6, 7}" by auto
  then show ?thesis by (auto simp: used_def bit_clear_def bmask_def tiny_fs_def BBLOCK_def layout)
qed

lemma tiny_reserved: "reserved (sbs tiny_fs v) d \<longleftrightarrow> d = 0 \<or> d = 2 \<or> d = 3"
  by (auto simp: reserved_def map_block_def inode_block_def BBLOCK_def IBLOCK_def tiny_fs_def layout intro: exI [of _ 0])

lemma tiny_file_ok: "file_ok tiny_fs i"
proof -
  have o: "owns tiny_fs i b \<longleftrightarrow> b = 5" for b using tiny_slot [of _ i] by (auto simp: owns_def split: if_splits)
  have "map_block (sbs tiny_fs v) b \<Longrightarrow> \<not> inode_block (sbs tiny_fs v) b" for v b
    by (auto simp: map_block_def inode_block_def BBLOCK_def IBLOCK_def tiny_fs_def layout)
  then have "sb_ok tiny_fs v" for v using tiny_reserved tiny_used by (auto simp: sb_ok_def) (simp_all add: tiny_fs_def)
  then show ?thesis using o tiny_slot [of _ i] tiny_used [of 5] tiny_reserved [of 0 5]
    by (auto simp: file_ok_def Let_def) (simp_all add: tiny_fs_def layout)
qed

theorem writei_readi_witness:
  "\<exists>t. writei (\<lambda>_. no_device) 0 [7] 0 tiny_fs = Ret (1, t) \<and> readi (\<lambda>_. no_device) 0 0 1 t = Ret (1, [7], t)"
proof -
  let ?d = "\<lambda>_. no_device"
  have d: "dense tiny_fs 0" using tiny_slot [of 0 0] by (simp add: dense_def) (simp add: tiny_fs_def layout)
  have b: "bmap 0 0 tiny_fs = Ret (5, tiny_fs)" using bmap_present [of 0 tiny_fs 0] tiny_slot [of 0 0] by (simp add: layout)
  have ty: "itype (icache tiny_fs 0) \<noteq> T_DEV" "isize (icache tiny_fs 0) = 1" by (simp_all add: tiny_fs_def T_FILE_def T_DEV_def)
  have l: "\<exists>t. writei_loop 0 0 [7] tiny_fs = Ret t"
    using b by (simp add: writei_loop.simps [of 0 0 "[7]"] writei_loop.simps [of _ _ "[]"] Let_def layout)
  then obtain t where "writei_loop 0 0 [7] tiny_fs = Ret t" by blast
  then have "\<exists>t. writei ?d 0 [7] 0 tiny_fs = Ret (1, t)" using ty by (simp add: writei_def Let_def layout)
  then obtain t where w: "writei ?d 0 [7] 0 tiny_fs = Ret (1, t)" by blast
  from writei_readi [OF tiny_file_ok d ty(1) _ w] show ?thesis using w by auto
qed

section \<open>Inodes on disk\<close>

lemma store_addrs_outside: "x < a \<or> a + 4 * length ws \<le> x \<Longrightarrow> store_addrs m a ws x = m x"
  by (induction m a ws rule: store_addrs.induct) auto

lemma load_store_addrs: "k < length ws \<Longrightarrow> load32 (store_addrs m a ws) (a + 4 * k) = ws ! k"
proof (induction m a ws arbitrary: k rule: store_addrs.induct)
  case (2 m a w ws)
  show ?case
  proof (cases k)
    case 0
    have "load32 (store_addrs (store32 m a w) (a + 4) ws) a = load32 (store32 m a w) a"
      by (rule load32_cong) (simp add: store_addrs_outside)
    then show ?thesis using 0 by simp
  next
    case (Suc j)
    then show ?thesis using "2.IH" [of j] "2.prems" by (simp add: add.assoc)
  qed
qed simp

lemma get_put_dinode:
  assumes "length (addrs ip) = NDIRECT + 1" "isize ip < 2 ^ 32" "inum jp = inum ip"
  shows "get_dinode (put_dinode ip m) jp =
    jp\<lparr>itype := itype ip, imajor := imajor ip, iminor := iminor ip, nlink := nlink ip, isize := isize ip, addrs := addrs ip\<rparr>"
proof -
  let ?o = "dinode_at (inum ip)"
  let ?m = "store32 (store16 (store16 (store16 (store16 m ?o (itype ip)) (?o + 2) (imajor ip)) (?o + 4) (iminor ip)) (?o + 6) (nlink ip)) (?o + 8) (of_nat (isize ip))"
  have p: "put_dinode ip m = store_addrs ?m (?o + 12) (addrs ip)" by (simp add: put_dinode_def Let_def)
  have low: "put_dinode ip m x = ?m x" if "x < ?o + 12" for x unfolding p using that by (simp add: store_addrs_outside)
  have h: "load16 (put_dinode ip m) a = load16 ?m a" if "a + 2 \<le> ?o + 12" for a using that low by (intro load16_cong) simp_all
  have "load16 ?m ?o = itype ip" "load16 ?m (?o + 2) = imajor ip" "load16 ?m (?o + 4) = iminor ip" "load16 ?m (?o + 6) = nlink ip"
    by (simp_all add: load16_store16_other load16_store32_other)
  then have f: "load16 (put_dinode ip m) ?o = itype ip" "load16 (put_dinode ip m) (?o + 2) = imajor ip"
    "load16 (put_dinode ip m) (?o + 4) = iminor ip" "load16 (put_dinode ip m) (?o + 6) = nlink ip" using h by simp_all
  have "load32 (put_dinode ip m) (?o + 8) = load32 ?m (?o + 8)" using low by (intro load32_cong) simp
  then have sz: "unat (load32 (put_dinode ip m) (?o + 8)) = isize ip" using of_nat_block [OF assms(2)] by simp
  have "map (\<lambda>k. load32 (put_dinode ip m) (?o + 12 + 4 * k)) [0..<NDIRECT + 1] = map ((!) (addrs ip)) [0..<length (addrs ip)]"
    unfolding p assms(1) by (intro map_cong refl load_store_addrs) (auto simp: assms(1))
  then have "map (\<lambda>k. load32 (put_dinode ip m) (?o + 12 + 4 * k)) [0..<NDIRECT + 1] = addrs ip" unfolding map_nth .
  then show ?thesis using f sz assms(3) by (simp add: get_dinode_def Let_def)
qed

text \<open>
  Claim C36. An inode survives its trip to the disk: when \<open>iupdate\<close> has written it and its cache entry was
  recycled in the meantime, \<open>ilock\<close> on an entry for the same inode number reads back the type, the device numbers, the link
  count, the size and all block addresses.
\<close>

theorem iupdate_ilock:
  assumes "length (addrs (icache s i)) = NDIRECT + 1" "isize (icache s i) < 2 ^ 32" "itype (icache s i) \<noteq> 0"
    and "blk t = blk (iupdate i s)" "sbs t = sbs s"
    and "\<not> valid (icache t j)" "1 \<le> ref (icache t j)" "isb (icache t j) = isb (icache s i)" "inum (icache t j) = inum (icache s i)"
  shows "ilock j t = Ret (upd_inode j (\<lambda>ip. (icache s i)\<lparr>ref := ref ip, valid := True\<rparr>) t)"
proof -
  let ?ip = "icache s i" and ?v = "isb (icache s i)"
  have "blk t ?v (IBLOCK (inum ?ip) (sbs s ?v)) = put_dinode ?ip (blk s ?v (IBLOCK (inum ?ip) (sbs s ?v)))"
    unfolding assms(4) by (simp add: iupdate_def Let_def upd_blk_def)
  then have g: "get_dinode (blk t ?v (IBLOCK (inum ?ip) (sbs s ?v))) (icache t j) =
      (icache t j)\<lparr>itype := itype ?ip, imajor := imajor ?ip, iminor := iminor ?ip, nlink := nlink ?ip, isize := isize ?ip, addrs := addrs ?ip\<rparr>"
    using get_put_dinode [OF assms(1,2,9)] by simp
  have e: "(icache t j)\<lparr>itype := itype ?ip, imajor := imajor ?ip, iminor := iminor ?ip, nlink := nlink ?ip, isize := isize ?ip,
      addrs := addrs ?ip, valid := True\<rparr> = ?ip\<lparr>ref := ref (icache t j), valid := True\<rparr>"
    using assms(8,9) by (cases ?ip; cases "icache t j") simp
  have "ilock j t = Ret (upd_inode j (\<lambda>_. (icache t j)\<lparr>itype := itype ?ip, imajor := imajor ?ip, iminor := iminor ?ip,
      nlink := nlink ?ip, isize := isize ?ip, addrs := addrs ?ip, valid := True\<rparr>) t)"
    using assms(3,5-9) g by (simp add: ilock_def Let_def)
  then show ?thesis unfolding e by (simp add: upd_inode_def)
qed

theorem iupdate_ilock_witness:
  "ilock 1 (upd_inode 1 (\<lambda>ip. ip\<lparr>valid := False, addrs := []\<rparr>) (iupdate 0 tiny_fs)) =
     Ret (upd_inode 1 (\<lambda>ip. (icache tiny_fs 0)\<lparr>ref := ref ip, valid := True\<rparr>) (upd_inode 1 (\<lambda>ip. ip\<lparr>valid := False, addrs := []\<rparr>) (iupdate 0 tiny_fs)))"
  by (rule iupdate_ilock) (simp_all add: tiny_fs_def upd_inode_def iupdate_def upd_blk_def Let_def NDIRECT_def T_FILE_def)

text \<open>
  Claim C37. \<open>iget\<close> can run past the inode cache: when all \<open>NINODE\<close> entries are in use and the inode is not among them, it tests the \<open>ref\<close> of the memory
  behind the array, and where that happens to be zero takes it for a free entry instead of panicking.
\<close>

theorem iget_overruns:
  assumes "\<forall>i<NINODE. 0 < ref (icache s i)" "\<forall>i<NINODE. isb (icache s i) \<noteq> v \<or> inum (icache s i) \<noteq> n"
    and "ref (icache s NINODE) = 0" "0 < devref s v"
  shows "\<exists>t. iget v n s = Ret (NINODE, t) \<and> inum (icache t NINODE) = n \<and> ref (icache t NINODE) = 1"
proof -
  have "first_slot (\<lambda>i. 0 < ref (icache s i) \<and> isb (icache s i) = v \<and> inum (icache s i) = n) NINODE = None"
    "first_slot (\<lambda>i. ref (icache s i) = 0) NINODE = None"
    using assms(1,2) by (auto simp: first_slot_None)
  then show ?thesis using assms(3,4) by (simp add: iget_def iget_slot_def deviceget_def upd_inode_def)
qed

theorem iget_overruns_witness:
  "\<exists>t. iget 0 9 (upd_inode NINODE (\<lambda>ip. ip\<lparr>ref := 0\<rparr>) tiny_fs) = Ret (NINODE, t) \<and> inum (icache t NINODE) = 9 \<and> ref (icache t NINODE) = 1"
  by (rule iget_overruns) (simp_all add: upd_inode_def tiny_fs_def)

end
