(* ===== verification/Native_Dir.thy ===== *)
theory Native_Dir
  imports Native_Fs
begin

text \<open>
  The directories of \<open>kernel/fs/native_fs.c\<close>: files whose contents are entries that pair a name with an inode number.
  The routines read and write them with \<open>readi\<close> and \<open>writei\<close>; the theorems show that a directory is a map.
\<close>

section \<open>Entries\<close>

text \<open>No routine above changes the size or the type of an inode while it reads.\<close>

lemma bmap_slot_inode: "bmap_slot i k s = Ret (b, t) \<Longrightarrow> isize (icache t j) = isize (icache s j) \<and> itype (icache t j) = itype (icache s j)"
  by (auto simp: bmap_slot_def Let_def bindO_Ret_iff upd_inode_def dest!: balloc_taken split: if_splits)

lemma bmap_inode: "bmap i bn s = Ret (b, t) \<Longrightarrow> isize (icache t j) = isize (icache s j) \<and> itype (icache t j) = itype (icache s j)"
  by (fastforce simp: bmap_def Let_def bindO_Ret_iff upd_blk_def dest!: balloc_taken bmap_slot_inode [where j = j] split: if_splits)

lemma readi_loop_inode: "readi_loop i off n s = Ret (bs, t) \<Longrightarrow> isize (icache t j) = isize (icache s j)"
proof (induction i off n s arbitrary: bs t rule: readi_loop.induct)
  case (1 i off n s)
  from "1.prems" show ?case
  proof (subst (asm) readi_loop.simps, clarsimp simp: bindO_Ret_iff Let_def split: if_splits)
    fix b s1 bs1
    assume a: "bmap i (off div BSIZE) s = Ret (b, s1)" "0 < n"
      "readi_loop i (off + min n (BSIZE - off mod BSIZE)) (n - min n (BSIZE - off mod BSIZE)) s1 = Ret (bs1, t)"
    then show "isize (icache t j) = isize (icache s j)"
      using "1.IH" [OF _ refl refl a(3)] bmap_inode [OF a(1)] by simp
  qed
qed

lemma readi_inode: "readi dsw i off n s = Ret (r, bs, t) \<Longrightarrow> isize (icache t j) = isize (icache s j)"
  by (auto simp: readi_def Let_def bindO_Ret_iff split: if_splits option.splits prod.splits dest: readi_loop_inode [where j = j])

lemma readi_own: "readi dsw i off n s = Ret (r, bs, t) \<Longrightarrow> isize (icache t i) = isize (icache s i)"
  by (rule readi_inode)

text \<open>
  A directory entry is 16 bytes: the inode number and a name of \<open>DIRSIZ\<close> bytes, padded with zeros and not terminated when it
  fills them. The pages of the vectors the routines read through are not part of the model.
\<close>

definition de_inum :: "u8 list \<Rightarrow> u16" where "de_inum de = load16 (\<lambda>k. de ! k) 0"
definition de_name :: "u8 list \<Rightarrow> u8 list" where "de_name de = drop 2 de"

definition dirent :: "u16 \<Rightarrow> u8 list \<Rightarrow> u8 list" where
  "dirent n name = [ucast n, ucast (drop_bit 8 n)] @ name"

function isdirempty_loop :: "(nat \<Rightarrow> devsw) \<Rightarrow> nat \<Rightarrow> nat \<Rightarrow> nfs \<Rightarrow> (bool \<times> nfs) outcome" where
  "isdirempty_loop dsw i off s =
    (if off < isize (icache s i) then
       (case readi dsw i (of_nat off) 16 s of
          Panic msg \<Rightarrow> Panic msg
        | Ret (r, de, s) \<Rightarrow>
            if r \<noteq> 16 then Panic ''isdirempty: readi''
            else if de_inum de \<noteq> 0 then Ret (False, s)
            else isdirempty_loop dsw i (off + 16) s)
     else Ret (True, s))"
  by auto
termination by (relation "measure (\<lambda>(dsw, i, off, s). isize (icache s i) - off)") (auto dest!: readi_own)

definition isdirempty :: "(nat \<Rightarrow> devsw) \<Rightarrow> nat \<Rightarrow> nfs \<Rightarrow> (bool \<times> nfs) outcome" where
  "isdirempty dsw i s = isdirempty_loop dsw i 32 s"

text \<open>\<open>vfs_namecmp\<close>; reading past the end of a name is a fault.\<close>

definition vfs_namecmp :: "u8 list \<Rightarrow> u8 list \<Rightarrow> int outcome" where
  "vfs_namecmp p q = (case strncmp p q DIRSIZ of None \<Rightarrow> Panic ''fault'' | Some r \<Rightarrow> Ret r)"

function dirlookup_loop :: "(nat \<Rightarrow> devsw) \<Rightarrow> nat \<Rightarrow> u8 list \<Rightarrow> nat \<Rightarrow> nfs \<Rightarrow> ((nat \<times> nat) option \<times> nfs) outcome" where
  "dirlookup_loop dsw i name off s =
    (if off < isize (icache s i) then
       (case readi dsw i (of_nat off) 16 s of
          Panic msg \<Rightarrow> Panic msg
        | Ret (r, de, s) \<Rightarrow>
            if r \<noteq> 16 then Panic ''dirlookup read''
            else if de_inum de = 0 then dirlookup_loop dsw i name (off + 16) s
            else (case vfs_namecmp name (de_name de) of
                    Panic msg \<Rightarrow> Panic msg
                  | Ret c \<Rightarrow> if c = 0 then Ret (Some (off, unat (de_inum de)), s) else dirlookup_loop dsw i name (off + 16) s))
     else Ret (None, s))"
  by auto
termination by (relation "measure (\<lambda>(dsw, i, name, off, s). isize (icache s i) - off)") (auto dest!: readi_own)

definition dirlookup :: "(nat \<Rightarrow> devsw) \<Rightarrow> nat \<Rightarrow> u8 list \<Rightarrow> nfs \<Rightarrow> ((nat \<times> nat) option \<times> nfs) outcome" where
  "dirlookup dsw i name s =
    (if itype (icache s i) \<noteq> T_DIR then Panic ''dirlookup not DIR''
     else bindO (dirlookup_loop dsw i name 0 s) (\<lambda>(found, s).
       case found of
         None \<Rightarrow> Ret (None, s)
       | Some (off, n) \<Rightarrow> bindO (iget (isb (icache s i)) n s) (\<lambda>(j, s). Ret (Some (off, j), s))))"

function empty_dirent :: "(nat \<Rightarrow> devsw) \<Rightarrow> nat \<Rightarrow> nat \<Rightarrow> nfs \<Rightarrow> (nat \<times> nfs) outcome" where
  "empty_dirent dsw i off s =
    (if off < isize (icache s i) then
       (case readi dsw i (of_nat off) 16 s of
          Panic msg \<Rightarrow> Panic msg
        | Ret (r, de, s) \<Rightarrow>
            if r \<noteq> 16 then Panic ''dirlink read''
            else if de_inum de = 0 then Ret (off, s)
            else empty_dirent dsw i (off + 16) s)
     else Ret (off, s))"
  by auto
termination by (relation "measure (\<lambda>(dsw, i, off, s). isize (icache s i) - off)") (auto dest!: readi_own)

text \<open>\<open>strncpy\<close> writes all of \<open>de.name\<close>, so what was there before does not matter.\<close>

definition dirlink :: "(nat \<Rightarrow> devsw) \<Rightarrow> nat \<Rightarrow> u8 list \<Rightarrow> nat \<Rightarrow> nfs \<Rightarrow> (int \<times> nfs) outcome" where
  "dirlink dsw i name n s =
    bindO (dirlookup dsw i name s) (\<lambda>(found, s).
    case found of
      Some (_, j) \<Rightarrow> bindO (native_iput j s) (\<lambda>s. Ret (- 1, s))
    | None \<Rightarrow>
        bindO (empty_dirent dsw i 0 s) (\<lambda>(off, s).
        case strncpy (replicate DIRSIZ 0) name (int DIRSIZ) of
          None \<Rightarrow> Panic ''fault''
        | Some nm \<Rightarrow>
            bindO (writei dsw i (dirent (of_nat n) nm) (of_nat off) s) (\<lambda>(r, s).
            if r \<noteq> 16 then Panic ''dirlink'' else Ret (0, s))))"

declare isdirempty_loop.simps [simp del] dirlookup_loop.simps [simp del] empty_dirent.simps [simp del]

text \<open>A directory as its users see it: the name of each entry in use leads to an inode number.\<close>

definition dirent_at :: "nfs \<Rightarrow> nat \<Rightarrow> nat \<Rightarrow> u8 list" where
  "dirent_at s i k = map (content s i) [16 * k..<16 * k + 16]"

definition dirents :: "nfs \<Rightarrow> nat \<Rightarrow> u8 list list" where
  "dirents s i = map (dirent_at s i) [0..<isize (icache s i) div 16]"

definition cname :: "u8 list \<Rightarrow> u8 list" where "cname name = take DIRSIZ (str_of name)"

definition matches :: "u8 list \<Rightarrow> u8 list \<Rightarrow> bool" where
  "matches nm de = (de_inum de \<noteq> 0 \<and> cname (de_name de) = nm)"

definition dir_map :: "nfs \<Rightarrow> nat \<Rightarrow> u8 list \<Rightarrow> nat option" where
  "dir_map s i nm = map_option (\<lambda>de. unat (de_inum de)) (find (matches nm) (dirents s i))"

definition dir_ok :: "nfs \<Rightarrow> nat \<Rightarrow> bool" where
  "dir_ok s i = (file_ok s i \<and> dense s i \<and> itype (icache s i) = T_DIR \<and> 16 dvd isize (icache s i) \<and> 0 < ref (icache s i))"

definition name_ok :: "u8 list \<Rightarrow> bool" where
  "name_ok name = (terminated name \<or> DIRSIZ \<le> length name)"

lemma dense_bound: "dense s i \<Longrightarrow> isize (icache s i) \<le> MAXFILE * BSIZE"
proof (rule ccontr)
  assume d: "dense s i" "\<not> isize (icache s i) \<le> MAXFILE * BSIZE"
  then have "(MAXFILE * BSIZE) div BSIZE < MAXFILE" unfolding dense_def not_le by blast
  then show False by (simp add: layout)
qed

lemma strncmp_name:
  "terminated p \<or> n \<le> length p \<Longrightarrow> terminated q \<or> n \<le> length q \<Longrightarrow>
   \<exists>r. strncmp p q n = Some r \<and> (r = 0 \<longleftrightarrow> take n (str_of p) = take n (str_of q))"
  by (induction p q n rule: strncmp.induct) (auto simp: str_of_def)

lemma vfs_namecmp_eq:
  assumes "name_ok p" "name_ok q"
  obtains r where "vfs_namecmp p q = Ret r" "r = 0 \<longleftrightarrow> cname p = cname q"
  using strncmp_name [of p DIRSIZ q] assms by (auto simp: name_ok_def vfs_namecmp_def cname_def)

lemma length_dirent_at [simp]: "length (dirent_at s i k) = 16"
  by (simp add: dirent_at_def)

lemma dirent_name_ok: "name_ok (de_name (dirent_at s i k))"
  by (simp add: name_ok_def de_name_def DIRSIZ_def)

lemma readi_dirent:
  assumes "dir_ok s i" "k < isize (icache s i) div 16"
  shows "readi dsw i (of_nat (16 * k)) 16 s = Ret (16, dirent_at s i k, s)"
proof -
  have sz: "16 * k + 16 \<le> isize (icache s i)" "isize (icache s i) < 2 ^ 31" "itype (icache s i) \<noteq> T_DEV"
    using assms dense_bound [of s i] by (auto simp: dir_ok_def layout T_DIR_def T_DEV_def)
  have o: "unat (of_nat (16 * k) :: u32) = 16 * k" "unat (of_nat (16 * k) + 16 :: u32) = 16 * k + 16"
    using sz(1,2) of_nat_block [of "16 * k"] of_nat_block [of "16 * k + 16"] by simp_all
  have "readi_loop i (16 * k) 16 s = Ret (dirent_at s i k, s)"
    unfolding dirent_at_def using assms(1) sz(1) by (intro readi_loop_spec) (simp add: dir_ok_def dense_def)
  moreover have "\<not> of_nat (16 * k) + 16 < (of_nat (16 * k) :: u32)" using o by (simp add: word_less_nat_alt)
  ultimately show ?thesis using sz o sint_small [of 16] by (simp add: readi_def Let_def)
qed

lemma dirlookup_loop_spec:
  assumes "dir_ok s i" "name_ok name"
  shows "dirlookup_loop dsw i name (16 * k) s =
    Ret (map_option (\<lambda>k. (16 * k, unat (de_inum (dirent_at s i k)))) (find (\<lambda>k. matches (cname name) (dirent_at s i k)) [k..<isize (icache s i) div 16]), s)"
proof (induction "isize (icache s i) div 16 - k" arbitrary: k)
  case 0
  then have "\<not> 16 * k < isize (icache s i)" using assms(1) by (auto simp: dir_ok_def)
  then show ?case using 0 by (simp add: dirlookup_loop.simps)
next
  case (Suc n)
  then have k: "k < isize (icache s i) div 16" "16 * k < isize (icache s i)" by auto
  note r = readi_dirent [OF assms(1) k(1), of dsw, simplified]
  have u: "[k..<isize (icache s i) div 16] = k # [Suc k..<isize (icache s i) div 16]" using k(1) by (rule upt_conv_Cons)
  let ?d = "dirent_at s i k"
  obtain c where c: "vfs_namecmp name (de_name ?d) = Ret c" "c = 0 \<longleftrightarrow> cname (de_name ?d) = cname name"
    using vfs_namecmp_eq [OF assms(2) dirent_name_ok, of s i k] by metis
  have step: "dirlookup_loop dsw i name (16 * k) s =
    (if de_inum ?d = 0 \<or> c \<noteq> 0 then dirlookup_loop dsw i name (16 + 16 * k) s else Ret (Some (16 * k, unat (de_inum ?d)), s))"
    by (subst dirlookup_loop.simps) (simp add: k(2) r c(1) add.commute)
  have IH: "dirlookup_loop dsw i name (16 + 16 * k) s =
    Ret (map_option (\<lambda>k. (16 * k, unat (de_inum (dirent_at s i k)))) (find (\<lambda>k. matches (cname name) (dirent_at s i k)) [Suc k..<isize (icache s i) div 16]), s)"
    using Suc(1) [of "Suc k"] Suc(2) by simp
  show ?case unfolding u step IH using c(2) by (simp add: matches_def)
qed

lemma find_dirents:
  "map_option (\<lambda>k. unat (de_inum (dirent_at s i k))) (find (\<lambda>k. matches nm (dirent_at s i k)) [0..<isize (icache s i) div 16]) = dir_map s i nm"
  by (simp add: dir_map_def dirents_def find_map option.map_comp comp_def)

lemma empty_dirent_spec:
  assumes "dir_ok s i" "16 * k \<le> isize (icache s i)"
  obtains k' where "empty_dirent dsw i (16 * k) s = Ret (16 * k', s)" "k \<le> k'" "16 * k' \<le> isize (icache s i)"
    "k' < isize (icache s i) div 16 \<Longrightarrow> de_inum (dirent_at s i k') = 0"
proof -
  have "\<exists>k'\<ge>k. empty_dirent dsw i (16 * k) s = Ret (16 * k', s) \<and> 16 * k' \<le> isize (icache s i) \<and>
      (k' < isize (icache s i) div 16 \<longrightarrow> de_inum (dirent_at s i k') = 0)"
    using assms(2)
  proof (induction "isize (icache s i) div 16 - k" arbitrary: k)
    case 0
    then have "\<not> 16 * k < isize (icache s i)" using assms(1) by (auto simp: dir_ok_def)
    then show ?case using 0 by (intro exI [of _ k]) (auto simp: empty_dirent.simps)
  next
    case (Suc n)
    then have k: "k < isize (icache s i) div 16" "16 * k < isize (icache s i)" "16 * Suc k \<le> isize (icache s i)" by auto
    note r = readi_dirent [OF assms(1) k(1), of dsw, simplified]
    have step: "empty_dirent dsw i (16 * k) s =
      (if de_inum (dirent_at s i k) = 0 then Ret (16 * k, s) else empty_dirent dsw i (16 * Suc k) s)"
      by (subst empty_dirent.simps) (simp add: k(2) r add.commute)
    show ?case
    proof (cases "de_inum (dirent_at s i k) = 0")
      case True
      then show ?thesis using step k(2) by (intro exI [of _ k]) simp
    next
      case False
      have "n = isize (icache s i) div 16 - Suc k" using Suc(2) by simp
      from Suc(1) [OF this k(3)] obtain k' where "Suc k \<le> k'" "empty_dirent dsw i (16 * Suc k) s = Ret (16 * k', s)" "16 * k' \<le> isize (icache s i)"
        "k' < isize (icache s i) div 16 \<longrightarrow> de_inum (dirent_at s i k') = 0" by blast
      then show ?thesis using step False by (intro exI [of _ k']) simp
    qed
  qed
  with that show thesis by blast
qed

lemma de_inum_dirent [simp]: "de_inum (dirent n nm) = n"
proof -
  have "load16 (\<lambda>k. dirent n nm ! k) 0 = load16 (store16 (\<lambda>_. 0) 0 n) 0"
    by (rule load16_cong) (simp_all add: dirent_def store16_def)
  then show ?thesis by (simp add: de_inum_def)
qed

lemma de_name_dirent [simp]: "de_name (dirent n nm) = nm"
  by (simp add: de_name_def dirent_def)

lemma strncpy_loop_name:
  "n \<le> length s \<Longrightarrow> terminated t \<or> n \<le> length t \<Longrightarrow>
   strncpy_loop s t n = Some (take n (str_of t) @ replicate (n - length (str_of t)) 0 @ drop n s)"
  by (induction s t n rule: strncpy_loop.induct) (auto simp: zero_fill_eq str_of_def)

lemma str_of_padded: "str_of (take n (str_of t) @ replicate k 0) = take n (str_of t)"
proof -
  have z: "takeWhile (\<lambda>c. c \<noteq> 0) (replicate k 0) = ([] :: u8 list)" by (cases k) auto
  have "c \<noteq> 0" if "c \<in> set (take n (str_of t))" for c using in_set_takeD [OF that] by (auto simp: str_of_def dest: set_takeWhileD)
  then have "takeWhile (\<lambda>c. c \<noteq> 0) (take n (str_of t) @ replicate k 0) = take n (str_of t) @ takeWhile (\<lambda>c. c \<noteq> 0) (replicate k 0)"
    by (rule takeWhile_append2)
  then show ?thesis unfolding z str_of_def [of "_ @ _"] by simp
qed

lemma strncpy_name:
  assumes "name_ok name"
  obtains nm where "strncpy (replicate DIRSIZ 0) name (int DIRSIZ) = Some nm" "length nm = DIRSIZ" "cname nm = cname name"
proof -
  let ?nm = "take DIRSIZ (str_of name) @ replicate (DIRSIZ - length (str_of name)) 0"
  have "strncpy (replicate DIRSIZ 0) name (int DIRSIZ) = Some ?nm"
    using strncpy_loop_name [of DIRSIZ "replicate DIRSIZ 0" name] assms by (simp add: strncpy_def name_ok_def)
  then show thesis by (rule that) (simp_all add: cname_def str_of_padded)
qed

text \<open>What a write of one entry does to the directory.\<close>

lemma find_list_update: "k < length xs \<Longrightarrow> \<not> P (xs ! k) \<Longrightarrow> \<not> P y \<Longrightarrow> find P (xs[k := y]) = find P xs"
  by (induction xs arbitrary: k) (auto split: nat.split)

lemma find_list_update_new: "find P xs = None \<Longrightarrow> k < length xs \<Longrightarrow> P y \<Longrightarrow> find P (xs[k := y]) = Some y"
  by (induction xs arbitrary: k) (auto split: nat.split if_splits)

lemma find_append_one: "find P (xs @ [y]) = (case find P xs of Some x \<Rightarrow> Some x | None \<Rightarrow> if P y then Some y else None)"
  by (induction xs) auto

lemma dirlink_write:
  assumes ok: "dir_ok s i" and k: "16 * k \<le> isize (icache s i)" and nm: "length nm = DIRSIZ"
    and run: "writei dsw i (dirent n nm) (of_nat (16 * k)) s = Ret (16, t)"
  shows "dir_ok t i" "isize (icache t i) = max (isize (icache s i)) (16 * k + 16)" "dirent_at t i k = dirent n nm"
    "j < isize (icache s i) div 16 \<Longrightarrow> j \<noteq> k \<Longrightarrow> dirent_at t i j = dirent_at s i j"
proof -
  have l: "length (dirent n nm) = 16" using nm by (simp add: dirent_def DIRSIZ_def)
  have f: "file_ok s i" "dense s i" "itype (icache s i) \<noteq> T_DEV" "length (dirent n nm) < 2 ^ 32"
    using ok l by (auto simp: dir_ok_def T_DIR_def T_DEV_def)
  note w = writei_spec [OF f run]
  have o: "unat (of_nat (16 * k) :: u32) = 16 * k"
    using k dense_bound [OF f(2)] by (intro of_nat_block) (simp add: layout)
  show sz: "isize (icache t i) = max (isize (icache s i)) (16 * k + 16)" using w(6) l o by simp
  have "16 dvd isize (icache s i)" using ok by (simp add: dir_ok_def)
  then show "dir_ok t i" using w(1,2,5) ok sz by (auto simp: dir_ok_def max_def)
  have c: "content t i x = (if 16 * k \<le> x \<and> x < 16 * k + 16 then dirent n nm ! (x - 16 * k) else content s i x)" if "x < isize (icache t i)" for x
    using w(7) [of x] w(2) that l o by (simp add: dense_def)
  show "dirent_at t i k = dirent n nm"
    using c l sz by (intro nth_equalityI) (simp_all add: dirent_at_def)
  show "dirent_at t i j = dirent_at s i j" if "j < isize (icache s i) div 16" "j \<noteq> k"
  proof -
    have "16 * j + 16 \<le> isize (icache t i)" using that(1) sz by auto
    moreover have "16 * j + 16 \<le> 16 * k \<or> 16 * k + 16 \<le> 16 * j" using that(2) by auto
    ultimately show ?thesis using c by (auto simp: dirent_at_def)
  qed
qed

lemma dirlink_map:
  assumes ok: "dir_ok s i" and k: "16 * k \<le> isize (icache s i)" "k < isize (icache s i) div 16 \<Longrightarrow> de_inum (dirent_at s i k) = 0"
    and nm: "length nm = DIRSIZ" "n \<noteq> 0" and run: "writei dsw i (dirent n nm) (of_nat (16 * k)) s = Ret (16, t)"
    and new: "dir_map s i (cname nm) = None"
  shows "dir_map t i = (dir_map s i)(cname nm \<mapsto> unat n)"
proof
  fix x
  let ?l = "isize (icache s i) div 16" and ?y = "dirent n nm"
  note w = dirlink_write [OF ok k(1) nm(1) run]
  have m: "matches x ?y \<longleftrightarrow> cname nm = x" for x using nm(2) by (simp add: matches_def)
  have none: "find (matches (cname nm)) (dirents s i) = None" using new by (simp add: dir_map_def)
  have len: "length (dirents s i) = ?l" by (simp add: dirents_def)
  consider (old) "k < ?l" | (app) "k = ?l" using k(1) by linarith
  then show "dir_map t i x = ((dir_map s i)(cname nm \<mapsto> unat n)) x"
  proof cases
    case old
    have "isize (icache t i) = isize (icache s i)" using w(2) old by auto
    then have d: "dirents t i = (dirents s i)[k := ?y]"
      unfolding dirents_def using w(3,4) old by (intro iffD2 [OF list_eq_iff_nth_eq]) (auto simp: nth_list_update)
    have "\<not> matches x (dirents s i ! k)" using k(2) old by (simp add: matches_def dirents_def)
    then show ?thesis
      using find_list_update [of k "dirents s i" "matches x" ?y] find_list_update_new [OF none, of k ?y] old len m [of x] m [of "cname nm"]
      by (cases "x = cname nm") (auto simp: dir_map_def d)
  next
    case app
    then have "16 * k = isize (icache s i)" using ok by (auto simp: dir_ok_def)
    then have "isize (icache t i) div 16 = Suc ?l" using w(2) app by simp
    then have d: "dirents t i = dirents s i @ [?y]"
      using w(3,4) app by (simp add: dirents_def)
    show ?thesis using none m [of x] by (cases "x = cname nm") (auto simp: dir_map_def d find_append_one split: option.split)
  qed
qed

text \<open>
  Taking a reference with \<open>iget\<close> and dropping it again changes neither files nor directories: an inode that
  was cached has another reference, and a fresh entry is not valid, so \<open>iput\<close> does not truncate.
\<close>

lemma iget_iput:
  assumes "iget v n s = Ret (j, s1)" "native_iput j s1 = Ret t"
  shows "blk t = blk s \<and> sbs t = sbs s \<and> root_ip t = root_ip s \<and> devref t = devref s \<and>
    (\<forall>k. ref (icache t k) = ref (icache s k)) \<and> (\<forall>k. 0 < ref (icache s k) \<longrightarrow> icache t k = icache s k)"
proof (cases "first_slot (\<lambda>i. 0 < ref (icache s i) \<and> isb (icache s i) = v \<and> inum (icache s i) = n) NINODE")
  case (Some k)
  then have "0 < ref (icache s k)" using first_slot_Some by fastforce
  then show ?thesis using Some assms(1,2)
    by (auto simp: iget_def native_iput_def upd_inode_def Let_def deviceput_def split: if_splits)
next
  case None
  then obtain k where k: "iget_slot s = Some k" "j = k" "0 < devref s v"
    "s1 = upd_inode k (\<lambda>ip. ip\<lparr>isb := v, inum := n, ref := 1, valid := False\<rparr>) (s\<lparr>devref := (devref s)(v := devref s v + 1)\<rparr>)"
    using assms(1) by (auto simp: iget_def deviceget_def bindO_Ret_iff split: option.splits if_splits)
  have "ref (icache s k) = 0" using k(1) by (auto simp: iget_slot_def dest!: first_slot_Some split: option.splits if_splits)
  then show ?thesis using k(2,4) assms(2)
    by (auto simp: native_iput_def upd_inode_def Let_def deviceput_def split: if_splits)
qed

lemma dir_map_cong:
  assumes "blk t = blk s" "sbs t = sbs s" "icache t i = icache s i"
  shows "dir_map t i = dir_map s i"
proof -
  have "content t i = content s i" by (intro ext) (simp only: content_def slot_def assms)
  then have "dirent_at t i = dirent_at s i" by (intro ext) (simp add: dirent_at_def)
  then show ?thesis using assms(3) by (intro ext) (simp add: dir_map_def dirents_def)
qed

lemma dirlookup_loop_map:
  assumes "dir_ok s i" "name_ok name"
  obtains x where "dirlookup_loop dsw i name 0 s = Ret (x, s)" "map_option snd x = dir_map s i (cname name)"
  using dirlookup_loop_spec [OF assms, of dsw 0] find_dirents [of s i "cname name"] by (auto simp: option.map_comp comp_def)

text \<open>
  Claim C35. A directory is a map from names to inode numbers, where names count up to their first
  \<open>DIRSIZ\<close> bytes. The search of \<open>dirlookup\<close> finds what the map has. \<open>dirlink\<close> of a new name returns 0 and
  adds exactly that name to the map, in a free entry or at the end. For a name that is there already it
  returns -1, and no block of the disk, no reference count of an inode or of a device and no inode in use
  is changed: the reference that \<open>dirlookup\<close> took is given back. (The pages of the temporary vector are not part of
  the model; on this branch the code does not free them.)
\<close>

theorem dirlink_refines_map:
  assumes ok: "dir_ok s i" and name: "name_ok name" and n: "0 < n" "n < 2 ^ 16" and run: "dirlink dsw i name n s = Ret (r, t)"
  shows "(\<exists>x. dirlookup_loop dsw i name 0 s = Ret (x, s) \<and> map_option snd x = dir_map s i (cname name)) \<and>
    (if dir_map s i (cname name) = None
     then r = 0 \<and> dir_ok t i \<and> dir_map t i = (dir_map s i)(cname name \<mapsto> n)
     else r = - 1 \<and> dir_map t i = dir_map s i \<and> blk t = blk s \<and> sbs t = sbs s \<and> root_ip t = root_ip s \<and> devref t = devref s \<and>
       (\<forall>k. ref (icache t k) = ref (icache s k)) \<and> (\<forall>k. 0 < ref (icache s k) \<longrightarrow> icache t k = icache s k))"
proof -
  obtain x where x: "dirlookup_loop dsw i name 0 s = Ret (x, s)" "map_option snd x = dir_map s i (cname name)"
    using dirlookup_loop_map [OF ok name] .
  have ty: "itype (icache s i) = T_DIR" "0 < ref (icache s i)" using ok by (simp_all add: dir_ok_def)
  show ?thesis
  proof (cases x)
    case None
    obtain k where k: "empty_dirent dsw i 0 s = Ret (16 * k, s)" "16 * k \<le> isize (icache s i)"
      "k < isize (icache s i) div 16 \<Longrightarrow> de_inum (dirent_at s i k) = 0"
      using empty_dirent_spec [OF ok, of 0 dsw] by auto
    obtain nm where nm: "strncpy (replicate DIRSIZ 0) name (int DIRSIZ) = Some nm" "length nm = DIRSIZ" "cname nm = cname name"
      using strncpy_name [OF name] .
    have w: "writei dsw i (dirent (of_nat n) nm) (of_nat (16 * k)) s = Ret (16, t)" "r = 0"
      using run x(1) None ty k(1) nm(1) by (auto simp: dirlink_def dirlookup_def bindO_Ret_iff split: if_splits)
    have u: "unat (of_nat n :: u16) = n" using n(2) by (simp add: unsigned_of_nat take_bit_nat_eq_self)
    then have "(of_nat n :: u16) \<noteq> 0" using n(1) by auto
    from dirlink_map [OF ok k(2,3) nm(2) this w(1)] dirlink_write(1) [OF ok k(2) nm(2) w(1)]
    show ?thesis using x None nm(3) w(2) u by simp
  next
    case (Some p)
    then obtain j s1 where j: "iget (isb (icache s i)) (snd p) s = Ret (j, s1)" "native_iput j s1 = Ret t" "r = - 1"
      using run x(1) ty by (cases p) (auto simp: dirlink_def dirlookup_def bindO_Ret_iff)
    note kept = iget_iput [OF j(1,2)]
    have "dir_map t i = dir_map s i" using kept ty(2) by (intro dir_map_cong) auto
    then show ?thesis using x(1) x(2) [symmetric] Some j(3) kept by (cases p) auto
  qed
qed

text \<open>A directory on the small disk: the one-byte file is empty and a directory instead.\<close>

definition tiny_dir :: nfs where
  "tiny_dir = upd_inode 0 (\<lambda>ip. ip\<lparr>itype := T_DIR, isize := 16\<rparr>) tiny_fs"

lemma tiny_dir_slot: "slot tiny_dir 0 p = slot tiny_fs 0 p"
  by (simp add: slot_def tiny_dir_def upd_inode_def Let_def)

lemma tiny_dir_ok: "dir_ok tiny_dir 0"
proof -
  note s = tiny_dir_slot
  have f: "sbs tiny_dir = sbs tiny_fs" "blk tiny_dir = blk tiny_fs" "isb (icache tiny_dir 0) = isb (icache tiny_fs 0)"
    "inum (icache tiny_dir 0) = inum (icache tiny_fs 0)" "addrs (icache tiny_dir 0) = addrs (icache tiny_fs 0)"
    by (simp_all add: tiny_dir_def upd_inode_def)
  have u: "used tiny_dir = used tiny_fs" by (intro ext) (simp only: used_def f)
  have "sb_ok tiny_dir = sb_ok tiny_fs" by (intro ext) (simp only: sb_ok_def f u)
  moreover have "owns tiny_dir 0 = owns tiny_fs 0" by (intro ext) (simp only: owns_def s)
  ultimately have "file_ok tiny_dir 0" using tiny_file_ok [of 0] by (simp add: file_ok_def Let_def f s u)
  moreover have "x div BSIZE = 0" if "x < 16" for x using that by (simp add: layout)
  then have "dense tiny_dir 0" using tiny_slot [of 0 0] s
    by (simp add: dense_def) (simp add: tiny_dir_def upd_inode_def MAXFILE_def layout)
  ultimately show ?thesis by (simp add: dir_ok_def) (simp add: tiny_dir_def tiny_fs_def upd_inode_def)
qed

theorem dirlink_refines_map_witness:
  "\<exists>t. dirlink (\<lambda>_. no_device) 0 [97, 0] 7 tiny_dir = Ret (0, t) \<and> dir_map t 0 [97] = Some 7"
proof -
  let ?d = "\<lambda>_. no_device"
  have sz: "isize (icache tiny_dir 0) = 16" "itype (icache tiny_dir 0) = T_DIR" "isb (icache tiny_dir 0) = 0"
    by (simp_all add: tiny_dir_def upd_inode_def tiny_fs_def)
  have "slot tiny_dir 0 0 = 5" using tiny_slot [of 0 0] by (simp add: tiny_dir_slot)
  then have b: "bmap 0 0 tiny_dir = Ret (5, tiny_dir)" using bmap_present [of 0 tiny_dir 0] by (simp add: layout)
  have z: "dirent_at tiny_dir 0 0 = replicate 16 0"
  proof -
    have "content tiny_dir 0 x = 0" if "x < 16" for x
      using that \<open>slot tiny_dir 0 0 = 5\<close> by (simp add: content_def layout) (simp add: tiny_dir_def upd_inode_def tiny_fs_def)
    then show ?thesis unfolding dirent_at_def by (intro nth_equalityI) simp_all
  qed
  then have z0: "de_inum (dirent_at tiny_dir 0 0) = 0" by (simp add: de_inum_def load16_def)
  have name: "name_ok [97, 0]" "cname [97, 0 :: u8] = [97]" by (simp_all add: name_ok_def cname_def str_of_def DIRSIZ_def)
  have l: "dirlookup_loop ?d 0 [97, 0] 0 tiny_dir = Ret (None, tiny_dir)"
    using dirlookup_loop_spec [OF tiny_dir_ok name(1), of ?d 0] sz(1) z0 by (simp add: matches_def)
  obtain k where "empty_dirent ?d 0 0 tiny_dir = Ret (16 * k, tiny_dir)"
    using empty_dirent_spec [OF tiny_dir_ok, of 0 ?d] by auto
  then have e: "empty_dirent ?d 0 0 tiny_dir = Ret (0, tiny_dir)"
    using readi_dirent [OF tiny_dir_ok, of 0 ?d] sz(1) z0 by (subst empty_dirent.simps) simp
  obtain nm where nm: "strncpy (replicate DIRSIZ 0) [97, 0] (int DIRSIZ) = Some nm" "length nm = DIRSIZ" using strncpy_name [OF name(1)] .
  have ln: "length (dirent 7 nm) = 16" using nm(2) by (simp add: dirent_def DIRSIZ_def)
  then have ne: "dirent 7 nm \<noteq> []" by auto
  have "\<exists>t. writei_loop 0 0 (dirent 7 nm) tiny_dir = Ret t"
    using b ne ln by (subst writei_loop.simps) (simp add: Let_def layout writei_loop.simps [of _ _ "[]"])
  then have "\<exists>t. writei ?d 0 (dirent 7 nm) 0 tiny_dir = Ret (16, t)"
    using sz ln by (auto simp: writei_def Let_def layout T_DIR_def T_DEV_def)
  then obtain t where "dirlink ?d 0 [97, 0] 7 tiny_dir = Ret (0, t)"
    using l e nm(1) sz(2) by (auto simp: dirlink_def dirlookup_def)
  with dirlink_refines_map [OF tiny_dir_ok name(1) _ _ this] name(2) show ?thesis by (auto split: if_splits)
qed

end
