(* ===== verification/Cgroup_Account.thy ===== *)
theory Cgroup_Account
  imports Cgroup
begin

text \<open>
  The accounting of the control groups: in every state the routines of \<open>kernel/cgroup.c\<close> lead to, the
  counters of a group are those of its subtree, and every loop over the ancestors returns.
\<close>

section \<open>What the counters should be\<close>

text \<open>
  \<open>home s p\<close> is the group whose array holds process \<open>p\<close>, \<open>members s g\<close> the processes in the subtree
  of \<open>g\<close> and \<open>desc s g\<close> the groups strictly below it.
\<close>

definition home :: "cgtable \<Rightarrow> nat \<Rightarrow> nat option" where
  "home s p = (if \<exists>h i. cproc (cgroups s h) i = Some p then pcgroup s p else None)"

definition members :: "cgtable \<Rightarrow> nat \<Rightarrow> nat set" where
  "members s g = {p. p < NPROC \<and> (\<exists>h. home s p = Some h \<and> above s g h)}"

definition desc :: "cgtable \<Rightarrow> nat \<Rightarrow> nat set" where
  "desc s g = {h. live s h \<and> h \<noteq> g \<and> above s g h}"

definition slots_ok :: "cgtable \<Rightarrow> bool" where
  "slots_ok s =
    ((\<forall>g i p. cproc (cgroups s g) i = Some p \<longrightarrow> i < NPROC \<and> p < NPROC \<and> live s g \<and> pcgroup s p = Some g) \<and>
     (\<forall>g i j p. cproc (cgroups s g) i = Some p \<longrightarrow> cproc (cgroups s g) j = Some p \<longrightarrow> i = j) \<and>
     (\<forall>p g. pcgroup s p = Some g \<longrightarrow> live s g \<and> (g = 0 \<or> (\<exists>i. cproc (cgroups s g) i = Some p))))"

definition counts_ok :: "cgtable \<Rightarrow> bool" where
  "counts_ok s = (\<forall>g. live s g \<longrightarrow> num_of_procs (cgroups s g) = int (card (members s g)) \<and>
     current_mem (cgroups s g) = (\<Sum>p\<in>members s g. psz s p) \<and>
     unat (nr_descendants (cgroups s g)) = card (desc s g))"

definition cg_inv :: "cgtable \<Rightarrow> bool" where
  "cg_inv s = ((\<exists>r. cg_tree r s) \<and> slots_ok s \<and> counts_ok s)"

section \<open>Updates that keep the counters\<close>

text \<open>What the invariant reads of a group, and the updates that keep it.\<close>

definition core :: "nat \<Rightarrow> cgroup \<Rightarrow> bool \<times> (nat \<Rightarrow> nat option) \<times> int \<times> nat option \<times> u32 \<times> u32" where
  "core g c = (g = 0 \<or> cgroup_dir_path c \<noteq> [], cproc c, num_of_procs c, cparent c, nr_descendants c, current_mem c)"

definition keeps :: "cgtable \<Rightarrow> cgtable \<Rightarrow> bool" where
  "keeps s s' = (psz s' = psz s \<and> pcgroup s' = pcgroup s \<and> (\<forall>g. core g (cgroups s' g) = core g (cgroups s g)))"

lemma keeps_refl [simp]: "keeps s s"
  by (simp add: keeps_def)

lemma keeps_trans: "keeps s s' \<Longrightarrow> keeps s' s'' \<Longrightarrow> keeps s s''"
  by (simp add: keeps_def)

lemma keeps_upd_cg: "(\<And>c. core g (f c) = core g c) \<Longrightarrow> keeps s (upd_cg g f s)"
  by (simp add: keeps_def upd_cg_def)

lemma keeps_cmem [simp]: "keeps s (s\<lparr>cmem := k\<rparr>)"
  by (simp add: keeps_def)

lemma keepsD:
  assumes "keeps s s'"
  shows "live s' = live s" "above s' = above s" "home s' = home s" "members s' = members s" "desc s' = desc s"
    "cparent (cgroups s' g) = cparent (cgroups s g)" "cproc (cgroups s' g) = cproc (cgroups s g)"
    "num_of_procs (cgroups s' g) = num_of_procs (cgroups s g)" "nr_descendants (cgroups s' g) = nr_descendants (cgroups s g)"
    "current_mem (cgroups s' g) = current_mem (cgroups s g)" "psz s' = psz s" "pcgroup s' = pcgroup s"
proof -
  have c: "core g (cgroups s' g) = core g (cgroups s g)" for g using assms by (simp add: keeps_def)
  show f: "cparent (cgroups s' g) = cparent (cgroups s g)" "cproc (cgroups s' g) = cproc (cgroups s g)"
    "num_of_procs (cgroups s' g) = num_of_procs (cgroups s g)" "nr_descendants (cgroups s' g) = nr_descendants (cgroups s g)"
    "current_mem (cgroups s' g) = current_mem (cgroups s g)" for g
    using c [of g] by (simp_all add: core_def)
  show l: "live s' = live s" using c by (intro ext) (simp add: live_def core_def)
  show a: "above s' = above s" by (intro ext) (simp add: above_def f)
  show p: "psz s' = psz s" "pcgroup s' = pcgroup s" using assms by (simp_all add: keeps_def)
  show h: "home s' = home s" by (intro ext) (simp add: home_def f p)
  show "members s' = members s" by (intro ext) (simp add: members_def h a)
  show "desc s' = desc s" by (intro ext) (simp add: desc_def l a)
qed

lemma cg_inv_keeps: "keeps s s' \<Longrightarrow> cg_inv s' = cg_inv s"
  by (simp add: cg_inv_def cg_tree_def slots_ok_def counts_ok_def keepsD)

lemma keeps_set_protect_mem: "keeps s (snd (set_protect_mem g n s))"
  by (simp add: keeps_def core_def upd_cg_def set_protect_mem_def Let_def split: prod.split)

lemma keeps_set_min_mem: "keeps s (snd (set_min_mem cg n s))"
proof (cases cg)
  case (Some g)
  obtain r s1 where "set_protect_mem g (pages_of n) s = (r, s1)" by force
  moreover from this have "keeps s s1" using keeps_set_protect_mem [of s g "pages_of n"] by simp
  moreover have "keeps s1 (upd_cg g (\<lambda>c. c\<lparr>min_mem := n\<rparr>) s1)" by (rule keeps_upd_cg) (simp add: core_def)
  ultimately show ?thesis using Some by (auto simp: set_min_mem_def intro: keeps_trans)
qed (simp add: set_min_mem_def)

lemma keeps_setters:
  "keeps s (snd (set_max_mem cg m s))" "keeps s (snd (set_max_procs cg l s))" "keeps s (snd (set_cpu_id cg i s))"
  "keeps s (snd (frz_grp cg z s))"
  by (auto simp: set_max_mem_def set_max_procs_def set_cpu_id_def frz_grp_def core_def intro!: keeps_upd_cg split: option.split)

lemma keeps_controller:
  "keeps s (set_avalible k b g s)" "keeps s (set_enabled k b g s)" "keeps s (snd (enable_controller k cg s))"
  "keeps s (snd (disable_controller k cg s))"
proof -
  show a: "keeps s (set_avalible k b g s)" for b g s by (simp add: keeps_def set_avalible_def core_def)
  show e: "keeps s (set_enabled k b g s)" for b g s unfolding set_enabled_def by (rule keeps_upd_cg) (simp add: core_def)
  show "keeps s (snd (enable_controller k cg s))" "keeps s (snd (disable_controller k cg s))"
    by (auto simp: enable_controller_def disable_controller_def intro: keeps_trans [OF e a] split: option.split)
qed

lemma keeps_mem_controller:
  "keeps s (snd (unsafe_enable_mem_controller cg s))" "keeps s (snd (unsafe_disable_mem_controller cg s))"
proof -
  show "keeps s (snd (unsafe_enable_mem_controller cg s))"
    by (auto simp: unsafe_enable_mem_controller_def Let_def intro: keeps_trans [OF keeps_cmem] keeps_trans [OF keeps_controller(2) keeps_controller(1)]
        split: option.split prod.split)
  show "keeps s (snd (unsafe_disable_mem_controller cg s))"
    by (auto simp: unsafe_disable_mem_controller_def Let_def
        intro!: keeps_trans [OF keeps_controller(2) keeps_trans [OF keeps_set_min_mem keeps_trans [OF keeps_setters(1) keeps_controller(1)]]]
        split: option.split)
qed

lemma keeps_protect_memory: "keeps s (snd (protect_memory src dst n s))"
  by (simp add: keeps_def core_def upd_cg_def protect_memory_def Let_def split: prod.split)

section \<open>Erasing and inserting a process\<close>

definition climbed :: "(cgroup \<Rightarrow> cgroup) \<Rightarrow> nat \<Rightarrow> cgtable \<Rightarrow> cgtable" where
  "climbed f g s = s\<lparr>cgroups := (\<lambda>h. if above s h g then f (cgroups s h) else cgroups s h)\<rparr>"

lemma climbed_frame:
  assumes "\<And>c. cparent (f c) = cparent c" "\<And>c. cgroup_dir_path (f c) = cgroup_dir_path c" "\<And>c. cproc (f c) = cproc c"
  shows "live (climbed f g s) = live s" "above (climbed f g s) = above s" "cg_tree r (climbed f g s) = cg_tree r s"
    "home (climbed f g s) = home s" "members (climbed f g s) = members s" "desc (climbed f g s) = desc s"
    "slots_ok (climbed f g s) = slots_ok s" "psz (climbed f g s) = psz s" "pcgroup (climbed f g s) = pcgroup s"
    "cproc (cgroups (climbed f g s) h) = cproc (cgroups s h)"
proof -
  have p: "cparent (cgroups (climbed f g s) h) = cparent (cgroups s h)" "cproc (cgroups (climbed f g s) h) = cproc (cgroups s h)"
    "cgroup_dir_path (cgroups (climbed f g s) h) = cgroup_dir_path (cgroups s h)" for h
    by (simp_all add: climbed_def assms)
  show l: "live (climbed f g s) = live s" by (intro ext) (simp add: live_def p)
  show a: "above (climbed f g s) = above s" by (intro ext) (simp add: above_def p)
  show z: "psz (climbed f g s) = psz s" "pcgroup (climbed f g s) = pcgroup s" by (simp_all add: climbed_def)
  show h: "home (climbed f g s) = home s" by (intro ext) (simp add: home_def p z)
  show "members (climbed f g s) = members s" "desc (climbed f g s) = desc s" by (auto simp: members_def desc_def h a l intro!: ext)
  show "cg_tree r (climbed f g s) = cg_tree r s" "slots_ok (climbed f g s) = slots_ok s"
    by (simp_all add: cg_tree_def slots_ok_def p l z)
  show "cproc (cgroups (climbed f g s) h) = cproc (cgroups s h)" by (rule p)
qed

lemma climb_climbed:
  assumes "cg_tree r s" "live s g" "\<And>c. cparent (f c) = cparent c" "\<And>c. cgroup_dir_path (f c) = cgroup_dir_path c"
  shows "climb f (Some g) s = Some (climbed f g s)"
  unfolding climbed_def by (rule climb_live [OF assms])

lemma account_frame [simp]:
  "cparent (erase_account z c) = cparent c" "cgroup_dir_path (erase_account z c) = cgroup_dir_path c" "cproc (erase_account z c) = cproc c"
  "cparent (insert_account z c) = cparent c" "cgroup_dir_path (insert_account z c) = cgroup_dir_path c" "cproc (insert_account z c) = cproc c"
  "nr_descendants (erase_account z c) = nr_descendants c" "nr_descendants (insert_account z c) = nr_descendants c"
  by (simp_all add: erase_account_def insert_account_def)

lemma finite_members [simp]: "finite (members s g)"
  by (rule finite_subset [of _ "{..<NPROC}"]) (auto simp: members_def)

lemma finite_desc [simp]: "finite (desc s g)"
  by (rule finite_subset [of _ "{..<NPROC}"]) (auto simp: desc_def live_def)

lemma home_slot: "slots_ok s \<Longrightarrow> home s p = Some g \<longleftrightarrow> (\<exists>i. cproc (cgroups s g) i = Some p)"
  unfolding home_def slots_ok_def by (metis option.inject option.distinct(1))

text \<open>The state after the slot of \<open>p\<close> is cleared or filled, before the counters are adjusted.\<close>

definition cleared :: "nat \<Rightarrow> nat \<Rightarrow> nat \<Rightarrow> cgtable \<Rightarrow> cgtable" where
  "cleared g i p s = upd_cg g (\<lambda>c. c\<lparr>cproc := (cproc c)(i := None)\<rparr>) (s\<lparr>pcgroup := (pcgroup s)(p := Some cgroup_root)\<rparr>)"

lemma cleared_fields:
  "num_of_procs (cgroups (cleared g i p s) a) = num_of_procs (cgroups s a)"
  "current_mem (cgroups (cleared g i p s) a) = current_mem (cgroups s a)"
  "nr_descendants (cgroups (cleared g i p s) a) = nr_descendants (cgroups s a)" "psz (cleared g i p s) = psz s"
  "cproc (cgroups (cleared g i p s) h) j = (if h = g \<and> j = i then None else cproc (cgroups s h) j)"
  by (simp_all add: cleared_def upd_cg_def)

lemma clear_slot:
  assumes s: "slots_ok s" and i: "cproc (cgroups s g) i = Some p"
  defines "s1 \<equiv> cleared g i p s"
  shows "live s1 = live s" "above s1 = above s" "cg_tree r s1 = cg_tree r s" "slots_ok s1" "home s1 = (home s)(p := None)"
    "members s1 a = members s a - {p}" "desc s1 = desc s"
proof -
  have c: "cparent (cgroups s1 h) = cparent (cgroups s h)" "cgroup_dir_path (cgroups s1 h) = cgroup_dir_path (cgroups s h)"
    "cproc (cgroups s1 h) j = (if h = g \<and> j = i then None else cproc (cgroups s h) j)" "pcgroup s1 = (pcgroup s)(p := Some 0)" for h j
    by (simp_all add: s1_def cleared_def upd_cg_def cgroup_root_def)
  show l: "live s1 = live s" by (intro ext) (simp add: live_def c)
  show a: "above s1 = above s" by (intro ext) (simp add: above_def c)
  show "cg_tree r s1 = cg_tree r s" by (simp add: cg_tree_def c l)
  have out: "cproc (cgroups s1 h) j \<noteq> Some p" for h j
    using s i unfolding slots_ok_def c by (metis option.inject option.distinct(1))
  have "live s 0" by (simp add: live_def NPROC_def)
  show s1: "slots_ok s1" unfolding slots_ok_def
  proof (intro conjI allI impI)
    show "j < NPROC" "q < NPROC" "live s1 h" "pcgroup s1 q = Some h" if q: "cproc (cgroups s1 h) j = Some q" for h j q
      using s that out [of h j] by (auto simp: slots_ok_def c l split: if_splits)
    show "j = k" if "cproc (cgroups s1 h) j = Some q" "cproc (cgroups s1 h) k = Some q" for h j k q
      using s that unfolding slots_ok_def c by (metis option.distinct(1))
    show "live s1 h" if "pcgroup s1 q = Some h" for q h using s that \<open>live s 0\<close> unfolding slots_ok_def l c by (metis fun_upd_apply option.inject)
    show "h = 0 \<or> (\<exists>j. cproc (cgroups s1 h) j = Some q)" if "pcgroup s1 q = Some h" for q h
    proof (cases "q = p")
      case False
      then have "h = 0 \<or> (\<exists>j. cproc (cgroups s h) j = Some q)" using s that by (auto simp: slots_ok_def c)
      then show ?thesis using False i unfolding c by (metis option.inject)
    qed (use that in \<open>simp add: c\<close>)
  qed
  show h: "home s1 = (home s)(p := None)"
  proof (rule ext)
    fix q
    show "home s1 q = ((home s)(p := None)) q"
    proof (cases "q = p")
      case True
      then show ?thesis using out by (simp add: home_def)
    next
      case False
      then have "(\<exists>h j. cproc (cgroups s1 h) j = Some q) = (\<exists>h j. cproc (cgroups s h) j = Some q)"
        using i unfolding c by (metis option.inject option.distinct(1))
      then show ?thesis using False by (simp add: home_def c)
    qed
  qed
  show "members s1 a = members s a - {p}" by (auto simp: members_def h a)
  show "desc s1 = desc s" by (intro ext) (simp add: desc_def l a)
qed

lemma unsafe_cgroup_erase_inv:
  assumes "cg_inv s" "pcgroup s p = Some g"
  shows "\<exists>s'. unsafe_cgroup_erase g p s = Some s' \<and> cg_inv s' \<and> home s' p = None \<and> live s' = live s \<and> psz s' = psz s \<and>
    (\<forall>h j. cproc (cgroups s h) j = None \<longrightarrow> cproc (cgroups s' h) j = None)"
proof (cases "first_slot (\<lambda>i. cproc (cgroups s g) i = Some p) NPROC")
  case None
  have out: "cproc (cgroups s h) j \<noteq> Some p" for h j
  proof
    assume h: "cproc (cgroups s h) j = Some p"
    then have "pcgroup s p = Some h" "j < NPROC" using assms(1) by (auto simp: cg_inv_def slots_ok_def)
    then show False using assms(2) h None by (simp add: first_slot_None)
  qed
  then have "home s p = None" by (simp add: home_def)
  then show ?thesis using None assms(1) by (auto simp: unsafe_cgroup_erase_def)
next
  case (Some i)
  then have i: "cproc (cgroups s g) i = Some p" by (auto dest: first_slot_Some)
  have sl: "slots_ok s" and ct: "counts_ok s" using assms(1) by (auto simp: cg_inv_def)
  obtain r where r: "cg_tree r s" using assms(1) by (auto simp: cg_inv_def)
  let ?s = "cleared g i p s"
  note cl = clear_slot [OF sl i]
  have lg: "live s g" and p: "p < NPROC" using sl i by (auto simp: slots_ok_def)
  let ?t = "climbed (erase_account (psz s p)) g ?s"
  have "climb (erase_account (psz s p)) (Some g) ?s = Some ?t" by (rule climb_climbed) (use cl(1,3) r lg in auto)
  then have t: "unsafe_cgroup_erase g p s = Some ?t"
    using Some by (simp add: unsafe_cgroup_erase_def Let_def cleared_def upd_cg_def)
  note fr = climbed_frame [where f = "erase_account (psz s p)", OF account_frame(1,2,3)]
  have hp: "home s p = Some g" using home_slot [OF sl] i by blast
  have "counts_ok ?t" unfolding counts_ok_def fr cl cleared_fields
  proof (intro allI impI)
    fix a
    assume a: "live s a"
    let ?c = "cgroups s a"
    have c: "num_of_procs ?c = int (card (members s a))" "current_mem ?c = (\<Sum>p\<in>members s a. psz s p)"
      "unat (nr_descendants ?c) = card (desc s a)" using ct a by (auto simp: counts_ok_def)
    have mem: "p \<in> members s a \<longleftrightarrow> above s a g" using hp p by (auto simp: members_def)
    have ta: "cgroups ?t a = (if above s a g then erase_account (psz s p) (cgroups ?s a) else cgroups ?s a)"
      by (simp add: climbed_def cl(2))
    show "num_of_procs (cgroups ?t a) = int (card (members s a - {p})) \<and>
      current_mem (cgroups ?t a) = (\<Sum>p\<in>members s a - {p}. psz s p) \<and> unat (nr_descendants (cgroups ?t a)) = card (desc s a)"
    proof (cases "above s a g")
      case True
      then have m: "p \<in> members s a" using mem by simp
      have "0 < card (members s a)" using m by (metis card_gt_0_iff empty_iff finite_members)
      then have "int (card (members s a - {p})) = num_of_procs ?c - 1" using m c(1) by (simp add: card_Diff_singleton)
      moreover have "(\<Sum>p\<in>members s a - {p}. psz s p) = current_mem ?c - psz s p" using m c(2) by (simp add: sum_diff1)
      ultimately show ?thesis using True c(3) unfolding ta by (simp add: erase_account_def cleared_fields)
    next
      case False
      then have "members s a - {p} = members s a" using mem by blast
      then show ?thesis using False c unfolding ta by (simp add: cleared_fields)
    qed
  qed
  then have "cg_inv ?t" using r cl(3,4) unfolding cg_inv_def fr by blast
  moreover have "\<forall>h j. cproc (cgroups s h) j = None \<longrightarrow> cproc (cgroups ?t h) j = None" by (simp add: fr cleared_fields)
  moreover have "home ?t p = None" "live ?t = live s" "psz ?t = psz s" by (simp_all add: fr cl(1,5) cleared_fields)
  ultimately show ?thesis using t by blast
qed

definition filled :: "nat \<Rightarrow> nat \<Rightarrow> nat \<Rightarrow> cgtable \<Rightarrow> cgtable" where
  "filled g i p s = (upd_cg g (\<lambda>c. c\<lparr>cproc := (cproc c)(i := Some p)\<rparr>) s)\<lparr>pcgroup := (pcgroup s)(p := Some g)\<rparr>"

lemma filled_fields:
  "num_of_procs (cgroups (filled g i p s) a) = num_of_procs (cgroups s a)"
  "current_mem (cgroups (filled g i p s) a) = current_mem (cgroups s a)"
  "nr_descendants (cgroups (filled g i p s) a) = nr_descendants (cgroups s a)" "psz (filled g i p s) = psz s"
  by (simp_all add: filled_def upd_cg_def)

lemma fill_slot:
  assumes s: "slots_ok s" and i: "cproc (cgroups s g) i = None" "i < NPROC" "p < NPROC" "home s p = None" "live s g"
  defines "s1 \<equiv> filled g i p s"
  shows "live s1 = live s" "above s1 = above s" "cg_tree r s1 = cg_tree r s" "slots_ok s1" "home s1 = (home s)(p := Some g)"
    "members s1 a = (if above s a g then insert p (members s a) else members s a)" "desc s1 = desc s"
proof -
  have c: "cparent (cgroups s1 h) = cparent (cgroups s h)" "cgroup_dir_path (cgroups s1 h) = cgroup_dir_path (cgroups s h)"
    "cproc (cgroups s1 h) j = (if h = g \<and> j = i then Some p else cproc (cgroups s h) j)" "pcgroup s1 = (pcgroup s)(p := Some g)" for h j
    by (simp_all add: s1_def filled_def upd_cg_def)
  show l: "live s1 = live s" by (intro ext) (simp add: live_def c)
  show ab: "above s1 = above s" by (intro ext) (simp add: above_def c)
  show "cg_tree r s1 = cg_tree r s" by (simp add: cg_tree_def c l)
  have out: "cproc (cgroups s h) j \<noteq> Some p" for h j
  proof
    assume h: "cproc (cgroups s h) j = Some p"
    then have "home s p = Some h" using home_slot [OF s] by blast
    then show False using i(4) by simp
  qed
  show s1: "slots_ok s1" unfolding slots_ok_def
  proof (intro conjI allI impI)
    show "j < NPROC" "q < NPROC" "live s1 h" "pcgroup s1 q = Some h" if "cproc (cgroups s1 h) j = Some q" for h j q
      using s that i out [of h j] by (auto simp: slots_ok_def c l split: if_splits)
    show "j = k" if "cproc (cgroups s1 h) j = Some q" "cproc (cgroups s1 h) k = Some q" for h j k q
      using s that out [of h] unfolding slots_ok_def c by (metis option.inject)
    show "live s1 h" if "pcgroup s1 q = Some h" for q h using s that i(5) unfolding slots_ok_def l c by (metis fun_upd_apply option.inject)
    show "h = 0 \<or> (\<exists>j. cproc (cgroups s1 h) j = Some q)" if "pcgroup s1 q = Some h" for q h
    proof (cases "q = p")
      case True
      then have "h = g" using that by (simp add: c)
      then show ?thesis using True c(3) [of g i] by auto
    next
      case False
      then have "h = 0 \<or> (\<exists>j. cproc (cgroups s h) j = Some q)" using s that by (auto simp: slots_ok_def c)
      then show ?thesis using i(1) unfolding c by (metis option.distinct(1))
    qed
  qed
  show h: "home s1 = (home s)(p := Some g)"
  proof (rule ext)
    fix q
    show "home s1 q = ((home s)(p := Some g)) q"
    proof (cases "q = p")
      case True
      have "cproc (cgroups s1 g) i = Some p" by (simp add: c)
      then show ?thesis using True home_slot [OF s1, of p g] by auto
    next
      case False
      then have "(\<exists>h j. cproc (cgroups s1 h) j = Some q) = (\<exists>h j. cproc (cgroups s h) j = Some q)"
        using i(1) unfolding c by (metis option.inject option.distinct(1))
      then show ?thesis using False by (simp add: home_def c)
    qed
  qed
  show "members s1 a = (if above s a g then insert p (members s a) else members s a)"
    using i(3,4) by (auto simp: members_def h ab)
  show "desc s1 = desc s" by (intro ext) (simp add: desc_def l ab)
qed

lemma insert_commit_inv:
  assumes "cg_inv s" and i: "cproc (cgroups s g) i = None" "i < NPROC" "p < NPROC" "home s p = None" "live s g"
  shows "\<exists>s'. insert_commit g p i s = Some (RESULT_SUCCESS, s') \<and> cg_inv s'"
proof -
  have sl: "slots_ok s" and ct: "counts_ok s" using assms(1) by (auto simp: cg_inv_def)
  obtain r where r: "cg_tree r s" using assms(1) by (auto simp: cg_inv_def)
  let ?s = "filled g i p s"
  note fl = fill_slot [OF sl i]
  let ?t = "climbed (insert_account (psz s p)) g ?s"
  have "climb (insert_account (psz s p)) (Some g) ?s = Some ?t" by (rule climb_climbed) (use fl(1,3) r i(5) in auto)
  then have t: "insert_commit g p i s = Some (RESULT_SUCCESS, ?t)"
    by (simp add: insert_commit_def Let_def filled_def upd_cg_def)
  note fr = climbed_frame [where f = "insert_account (psz s p)", OF account_frame(4,5,6)]
  have "counts_ok ?t" unfolding counts_ok_def fr fl filled_fields
  proof (intro allI impI)
    fix a
    assume a: "live s a"
    let ?c = "cgroups s a"
    have c: "num_of_procs ?c = int (card (members s a))" "current_mem ?c = (\<Sum>p\<in>members s a. psz s p)"
      "unat (nr_descendants ?c) = card (desc s a)" using ct a by (auto simp: counts_ok_def)
    have mem: "p \<notin> members s a" using i(4) by (simp add: members_def)
    have ta: "cgroups ?t a = (if above s a g then insert_account (psz s p) (cgroups ?s a) else cgroups ?s a)"
      by (simp add: climbed_def fl(2))
    show "num_of_procs (cgroups ?t a) = int (card (if above s a g then insert p (members s a) else members s a)) \<and>
      current_mem (cgroups ?t a) = (\<Sum>p\<in>(if above s a g then insert p (members s a) else members s a). psz s p) \<and>
      unat (nr_descendants (cgroups ?t a)) = card (desc s a)"
      using mem c unfolding ta by (cases "above s a g") (simp_all add: insert_account_def filled_fields add.commute)
  qed
  then have "cg_inv ?t" using r fl(3,4) unfolding cg_inv_def fr by blast
  then show ?thesis using t by blast
qed

lemma unsafe_cgroup_insert_inv:
  assumes "cg_inv s" "live s g" "p < NPROC" "pcgroup s p = None \<Longrightarrow> home s p = None"
  shows "\<exists>r s'. unsafe_cgroup_insert g p s = Some (r, s') \<and> cg_inv s'"
proof -
  let ?c = "cgroups s g"
  have commit: ?thesis if "\<not> (enabled ?c Pid \<and> num_of_procs ?c + 1 > max_num_of_procs ?c)"
      "\<not> (enabled ?c Mem \<and> current_mem ?c + psz s p > max_mem ?c)" "\<not> list_ex (\<lambda>i. cproc ?c i = Some p) [0..<NPROC]"
      "first_slot (\<lambda>i. cproc ?c i = None) NPROC = Some i" for i
  proof (cases "pcgroup s p")
    case None
    have "cproc ?c i = None" "i < NPROC" using that(4) by (auto dest: first_slot_Some)
    from insert_commit_inv [OF assms(1) this assms(3) _ assms(2)] assms(4) None that show ?thesis
      by (auto simp: unsafe_cgroup_insert_def Let_def)
  next
    case (Some old)
    obtain r s1 where pm: "protect_memory old g (psz s p) s = (r, s1)" by force
    have k: "keeps s s1" using keeps_protect_memory [of s old g "psz s p"] pm by simp
    have 1: "cg_inv s1" "pcgroup s1 p = Some old" "live s1 g" "cproc (cgroups s1 g) i = None" "i < NPROC"
      using assms(1,2) Some cg_inv_keeps [OF k] keepsD [OF k] that(4) by (auto dest: first_slot_Some)
    obtain s2 where 2: "unsafe_cgroup_erase old p s1 = Some s2" "cg_inv s2" "home s2 p = None" "live s2 = live s1"
      "cproc (cgroups s2 g) i = None" using unsafe_cgroup_erase_inv [OF 1(1,2)] 1(4) by blast
    from insert_commit_inv [OF 2(2,5) 1(5) assms(3) 2(3)] 1(3) 2 obtain s3 where
      "insert_commit g p i s2 = Some (RESULT_SUCCESS, s3)" "cg_inv s3" by auto
    then show ?thesis using that pm Some 2(1) 1(1) by (auto simp: unsafe_cgroup_insert_def Let_def)
  qed
  show ?thesis
  proof (cases "unsafe_cgroup_insert g p s = Some (RESULT_ERROR, s) \<or> unsafe_cgroup_insert g p s = Some (RESULT_SUCCESS, s)")
    case False
    then show ?thesis using commit
      by (cases "first_slot (\<lambda>i. cproc ?c i = None) NPROC") (auto simp: unsafe_cgroup_insert_def Let_def split: if_splits)
  qed (use assms(1) in blast)
qed

section \<open>Creating and deleting a group\<close>

lemma keeps_initialize_tail:
  "keeps s (upd_cg g init_cpu_io (snd (set_min_mem (Some g) 0 (snd (set_max_mem (Some g) m
     (upd_cg g init_stats (snd (frz_grp (Some g) 0 (snd (set_cpu_id (Some g) 0 (snd (set_max_procs (Some g) n s))))))))))))"
proof -
  have i: "keeps t (upd_cg g init_stats t)" "keeps t (upd_cg g init_cpu_io t)" for t
    by (auto intro!: keeps_upd_cg simp: core_def init_stats_def init_cpu_io_def)
  show ?thesis
    by (rule keeps_trans [OF _ i(2)], rule keeps_trans [OF _ keeps_set_min_mem], rule keeps_trans [OF _ keeps_setters(1)],
        rule keeps_trans [OF _ i(1)], rule keeps_trans [OF _ keeps_setters(4)], rule keeps_trans [OF _ keeps_setters(3)],
        rule keeps_setters(2))
qed

definition fresh_child :: "nat \<Rightarrow> string \<Rightarrow> cgroup \<Rightarrow> cgroup" where
  "fresh_child p path c = c\<lparr>cparent := Some p, cgroup_dir_path := path, num_of_procs := 0, current_mem := 0, nr_descendants := 0\<rparr>"

lemma cgroup_initialize_child:
  assumes "format_path cwdp path \<noteq> []"
  shows "keeps (upd_cg g (fresh_child p (format_path cwdp path)) s) (cgroup_initialize cwdp g path (Some p) s)"
proof -
  let ?s = "set_nr_dying_descendants g 0 (set_nr_descendants g 0 (set_max_depth_value g MAX_DEP_DEF (set_max_descendants_value g MAX_DES_DEF
    (upd_cg g init_counters (unsafe_set_cgroup_dir_path cwdp g path (upd_cg g (init_child p (cgroups s p)) s))))))"
  have "keeps (upd_cg g (fresh_child p (format_path cwdp path)) s) ?s"
    using assms by (simp add: keeps_def core_def upd_cg_def fresh_child_def set_nr_dying_descendants_def set_nr_descendants_def
      set_max_depth_value_def set_max_descendants_value_def init_counters_def unsafe_set_cgroup_dir_path_def Let_def init_child_def)
  moreover have "keeps ?s (cgroup_initialize cwdp g path (Some p) s)"
    unfolding cgroup_initialize_def Let_def option.case by (rule keeps_initialize_tail)
  ultimately show ?thesis by (rule keeps_trans)
qed

lemma fresh_child_frame:
  assumes sl: "slots_ok s" and r: "cg_tree r s" and g: "g < NPROC" "g \<noteq> 0" "\<not> live s g" and p: "live s p" and path: "path \<noteq> []"
  defines "t \<equiv> upd_cg g (fresh_child p path) s"
  shows "live t = (live s)(g := True)" "above t a p = above s a p" "\<not> above s g p" "cg_tree (r(g := Suc (r p))) t" "home t = home s"
    "slots_ok t" "members t a = (if a = g then {} else members s a)"
    "desc t a = (if a = g then {} else if above s a p then insert g (desc s a) else desc s a)"
proof -
  have c: "cgroups t h = (if h = g then fresh_child p path (cgroups s g) else cgroups s h)" "pcgroup t = pcgroup s" for h
    by (simp_all add: t_def upd_cg_def)
  have cp: "cproc (cgroups t h) = cproc (cgroups s h)" for h by (simp add: c fresh_child_def)
  show live: "live t = (live s)(g := True)" using g path by (intro ext) (auto simp: live_def c fresh_child_def)
  have low: "\<not> above s g h" if "live s h" for h using above_live [OF r that, of g] g by auto
  have up: "above t a h = above s a h" if "live s h" for a h
  proof (rule above_cong)
    fix x assume "above s x h"
    then have "x \<noteq> g" using low [OF that] by auto
    then show "cparent (cgroups t x) = cparent (cgroups s x)" by (simp add: c)
  qed
  show "above t a p = above s a p" by (rule up [OF p])
  show "\<not> above s g p" by (rule low [OF p])
  have new: "above t a g \<longleftrightarrow> a = g \<or> above s a p" for a
    using above_step [of t g p a] up [OF p] by (simp add: c fresh_child_def)
  have "\<exists>q. cparent (cgroups t h) = Some q \<and> live t q \<and> (r(g := Suc (r p))) q < (r(g := Suc (r p))) h" if h: "live t h" "h \<noteq> 0" for h
  proof (cases "h = g")
    case False
    then have "live s h" using h live by simp
    then obtain q where "cparent (cgroups s h) = Some q" "live s q" "r q < r h" using r h(2) by (auto simp: cg_tree_def)
    moreover from this have "q \<noteq> g" using g by auto
    ultimately show ?thesis using False live by (simp add: c)
  next
    case True
    have "p \<noteq> g" using p g by auto
    then show ?thesis using True p live by (simp add: c fresh_child_def)
  qed
  then show "cg_tree (r(g := Suc (r p))) t" using r g(2) by (simp add: cg_tree_def c)
  show hm: "home t = home s" by (intro ext) (simp add: home_def cp c(2))
  show "slots_ok t" using sl unfolding slots_ok_def cp c(2) live by auto
  have "live s h" if "home s q = Some h" for q h using home_slot [OF sl] that sl by (auto simp: slots_ok_def)
  then show "members t a = (if a = g then {} else members s a)" using up low by (auto simp: members_def hm)
  show "desc t a = (if a = g then {} else if above s a p then insert g (desc s a) else desc s a)"
    using up new live g low by (auto simp: desc_def split: if_splits)
qed

lemma card_desc: "card (desc s a) \<le> NPROC"
  using card_mono [of "{..<NPROC}" "desc s a"] by (auto simp: desc_def live_def)

abbreviation one_more :: "cgroup \<Rightarrow> cgroup" where
  "one_more c \<equiv> c\<lparr>nr_descendants := nr_descendants c + 1\<rparr>"

lemma fresh_child_inv:
  assumes "cg_inv s" and g: "g < NPROC" "g \<noteq> 0" "\<not> live s g" and p: "live s p" and path: "path \<noteq> []"
  defines "t \<equiv> upd_cg g (fresh_child p path) s"
  shows "cg_inv (climbed one_more p t) \<and> (\<exists>r. cg_tree r t)"
proof -
  have sl: "slots_ok s" and ct: "counts_ok s" using assms(1) by (auto simp: cg_inv_def)
  obtain r where r: "cg_tree r s" using assms(1) by (auto simp: cg_inv_def)
  note fc = fresh_child_frame [OF sl r g p path, folded t_def]
  note fr = climbed_frame [where f = one_more, simplified]
  have z: "psz t = psz s" and tg: "cgroups t h = (if h = g then fresh_child p path (cgroups s g) else cgroups s h)" for h
    by (simp_all add: t_def upd_cg_def)
  have "counts_ok (climbed one_more p t)" unfolding counts_ok_def fr fc z
  proof (intro allI impI)
    fix a assume a: "((live s)(g := True)) a"
    have ta: "cgroups (climbed one_more p t) a = (if above s a p then one_more (cgroups t a) else cgroups t a)"
      by (simp add: climbed_def fc(2))
    show "num_of_procs (cgroups (climbed one_more p t) a) = int (card (if a = g then {} else members s a)) \<and>
      current_mem (cgroups (climbed one_more p t) a) = (\<Sum>p\<in>(if a = g then {} else members s a). psz s p) \<and>
      unat (nr_descendants (cgroups (climbed one_more p t) a)) =
        card (if a = g then {} else if above s a p then insert g (desc s a) else desc s a)"
    proof (cases "a = g")
      case True
      then show ?thesis using fc(3) unfolding ta by (simp add: tg fresh_child_def)
    next
      case False
      then have cn: "num_of_procs (cgroups s a) = int (card (members s a))" "current_mem (cgroups s a) = (\<Sum>p\<in>members s a. psz s p)"
        "unat (nr_descendants (cgroups s a)) = card (desc s a)" using ct a by (auto simp: counts_ok_def)
      then have "unat (nr_descendants (cgroups s a) + 1) = Suc (card (desc s a))"
        using card_desc [of s a] by (simp add: NPROC_def unat_word_ariths)
      moreover have "g \<notin> desc s a" using g by (simp add: desc_def)
      ultimately show ?thesis using False cn unfolding ta by (simp add: tg)
    qed
  qed
  then show ?thesis using fc(4,6) unfolding cg_inv_def fr by blast
qed

lemma keeps_climbed:
  assumes "keeps s s'" "\<And>g c c'. core g c = core g c' \<Longrightarrow> core g (f c) = core g (f c')"
  shows "keeps (climbed f p s) (climbed f p s')"
proof -
  have c: "core g (cgroups s' g) = core g (cgroups s g)" for g using assms(1) by (simp add: keeps_def)
  have "core g (f (cgroups s' g)) = core g (f (cgroups s g))" for g by (rule assms(2)) (rule c)
  then show ?thesis using assms(1) c unfolding keeps_def climbed_def keepsD(2) [OF assms(1)] by simp
qed

lemma get_by_path_live: "unsafe_get_cgroup_by_path cwdp path s = Some g \<Longrightarrow> live s g"
  by (auto simp: unsafe_get_cgroup_by_path_def live_def Let_def dest!: first_slot_Some split: if_splits)

lemma get_base_name_nonempty: "get_base_name cwdp path \<noteq> None \<Longrightarrow> format_path cwdp path \<noteq> []"
  by (auto simp: get_base_name_def Let_def last_slash_def)

lemma create_check_returns:
  assumes "cg_tree r s" "live s g"
  shows "\<exists>x. create_check i (Some g) s = Some x"
  using assms(2)
proof (induction "r g" arbitrary: g i rule: less_induct)
  case less
  show ?case
  proof (cases "cparent (cgroups s g)")
    case None
    then show ?thesis by (subst create_check.simps) (simp add: create_check.simps [of "i + 1" None])
  next
    case (Some p)
    then have "live s p" "r p < r g" using assms(1) less.prems by (auto simp: cg_tree_def)
    then show ?thesis using less.hyps [of p "i + 1"] Some by (subst create_check.simps) simp
  qed
qed

lemma create_commit_inv:
  assumes "cg_inv s" "live s p" "format_path cwdp fpath \<noteq> []"
  shows "\<exists>x. create_commit cwdp fpath p s = Some x \<and> (\<forall>cg s'. x = Ret (cg, s') \<longrightarrow> cg_inv s')"
proof (cases "free_cgroup s")
  case (Some g)
  then have g: "g < NPROC" "g \<noteq> 0" "\<not> live s g"
    by (auto simp: free_cgroup_def live_def find_Some_iff NPROC_def)
  let ?t = "upd_cg g (fresh_child p (format_path cwdp fpath)) s" and ?s = "cgroup_initialize cwdp g fpath (Some p) s"
  have k: "keeps ?t ?s" by (rule cgroup_initialize_child [OF assms(3)])
  obtain r where inv: "cg_inv (climbed one_more p ?t)" "cg_tree r ?t"
    using fresh_child_inv [OF assms(1) g assms(2,3)] by blast
  have "cg_tree r ?s" "live ?s p"
    using inv(2) keepsD [OF k] assms(1,2) fresh_child_frame(1) [OF _ _ g assms(2,3)] by (auto simp: cg_tree_def cg_inv_def)
  then have "climb one_more (Some p) ?s = Some (climbed one_more p ?s)" by (rule climb_climbed) auto
  moreover have "cg_inv (climbed one_more p ?s)"
    using inv(1) cg_inv_keeps [OF keeps_climbed [OF k, of one_more p]] by (simp add: core_def)
  ultimately show ?thesis using Some by (simp add: create_commit_def)
qed (simp add: create_commit_def)

lemma cgroup_create_inv:
  assumes "cg_inv s"
  shows "\<exists>x. cgroup_create cwdp path s = Some x \<and> (\<forall>cg s'. x = Ret (cg, s') \<longrightarrow> cg_inv s')"
proof -
  obtain r where r: "cg_tree r s" using assms by (auto simp: cg_inv_def)
  let ?f = "format_path cwdp path"
  show ?thesis
  proof (cases "get_dir_name cwdp ?f = None \<or> get_base_name cwdp ?f = None")
    case False
    then obtain d b where d: "get_dir_name cwdp ?f = Some d" "get_base_name cwdp ?f = Some b" by auto
    show ?thesis
    proof (cases "unsafe_get_cgroup_by_path cwdp d s")
      case (Some p)
      note p = get_by_path_live [OF Some]
      obtain x where x: "create_check 0 (Some p) s = Some x" using create_check_returns [OF r p] by blast
      show ?thesis using create_commit_inv [OF assms p, of cwdp ?f] get_base_name_nonempty [of cwdp ?f] d Some x
        by (cases x) (auto simp: cgroup_create_def Let_def)
    qed (use d assms in \<open>simp add: cgroup_create_def Let_def\<close>)
  qed (use assms in \<open>auto simp: cgroup_create_def Let_def split: option.split\<close>)
qed

abbreviation one_less :: "bool \<Rightarrow> cgroup \<Rightarrow> cgroup" where
  "one_less dying c \<equiv> c\<lparr>nr_descendants := nr_descendants c - 1,
     nr_dying_descendants := (if dying then nr_dying_descendants c + 1 else nr_dying_descendants c)\<rparr>"

definition unpathed :: "nat \<Rightarrow> cgtable \<Rightarrow> cgtable" where
  "unpathed g s = upd_cg g (\<lambda>c. c\<lparr>cgroup_dir_path := []\<rparr>) s"

lemma unpathed_frame:
  assumes "cg_inv s" "live s g" "g \<noteq> 0" "desc s g = {}" "members s g = {}"
  shows "live (unpathed g s) = (live s)(g := False)" "above (unpathed g s) = above s" "\<exists>r. cg_tree r (unpathed g s)"
    "slots_ok (unpathed g s)" "members (unpathed g s) = members s" "desc (unpathed g s) a = desc s a - {g}"
proof -
  have sl: "slots_ok s" using assms(1) by (auto simp: cg_inv_def)
  obtain r where r: "cg_tree r s" using assms(1) by (auto simp: cg_inv_def)
  have c: "cparent (cgroups (unpathed g s) h) = cparent (cgroups s h)" "cproc (cgroups (unpathed g s) h) = cproc (cgroups s h)"
    "pcgroup (unpathed g s) = pcgroup s" "cgroup_dir_path (cgroups (unpathed g s) h) = (if h = g then [] else cgroup_dir_path (cgroups s h))" for h
    by (simp_all add: unpathed_def upd_cg_def)
  show l: "live (unpathed g s) = (live s)(g := False)" using assms(3) by (intro ext) (auto simp: live_def c)
  show a: "above (unpathed g s) = above s" by (intro ext) (simp add: above_def c)
  have kid: "q \<noteq> g" if "live s h" "h \<noteq> 0" "cparent (cgroups s h) = Some q" for h q
  proof
    assume "q = g"
    moreover have "r q < r h" using r that by (auto simp: cg_tree_def)
    ultimately have "h \<in> desc s g" using that above_step [OF that(3), of g] by (auto simp: desc_def)
    then show False using assms(4) by simp
  qed
  have "\<exists>p. cparent (cgroups (unpathed g s) h) = Some p \<and> live (unpathed g s) p \<and> r p < r h"
    if "live (unpathed g s) h" "h \<noteq> 0" for h
  proof -
    have h: "live s h" "h \<noteq> 0" using that l by (auto split: if_splits)
    then obtain p where "cparent (cgroups s h) = Some p" "live s p" "r p < r h" using r by (auto simp: cg_tree_def)
    then show ?thesis using kid [OF h] by (simp add: c l)
  qed
  then show "\<exists>r. cg_tree r (unpathed g s)" using r unfolding cg_tree_def c by blast
  have hm: "home (unpathed g s) = home s" by (intro ext) (simp add: home_def c)
  then show "members (unpathed g s) = members s" by (intro ext) (simp add: members_def a)
  show "desc (unpathed g s) a = desc s a - {g}" by (auto simp: desc_def l a)
  have out: "cproc (cgroups s g) i \<noteq> Some p" for i p
  proof
    assume i: "cproc (cgroups s g) i = Some p"
    then have "home s p = Some g" "p < NPROC" using home_slot [OF sl, of p g] sl by (auto simp: slots_ok_def)
    then have "p \<in> members s g" by (simp add: members_def)
    then show False using assms(5) by simp
  qed
  have "pcgroup s p \<noteq> Some g" for p
  proof
    assume "pcgroup s p = Some g"
    then have "g = 0 \<or> (\<exists>i. cproc (cgroups s g) i = Some p)" using sl unfolding slots_ok_def by blast
    then show False using assms(3) out by auto
  qed
  then show "slots_ok (unpathed g s)" using sl out unfolding slots_ok_def c l by (auto simp: fun_upd_apply)
qed

lemma delete_child_inv:
  assumes "cg_inv s" "live s g" "g \<noteq> 0" "nr_descendants (cgroups s g) = 0" "num_of_procs (cgroups s g) = 0"
  shows "\<exists>s'. climb (one_less d) (cparent (cgroups s g)) (unpathed g s) = Some s' \<and> cg_inv s'"
proof -
  have ct: "counts_ok s" and sl: "slots_ok s" using assms(1) by (auto simp: cg_inv_def)
  obtain r where r: "cg_tree r s" using assms(1) by (auto simp: cg_inv_def)
  obtain p where p: "cparent (cgroups s g) = Some p" "live s p" "r p < r g" using r assms(2,3) by (auto simp: cg_tree_def)
  have "card (desc s g) = 0" "card (members s g) = 0" using ct assms(2,4,5) unfolding counts_ok_def by auto
  then have none: "desc s g = {}" "members s g = {}" by simp_all
  note up = unpathed_frame [OF assms(1-3) none]
  obtain r' where r': "cg_tree r' (unpathed g s)" using up(3) by blast
  have pg: "p \<noteq> g" and low: "\<not> above s g p" using above_live [OF r p(2), of g] p(3) by auto
  let ?t = "climbed (one_less d) p (unpathed g s)"
  have "climb (one_less d) (Some p) (unpathed g s) = Some ?t"
    by (rule climb_climbed [OF r']) (use p(2) pg up(1) in auto)
  moreover note fr = climbed_frame [where f = "one_less d", simplified]
  have "counts_ok ?t" unfolding counts_ok_def fr up
  proof (intro allI impI)
    fix a assume "((live s)(g := False)) a"
    then have a: "live s a" "a \<noteq> g" by (auto split: if_splits)
    have cn: "num_of_procs (cgroups s a) = int (card (members s a))" "current_mem (cgroups s a) = (\<Sum>p\<in>members s a. psz s p)"
      "unat (nr_descendants (cgroups s a)) = card (desc s a)" using ct a(1) by (auto simp: counts_ok_def)
    have "cgroups (unpathed g s) a = cgroups s a" and z: "psz (unpathed g s) = psz s" using a(2) by (simp_all add: unpathed_def upd_cg_def)
    then have ta: "cgroups ?t a = (if above s a p then one_less d (cgroups s a) else cgroups s a)" by (simp add: climbed_def up(2))
    have g: "g \<in> desc s a \<longleftrightarrow> above s a p" using a assms(2) above_step [OF p(1), of a] by (auto simp: desc_def)
    show "num_of_procs (cgroups ?t a) = int (card (members s a)) \<and> current_mem (cgroups ?t a) = (\<Sum>p\<in>members s a. psz (unpathed g s) p) \<and>
      unat (nr_descendants (cgroups ?t a)) = card (desc s a - {g})"
    proof (cases "above s a p")
      case True
      then have "card (desc s a) \<noteq> 0" using g by auto
      then have "nr_descendants (cgroups s a) \<noteq> 0" using cn(3) by auto
      then have "unat (nr_descendants (cgroups s a) - 1) = card (desc s a) - 1" using cn(3) by (simp add: unat_minus_one)
      then show ?thesis using True g cn unfolding ta z by (simp add: card_Diff_singleton)
    next
      case False
      then have "desc s a - {g} = desc s a" using g by blast
      then show ?thesis using False cn unfolding ta z by simp
    qed
  qed
  then have "cg_inv ?t" using up(3,4) unfolding cg_inv_def fr by blast
  ultimately show ?thesis using p(1) by auto
qed

lemma cgroup_delete_inv:
  assumes "cg_inv s"
  shows "\<exists>x s'. cgroup_delete cwdp path type s = Some (x, s') \<and> cg_inv s'"
proof (cases "unsafe_get_cgroup_by_path cwdp path s")
  case (Some g)
  note g = get_by_path_live [OF Some]
  let ?c = "cgroups s g"
  define s1 where "s1 = (if g \<noteq> cgroup_root \<and> enabled ?c Mem then snd (set_min_mem (Some g) 0 s) else s)"
  have k: "keeps s s1" by (simp add: s1_def keeps_set_min_mem)
  have i: "cg_inv s1" "live s1 g" "nr_descendants (cgroups s1 g) = nr_descendants ?c" "num_of_procs (cgroups s1 g) = num_of_procs ?c"
    using assms g cg_inv_keeps [OF k] keepsD [OF k] by auto
  have "\<exists>s'. climb (one_less (ref_count (cgroups (unpathed g s1) g) > 0)) (cparent (cgroups (unpathed g s1) g)) (unpathed g s1) = Some s' \<and> cg_inv s'"
    if "nr_descendants ?c = 0" "num_of_procs ?c = 0 \<or> g = 0"
  proof (cases "g = 0")
    case True
    have "keeps s1 (unpathed g s1)" unfolding unpathed_def using True by (intro keeps_upd_cg) (simp add: core_def)
    then have "cg_inv (unpathed g s1)" using i(1) cg_inv_keeps by blast
    moreover have "cparent (cgroups (unpathed g s1) g) = None" using i(1) True by (auto simp: unpathed_def upd_cg_def cg_inv_def cg_tree_def)
    ultimately show ?thesis by (simp add: climb.simps [of _ None])
  next
    case False
    have "cparent (cgroups (unpathed g s1) g) = cparent (cgroups s1 g)" by (simp add: unpathed_def upd_cg_def)
    then show ?thesis using delete_child_inv [OF i(1,2) False] i(3,4) that False by simp
  qed
  moreover have "cgroup_delete cwdp path type s =
      (if type = ''umount'' \<and> g \<noteq> 0 \<or> type = ''unlink'' \<and> g = 0 \<or> nr_descendants ?c \<noteq> 0 \<or> num_of_procs ?c \<noteq> 0 \<and> g \<noteq> 0
       then Some (RESULT_ERROR_OPERATION, s)
       else map_option (\<lambda>s. (RESULT_SUCCESS, s))
         (climb (one_less (ref_count (cgroups (unpathed g s1) g) > 0)) (cparent (cgroups (unpathed g s1) g)) (unpathed g s1)))"
    unfolding cgroup_delete_def s1_def unpathed_def cgroup_root_def Let_def Some by simp
  ultimately show ?thesis using assms by auto
qed (use assms in \<open>simp add: cgroup_delete_def\<close>)

section \<open>Sizes\<close>

text \<open>A process slot taken anew, and the common end of \<open>growproc\<close> and \<open>exec\<close>: the size stored and the difference added up to the root.\<close>

lemma taken_inv:
  assumes "cg_inv s" "\<forall>h i. cproc (cgroups s h) i \<noteq> Some p"
  shows "cg_inv (s\<lparr>pcgroup := (pcgroup s)(p := None), psz := (psz s)(p := n)\<rparr>)" (is "cg_inv ?s")
proof -
  have l: "live ?s = live s" and a: "above ?s = above s" by (auto simp: live_def above_def fun_eq_iff)
  have h: "home ?s = home s" using assms(2) by (auto simp: home_def fun_eq_iff)
  have m: "members ?s = members s" and d: "desc ?s = desc s" by (auto simp: members_def desc_def h a l fun_eq_iff)
  have "p \<notin> members s g" for g using assms(2) by (simp add: members_def home_def)
  then have "(\<Sum>q\<in>members s g. psz ?s q) = (\<Sum>q\<in>members s g. psz s q)" for g by (intro sum.cong) auto
  then have "counts_ok ?s" using assms(1) unfolding counts_ok_def cg_inv_def m d l by simp
  moreover have "slots_ok ?s" using assms unfolding slots_ok_def cg_inv_def l by (auto simp: fun_upd_apply split: if_splits)
  moreover have "cg_tree r ?s = cg_tree r s" for r by (simp add: cg_tree_def l)
  ultimately show ?thesis using assms(1) by (simp add: cg_inv_def)
qed

lemma grow_inv:
  fixes n :: u32
  assumes "cg_inv s" "cproc (cgroups s g) i = Some p"
  defines "f \<equiv> \<lambda>c :: cgroup. c\<lparr>current_mem := current_mem c + n\<rparr>"
  shows "\<exists>s'. climb f (Some g) (s\<lparr>psz := (psz s)(p := psz s p + n)\<rparr>) = Some s' \<and> cg_inv s'"
proof -
  let ?s = "s\<lparr>psz := (psz s)(p := psz s p + n)\<rparr>"
  have sl: "slots_ok s" and ct: "counts_ok s" using assms(1) by (auto simp: cg_inv_def)
  obtain r where r: "cg_tree r s" using assms(1) by (auto simp: cg_inv_def)
  have l: "live ?s = live s" and a: "above ?s = above s" by (auto simp: live_def above_def fun_eq_iff)
  have h: "home ?s = home s" by (auto simp: home_def fun_eq_iff)
  have m: "members ?s = members s" and d: "desc ?s = desc s" by (auto simp: members_def desc_def h a l fun_eq_iff)
  have tree: "cg_tree r ?s" using r by (simp add: cg_tree_def l)
  have slots: "slots_ok ?s" using sl by (simp add: slots_ok_def l)
  have g: "live s g" "home s p = Some g" "p < NPROC" using sl assms(2) home_slot [OF sl, of p g] by (auto simp: slots_ok_def)
  have ff: "cparent (f c) = cparent c" "cgroup_dir_path (f c) = cgroup_dir_path c" "cproc (f c) = cproc c" for c by (simp_all add: f_def)
  note fr = climbed_frame [where f = f, OF ff]
  have "climb f (Some g) ?s = Some (climbed f g ?s)" by (rule climb_climbed [OF tree _ ff(1,2)]) (use g(1) l in auto)
  moreover have counts: "counts_ok (climbed f g ?s)" unfolding counts_ok_def fr l m d
  proof (intro allI impI)
    fix b assume "live s b"
    then have cn: "num_of_procs (cgroups s b) = int (card (members s b))" "current_mem (cgroups s b) = (\<Sum>p\<in>members s b. psz s p)"
      "unat (nr_descendants (cgroups s b)) = card (desc s b)" using ct by (auto simp: counts_ok_def)
    have mem: "p \<in> members s b \<longleftrightarrow> above s b g" using g by (auto simp: members_def)
    have "(\<Sum>q\<in>members s b. psz ?s q) = (\<Sum>q\<in>members s b. psz s q) + (if above s b g then n else 0)"
    proof (cases "above s b g")
      case True
      have "(\<Sum>q\<in>members s b - {p}. psz ?s q) = (\<Sum>q\<in>members s b - {p}. psz s q)" by (rule sum.cong) auto
      then show ?thesis using True mem sum.remove [of "members s b" p "psz ?s"] sum.remove [of "members s b" p "psz s"] by simp
    next
      case False
      then have "p \<notin> members s b" using mem by simp
      then have "(\<Sum>q\<in>members s b. psz ?s q) = (\<Sum>q\<in>members s b. psz s q)" by (intro sum.cong) auto
      then show ?thesis using False by simp
    qed
    then show "num_of_procs (cgroups (climbed f g ?s) b) = int (card (members s b)) \<and>
      current_mem (cgroups (climbed f g ?s) b) = (\<Sum>p\<in>members s b. psz ?s p) \<and>
      unat (nr_descendants (cgroups (climbed f g ?s) b)) = card (desc s b)"
      using cn by (simp add: climbed_def a f_def)
  qed
  moreover have "cg_inv (climbed f g ?s)" using tree slots counts unfolding cg_inv_def fr by blast
  ultimately show ?thesis by blast
qed

lemma boot_cgtable_inv: "cg_inv (boot_cgtable k)"
proof -
  let ?s = "set_nr_dying_descendants 0 0 (set_nr_descendants 0 0 (set_max_depth_value 0 MAX_DEP_DEF (set_max_descendants_value 0 MAX_DES_DEF
    (upd_cg 0 init_counters (upd_cg 0 init_root (zero_cgtable k))))))"
  have "keeps (zero_cgtable k) ?s"
    by (simp add: keeps_def core_def upd_cg_def set_nr_dying_descendants_def set_nr_descendants_def zero_cgtable_def zero_cgroup_def
      set_max_depth_value_def set_max_descendants_value_def init_counters_def init_root_def)
  moreover have "keeps ?s (boot_cgtable k)"
    unfolding boot_cgtable_def cgroup_initialize_def Let_def option.case by (rule keeps_initialize_tail)
  ultimately have "keeps (zero_cgtable k) (boot_cgtable k)" by (rule keeps_trans)
  moreover have "cg_inv (zero_cgtable k)"
  proof -
    let ?z = "zero_cgtable k"
    have "live ?z g \<longleftrightarrow> g = 0" for g by (auto simp: live_def zero_cgtable_def zero_cgroup_def NPROC_def)
    moreover have "home ?z p = None" for p by (simp add: home_def zero_cgtable_def zero_cgroup_def)
    ultimately show ?thesis
      by (auto simp: cg_inv_def cg_tree_def slots_ok_def counts_ok_def members_def desc_def zero_cgtable_def zero_cgroup_def)
  qed
  ultimately show ?thesis using cg_inv_keeps by blast
qed

text \<open>A deleted group keeps its flags and its parent until its slot is used again.\<close>

definition flags :: "cgroup \<Rightarrow> (controller \<Rightarrow> bool) \<times> nat option \<times> string" where
  "flags c = (enabled c, cparent c, cgroup_dir_path c)"

lemma climb_keeps_flags:
  assumes "climb f cg s = Some s'" "\<And>c. flags (f c) = flags c"
  shows "flags (cgroups s' h) = flags (cgroups s h)"
proof -
  have "(\<forall>c. flags (f c) = flags c) \<longrightarrow> flags (cgroups s' h) = flags (cgroups s h)"
  proof (rule climb.raw_induct [where P = "\<lambda>f cg s s'. (\<forall>c. flags (f c) = flags c) \<longrightarrow> flags (cgroups s' h) = flags (cgroups s h)"])
    fix up f cg s s'
    assume IH: "\<And>f cg s s'. up f cg s = Some s' \<Longrightarrow> (\<forall>c. flags (f c) = flags c) \<longrightarrow> flags (cgroups s' h) = flags (cgroups s h)"
      and run: "(case cg of None \<Rightarrow> Some s | Some g \<Rightarrow> up f (cparent (cgroups (upd_cg g f s) g)) (upd_cg g f s)) = Some s'"
    have "flags (cgroups (upd_cg g f s) h) = flags (cgroups s h)" if "\<forall>c. flags (f c) = flags c" for g using that by (simp add: upd_cg_def)
    then show "(\<forall>c. flags (f c) = flags c) \<longrightarrow> flags (cgroups s' h) = flags (cgroups s h)"
      using run IH by (cases cg) fastforce+
  qed (rule assms(1))
  then show ?thesis using assms(2) by blast
qed

lemma set_min_mem_flags: "flags (cgroups (snd (set_min_mem cg n s)) h) = flags (cgroups s h)"
  by (auto simp: set_min_mem_def set_protect_mem_def upd_cg_def flags_def Let_def split: option.split prod.split)

lemma cgroup_delete_flags:
  assumes "cgroup_delete cwdp path type s = Some (RESULT_SUCCESS, s')" "unsafe_get_cgroup_by_path cwdp path s = Some g"
  shows "flags (cgroups s' h) = (if h = g then (enabled (cgroups s h), cparent (cgroups s h), []) else flags (cgroups s h))"
proof -
  define s1 where "s1 = (if g \<noteq> cgroup_root \<and> enabled (cgroups s g) Mem then snd (set_min_mem (Some g) 0 s) else s)"
  obtain d where c: "climb (one_less d) (cparent (cgroups (unpathed g s1) g)) (unpathed g s1) = Some s'"
    using assms by (auto simp: cgroup_delete_def Let_def s1_def unpathed_def split: if_splits)
  have "flags (one_less d c) = flags c" for c by (simp add: flags_def)
  then have "flags (cgroups s' h) = flags (cgroups (unpathed g s1) h)" using climb_keeps_flags [OF c] by blast
  moreover have "flags (cgroups s1 h) = flags (cgroups s h)" by (simp add: s1_def set_min_mem_flags)
  ultimately show ?thesis by (auto simp: unpathed_def upd_cg_def flags_def)
qed

text \<open>
  Claim C30. A group that was deleted still prevents its parent from disabling a controller: if the
  controller was enabled in a group when it was successfully removed, the parent's
  \<open>disable\<close> routine fails with \<open>RESULT_ERROR\<close> although no child is left, the separate routine of the memory controller included.
\<close>

theorem deleted_child_blocks_disable:
  assumes "cgroup_delete cwdp path type s = Some (RESULT_SUCCESS, s')" "unsafe_get_cgroup_by_path cwdp path s = Some g" "g \<noteq> 0"
    "cparent (cgroups s g) = Some p" "enabled (cgroups s g) k" "enabled (cgroups s p) k"
  shows "cgroup_dir_path (cgroups s' g) = [] \<and> disable_controller k (Some p) s' = (RESULT_ERROR, s') \<and>
    (k = Mem \<longrightarrow> unsafe_disable_mem_controller (Some p) s' = (RESULT_ERROR, s'))"
proof -
  have g: "g < NPROC" using assms(2) by (auto simp: unsafe_get_cgroup_by_path_def Let_def dest: first_slot_Some split: if_splits)
  note f = cgroup_delete_flags [OF assms(1,2)]
  have "cparent (cgroups s' g) = Some p" "enabled (cgroups s' g) k" "cgroup_dir_path (cgroups s' g) = []" "enabled (cgroups s' p) k"
    using f [of g] f [of p] assms(4-6) by (auto simp: flags_def split: if_splits)
  moreover from this have "child_enabled k p s'" using g assms(3) by (auto simp: child_enabled_def list_ex_iff intro!: bexI [of _ g])
  ultimately show ?thesis by (auto simp: disable_controller_def unsafe_disable_mem_controller_def)
qed

text \<open>A mounted root with one child that has the cpu controller enabled.\<close>

definition with_child :: "kmem \<Rightarrow> cgtable" where
  "with_child k = (zero_cgtable k)\<lparr>cgroups := (\<lambda>i.
     if i = 0 then zero_cgroup\<lparr>cgroup_dir_path := ''/c'', nr_descendants := 1, enabled := (\<lambda>k. k = Cpu)\<rparr>
     else if i = 1 then zero_cgroup\<lparr>cgroup_dir_path := ''/c/a'', cparent := Some 0, enabled := (\<lambda>k. k = Cpu)\<rparr>
     else zero_cgroup)\<rparr>"

lemma with_child_path: "unsafe_get_cgroup_by_path ''/'' ''/c/a'' (with_child k) = Some 1"
proof -
  have "format_path ''/'' ''/c/a'' = ''/c/a''" by code_simp
  then show ?thesis
    by (simp add: unsafe_get_cgroup_by_path_def with_child_def zero_cgroup_def first_slot_def NPROC_def upt_conv_Cons)
qed

theorem deleted_child_blocks_disable_witness:
  "\<exists>s'. cgroup_delete ''/'' ''/c/a'' ''unlink'' (with_child (boot_kmem (\<lambda>_. 0))) = Some (RESULT_SUCCESS, s') \<and> disable_controller Cpu (Some 0) s' = (RESULT_ERROR, s')"
proof -
  have "\<exists>s'. cgroup_delete ''/'' ''/c/a'' ''unlink'' (with_child (boot_kmem (\<lambda>_. 0))) = Some (RESULT_SUCCESS, s')"
    unfolding cgroup_delete_def with_child_path option.case Let_def
    by (simp add: with_child_def zero_cgroup_def cgroup_root_def upd_cg_def climb.simps)
  then obtain s' where "cgroup_delete ''/'' ''/c/a'' ''unlink'' (with_child (boot_kmem (\<lambda>_. 0))) = Some (RESULT_SUCCESS, s')" by blast
  from this deleted_child_blocks_disable [OF this with_child_path, of 0 Cpu] show ?thesis by (simp add: with_child_def)
qed

end
