(* ===== verification/Vm.thy ===== *)
theory Vm
  imports Cgroup_Account Kvector
begin

text \<open>
  Virtual memory: the page tables of \<open>kernel/vm.c\<close> as bytes of the allocator's memory, and
  \<open>growproc\<close> of \<open>kernel/proc.c\<close>. A page directory is the kernel address of a page; virtual and
  physical addresses are 32-bit words. The routines that only load processor registers
  (\<open>seginit\<close>, \<open>switchkvm\<close>, \<open>switchuvm\<close>) are not modelled.
\<close>

section \<open>Page table entries\<close>

definition PTE_P :: u32 where "PTE_P = 0x001"
definition PTE_W :: u32 where "PTE_W = 0x002"
definition PTE_U :: u32 where "PTE_U = 0x004"
definition NPDENTRIES :: nat where "NPDENTRIES = 1024"
definition EXTMEM :: u32 where "EXTMEM = 0x100000"
definition DEVSPACE :: u32 where "DEVSPACE = 0xFE000000"

definition PDX :: "u32 \<Rightarrow> nat" where "PDX va = unat (drop_bit 22 va AND 0x3FF)"
definition PTX :: "u32 \<Rightarrow> nat" where "PTX va = unat (drop_bit 12 va AND 0x3FF)"
definition PGADDR :: "u32 \<Rightarrow> u32 \<Rightarrow> u32 \<Rightarrow> u32" where "PGADDR d t ofs = push_bit 22 d OR push_bit 12 t OR ofs"
definition PGROUNDDOWN :: "u32 \<Rightarrow> u32" where "PGROUNDDOWN a = a AND NOT 0xFFF"
definition pgroundup32 :: "u32 \<Rightarrow> u32" where "pgroundup32 a = (a + 0xFFF) AND NOT 0xFFF"
definition PTE_ADDR :: "u32 \<Rightarrow> u32" where "PTE_ADDR pte = pte AND NOT 0xFFF"
definition PTE_FLAGS :: "u32 \<Rightarrow> u32" where "PTE_FLAGS pte = pte AND 0xFFF"

text \<open>\<open>P2V\<close> adds in \<open>uint\<close>.\<close>

definition P2V :: "u32 \<Rightarrow> nat" where "P2V pa = unat (pa + of_nat KERNBASE)"

section \<open>Page arithmetic\<close>

lemma low_bits: "w AND 0xFFF = take_bit 12 w" "w AND 0x3FF = take_bit 10 w" for w :: u32
  by (simp_all add: take_bit_eq_mask mask_eq_exp_minus_1)

lemma page_start: "w AND NOT 0xFFF = w - take_bit 12 w" for w :: u32
proof -
  have "w AND NOT (mask 12) = push_bit 12 (drop_bit 12 w)"
    by (rule bit_word_eqI) (auto simp: bit_simps)
  moreover have "(mask 12 :: u32) = 0xFFF" by (simp add: mask_eq_exp_minus_1)
  ultimately show ?thesis using bits_ident [of 12 w] by (metis add_diff_cancel_right')
qed

lemma unat_take_bit: "unat (take_bit n w) = unat w mod 2 ^ n" for w :: u32
  unfolding unsigned_take_bit_eq by (simp add: take_bit_eq_mod)

lemma unat_page_start: "unat (w AND NOT 0xFFF) = unat w div 4096 * 4096" for w :: u32
proof -
  have "unat (take_bit 12 w) = unat w mod 4096" using unat_take_bit [of 12 w] by simp
  moreover from this have "take_bit 12 w \<le> w" unfolding word_le_nat_alt by simp
  ultimately show ?thesis unfolding page_start by (simp only: unat_sub minus_mod_eq_div_mult)
qed

lemma unat_drop_bit: "unat (drop_bit n w) = unat w div 2 ^ n" for w :: u32
  unfolding unat_drop_bit_eq by (simp add: drop_bit_eq_div)

lemma PDX_eq: "PDX va = unat va div 2 ^ 22"
proof -
  have "unat va < 2 ^ 32" using unsigned_less [of va] by simp
  then have "unat va div 2 ^ 22 < 2 ^ 10" by simp
  then show ?thesis unfolding PDX_def low_bits unat_take_bit unat_drop_bit by simp
qed

lemma PTX_eq: "PTX va = unat va div 4096 mod 1024"
  unfolding PTX_def low_bits unat_take_bit unat_drop_bit by simp

section \<open>Operations\<close>

definition walkpgdir :: "nat \<Rightarrow> u32 \<Rightarrow> bool \<Rightarrow> kmem \<Rightarrow> nat \<times> kmem" where
  "walkpgdir pgdir va alloc k =
    (let pde = pgdir + 4 * PDX va in
     if bit (load32 (ram k) pde) 0 then (P2V (PTE_ADDR (load32 (ram k) pde)) + 4 * PTX va, k)
     else if \<not> alloc then (0, k)
     else (case kalloc k of (k, pgtab) \<Rightarrow>
       if pgtab = 0 then (0, k)
       else (pgtab + 4 * PTX va,
         k\<lparr>ram := store32 (memset (ram k) pgtab 0 PGSIZE) pde (of_nat (V2P pgtab) OR PTE_P OR PTE_W OR PTE_U)\<rparr>)))"

text \<open>
  The loop of \<open>mappages\<close>. \<open>a\<close> and \<open>last\<close> are page aligned, so \<open>a == last\<close> exactly when no page is left
  after this one; \<open>n\<close> counts those pages.
\<close>

fun mappages_loop :: "nat \<Rightarrow> nat \<Rightarrow> u32 \<Rightarrow> u32 \<Rightarrow> u32 \<Rightarrow> kmem \<Rightarrow> (int \<times> kmem) outcome" where
  "mappages_loop pgdir n a pa perm k =
    (case walkpgdir pgdir a True k of (pte, k) \<Rightarrow>
       if pte = 0 then Ret (- 1, k)
       else if bit (load32 (ram k) pte) 0 then Panic ''remap''
       else
         let k = k\<lparr>ram := store32 (ram k) pte (pa OR perm OR PTE_P)\<rparr> in
         case n of 0 \<Rightarrow> Ret (0, k) | Suc n \<Rightarrow> mappages_loop pgdir n (a + 0x1000) (pa + 0x1000) perm k)"

definition mappages :: "nat \<Rightarrow> u32 \<Rightarrow> u32 \<Rightarrow> u32 \<Rightarrow> u32 \<Rightarrow> kmem \<Rightarrow> (int \<times> kmem) outcome" where
  "mappages pgdir va sz pa perm k =
    (let a = PGROUNDDOWN va; last = PGROUNDDOWN (va + sz - 1)
     in mappages_loop pgdir (unat (last - a) div PGSIZE) a pa perm k)"

text \<open>
  The loop of \<open>deallocuvm\<close>: where there is no page table it goes on at the next directory entry. It
  would not end if \<open>a\<close> wrapped around below \<open>oldsz\<close>.
\<close>

partial_function (option) deallocuvm_loop :: "nat \<Rightarrow> nat \<Rightarrow> u32 \<Rightarrow> u32 \<Rightarrow> kmem \<Rightarrow> kmem outcome option" where
  "deallocuvm_loop kend pgdir a oldsz k =
    (if a < oldsz then
       let pte = fst (walkpgdir pgdir a False k) in
       if pte = 0 then deallocuvm_loop kend pgdir (PGADDR (of_nat (PDX a) + 1) 0 0 - 0x1000 + 0x1000) oldsz k
       else if bit (load32 (ram k) pte) 0 then
         let pa = PTE_ADDR (load32 (ram k) pte) in
         if pa = 0 then Some (Panic ''kfree'')
         else (case kfree kend (P2V pa) k of
                 Panic msg \<Rightarrow> Some (Panic msg)
               | Ret k \<Rightarrow> deallocuvm_loop kend pgdir (a + 0x1000) oldsz (k\<lparr>ram := store32 (ram k) pte 0\<rparr>))
       else deallocuvm_loop kend pgdir (a + 0x1000) oldsz k
     else Some (Ret k))"

definition deallocuvm :: "nat \<Rightarrow> nat \<Rightarrow> u32 \<Rightarrow> u32 \<Rightarrow> kmem \<Rightarrow> (u32 \<times> kmem) outcome option" where
  "deallocuvm kend pgdir oldsz newsz k =
    (if newsz \<ge> oldsz then Some (Ret (oldsz, k))
     else map_option (\<lambda>r. bindO r (\<lambda>k. Ret (newsz, k))) (deallocuvm_loop kend pgdir (pgroundup32 newsz) oldsz k))"

fun freevm_loop :: "nat \<Rightarrow> nat \<Rightarrow> nat list \<Rightarrow> kmem \<Rightarrow> kmem outcome" where
  "freevm_loop kend pgdir [] k = Ret k"
| "freevm_loop kend pgdir (i # is) k =
    (let pde = load32 (ram k) (pgdir + 4 * i) in
     if bit pde 0 then bindO (kfree kend (P2V (PTE_ADDR pde)) k) (freevm_loop kend pgdir is)
     else freevm_loop kend pgdir is k)"

definition freevm :: "nat \<Rightarrow> nat \<Rightarrow> kmem \<Rightarrow> kmem outcome option" where
  "freevm kend pgdir k =
    (if pgdir = 0 then Some (Panic ''freevm: no pgdir'')
     else map_option (\<lambda>r. bindO r (\<lambda>(_, k). bindO (freevm_loop kend pgdir [0..<NPDENTRIES] k) (kfree kend pgdir)))
       (deallocuvm kend pgdir (of_nat KERNBASE) 0 k))"

text \<open>The kernel's mappings; \<open>data\<close> is the start of the kernel's data, set by the linker.\<close>

definition kmap :: "u32 \<Rightarrow> (u32 \<times> u32 \<times> u32 \<times> u32) list" where
  "kmap data =
    [(of_nat KERNBASE, 0, EXTMEM, PTE_W),
     (of_nat KERNBASE + EXTMEM, EXTMEM, data - of_nat KERNBASE, 0),
     (data, data - of_nat KERNBASE, of_nat PHYSTOP, PTE_W),
     (DEVSPACE, DEVSPACE, 0, PTE_W)]"

fun setupkvm_loop :: "nat \<Rightarrow> nat \<Rightarrow> (u32 \<times> u32 \<times> u32 \<times> u32) list \<Rightarrow> kmem \<Rightarrow> (nat \<times> kmem) outcome option" where
  "setupkvm_loop kend pgdir [] k = Some (Ret (pgdir, k))"
| "setupkvm_loop kend pgdir ((virt, phys_start, phys_end, perm) # ms) k =
    (case mappages pgdir virt (phys_end - phys_start) phys_start perm k of
       Panic msg \<Rightarrow> Some (Panic msg)
     | Ret (r, k) \<Rightarrow>
        if r < 0 then map_option (\<lambda>r. bindO r (\<lambda>k. Ret (0, k))) (freevm kend pgdir k)
        else setupkvm_loop kend pgdir ms k)"

definition setupkvm :: "nat \<Rightarrow> u32 \<Rightarrow> kmem \<Rightarrow> (nat \<times> kmem) outcome option" where
  "setupkvm kend data k =
    (case kalloc k of (k, pgdir) \<Rightarrow>
       if pgdir = 0 then Some (Ret (0, k))
       else if KERNBASE + PHYSTOP > unat DEVSPACE then Some (Panic ''PHYSTOP too high'')
       else setupkvm_loop kend pgdir (kmap data) (k\<lparr>ram := memset (ram k) pgdir 0 PGSIZE\<rparr>))"

text \<open>\<open>inituvm\<close> does not look at the results of \<open>kalloc\<close> and \<open>mappages\<close>.\<close>

definition inituvm :: "nat \<Rightarrow> nat \<Rightarrow> u32 \<Rightarrow> kmem \<Rightarrow> kmem outcome" where
  "inituvm pgdir init sz k =
    (if unat sz \<ge> PGSIZE then Panic ''inituvm: more than a page''
     else case kalloc k of (k, mem) \<Rightarrow>
       bindO (mappages pgdir 0 (of_nat PGSIZE) (of_nat (V2P mem)) (PTE_W OR PTE_U) (k\<lparr>ram := memset (ram k) mem 0 PGSIZE\<rparr>)) (\<lambda>(_, k).
       Ret (k\<lparr>ram := memmove (ram k) mem init (unat sz)\<rparr>)))"

definition clearpteu :: "nat \<Rightarrow> u32 \<Rightarrow> kmem \<Rightarrow> kmem outcome" where
  "clearpteu pgdir uva k =
    (let pte = fst (walkpgdir pgdir uva False k) in
     if pte = 0 then Panic ''clearpteu''
     else Ret (k\<lparr>ram := store32 (ram k) pte (load32 (ram k) pte AND NOT PTE_U)\<rparr>))"

text \<open>\<open>n\<close> pages remain to be copied, \<open>i\<close> is the address of the next one.\<close>

fun copyuvm_loop :: "nat \<Rightarrow> nat \<Rightarrow> nat \<Rightarrow> nat \<Rightarrow> u32 \<Rightarrow> kmem \<Rightarrow> (nat \<times> kmem) outcome option" where
  "copyuvm_loop kend pgdir d 0 i k = Some (Ret (d, k))"
| "copyuvm_loop kend pgdir d (Suc n) i k =
    (let pte = fst (walkpgdir pgdir i False k);
         bad = (\<lambda>k. map_option (\<lambda>r. bindO r (\<lambda>k. Ret (0, k))) (freevm kend d k))
     in if pte = 0 then Some (Panic ''copyuvm: pte should exist'')
     else
       let w = load32 (ram k) pte in
       if \<not> bit w 0 then Some (Panic ''copyuvm: page not present'')
       else (case kalloc k of (k, mem) \<Rightarrow>
         if mem = 0 then bad k
         else (case mappages d i (of_nat PGSIZE) (of_nat (V2P mem)) (PTE_FLAGS w)
                     (k\<lparr>ram := memmove (ram k) mem (P2V (PTE_ADDR w)) PGSIZE\<rparr>) of
                 Panic msg \<Rightarrow> Some (Panic msg)
               | Ret (r, k) \<Rightarrow> if r < 0 then bad k else copyuvm_loop kend pgdir d n (i + 0x1000) k)))"

definition copyuvm :: "nat \<Rightarrow> u32 \<Rightarrow> nat \<Rightarrow> u32 \<Rightarrow> kmem \<Rightarrow> (nat \<times> kmem) outcome option" where
  "copyuvm kend data pgdir sz k =
    (case setupkvm kend data k of
       None \<Rightarrow> None
     | Some (Panic msg) \<Rightarrow> Some (Panic msg)
     | Some (Ret (d, k)) \<Rightarrow>
        if d = 0 then Some (Ret (0, k)) else copyuvm_loop kend pgdir d (PGROUNDUP (unat sz) div PGSIZE) 0 k)"

text \<open>
  \<open>uva2ka\<close> reads through the result of \<open>walkpgdir\<close> without a test: with no page table it reads the word
  at address 0.
\<close>

definition uva2ka :: "nat \<Rightarrow> u32 \<Rightarrow> kmem \<Rightarrow> nat" where
  "uva2ka pgdir uva k =
    (let w = load32 (ram k) (fst (walkpgdir pgdir uva False k)) in
     if w AND PTE_P = 0 then 0 else if w AND PTE_U = 0 then 0 else P2V (PTE_ADDR w))"

function copyout :: "nat \<Rightarrow> u32 \<Rightarrow> nat \<Rightarrow> u32 \<Rightarrow> kmem \<Rightarrow> int \<times> kmem" where
  "copyout pgdir va buf len k =
    (if len > 0 then
       let va0 = PGROUNDDOWN va; pa0 = uva2ka pgdir va0 k in
       if pa0 = 0 then (- 1, k)
       else
         let n = 0x1000 - (va - va0); n = (if n > len then len else n) in
         copyout pgdir (va0 + 0x1000) (buf + unat n) (len - n) (k\<lparr>ram := memmove (ram k) (pa0 + unat (va - va0)) buf (unat n)\<rparr>)
     else (0, k))"
  by pat_completeness auto

termination
proof (relation "measure (\<lambda>(pgdir, va, buf, len, k). unat len)")
  fix pgdir va buf len k va0 pa0 n n'
  assume len: "(0 :: u32) < len" and va0: "va0 = PGROUNDDOWN va" and n: "n = 0x1000 - (va - va0)" "n' = (if n > len then len else n)"
  have "va - va0 = take_bit 12 va" by (simp only: va0 PGROUNDDOWN_def page_start) simp
  then have "unat (va - va0) < 4096" using unat_take_bit [of 12 va] by simp
  then have "n \<noteq> 0" using n(1) by (auto simp: unsigned_eq_0_iff dest: arg_cong [where f = unat])
  then have "n' \<noteq> 0" "n' \<le> len" using n(2) len by auto
  moreover from this have "0 < unat n'" by (simp add: unat_gt_0)
  ultimately have "unat (len - n') < unat len" by (simp add: unat_sub word_le_nat_alt)
  then show "((pgdir, va0 + 0x1000, buf + unat n', len - n', k\<lparr>ram := memmove (ram k) (pa0 + unat (va - va0)) buf (unat n')\<rparr>), pgdir, va, buf, len, k)
    \<in> measure (\<lambda>(pgdir, va, buf, len, k). unat len)" by simp
qed simp

section \<open>Growing a process\<close>

text \<open>The loop of \<open>allocuvm\<close>, with the counters \<open>set_cnt\<close> and \<open>pg_cnt\<close>; \<open>n\<close> pages remain.\<close>

fun allocuvm_loop :: "nat \<Rightarrow> nat \<Rightarrow> nat \<Rightarrow> nat \<Rightarrow> u32 \<Rightarrow> u32 \<Rightarrow> u32 \<Rightarrow> int \<Rightarrow> u32 \<Rightarrow> cgtable \<Rightarrow> (u32 \<times> cgtable) outcome option" where
  "allocuvm_loop kend pgdir g 0 a oldsz newsz set_cnt pg_cnt s =
    Some (Ret (newsz, upd_cg g (\<lambda>c. c\<lparr>current_page := current_page c + pg_cnt\<rparr>) s))"
| "allocuvm_loop kend pgdir g (Suc n) a oldsz newsz set_cnt pg_cnt s =
    (case dec_protect_mem g s of (r, s) \<Rightarrow>
     let set_cnt = (if r = 0 then set_cnt + 1 else set_cnt);
         undo = (\<lambda>after k. map_option (\<lambda>r. bindO r (\<lambda>(_, k). bindO (after k) (\<lambda>k. Ret (0, inc_protect_mem g set_cnt (s\<lparr>cmem := k\<rparr>)))))
           (deallocuvm kend pgdir newsz oldsz k))
     in case kalloc (cmem s) of (k, mem) \<Rightarrow>
       if mem = 0 then undo Ret k
       else
         (case mappages pgdir a (of_nat PGSIZE) (of_nat (V2P mem)) (PTE_W OR PTE_U) (k\<lparr>ram := memset (ram k) mem 0 PGSIZE\<rparr>) of
            Panic msg \<Rightarrow> Some (Panic msg)
          | Ret (r, k) \<Rightarrow>
             if r < 0 then undo (kfree kend mem) k
             else allocuvm_loop kend pgdir g n (a + 0x1000) oldsz newsz set_cnt (pg_cnt + 1) (s\<lparr>cmem := k\<rparr>)))"

definition allocuvm :: "nat \<Rightarrow> nat \<Rightarrow> u32 \<Rightarrow> u32 \<Rightarrow> nat \<Rightarrow> cgtable \<Rightarrow> (u32 \<times> cgtable) outcome option" where
  "allocuvm kend pgdir oldsz newsz g s =
    (if unat newsz \<ge> KERNBASE then Some (Ret (0, s))
     else if newsz < oldsz then Some (Ret (oldsz, s))
     else
       let a = pgroundup32 oldsz
       in allocuvm_loop kend pgdir g (PGROUNDUP (unat newsz - unat a) div PGSIZE) a oldsz newsz 0 0 s)"

definition grow_commit :: "nat \<Rightarrow> nat \<Rightarrow> u32 \<Rightarrow> u32 \<Rightarrow> cgtable \<Rightarrow> (int \<times> cgtable) outcome option" where
  "grow_commit p g n sz s =
    map_option (\<lambda>s. Ret (0, s)) (climb (\<lambda>c. c\<lparr>current_mem := current_mem c + n\<rparr>) (Some g) (s\<lparr>psz := (psz s)(p := sz)\<rparr>))"

text \<open>\<open>growproc\<close> for process \<open>p\<close> with page directory \<open>pgdir\<close> in group \<open>g\<close>.\<close>

definition growproc :: "nat \<Rightarrow> nat \<Rightarrow> nat \<Rightarrow> nat \<Rightarrow> u32 \<Rightarrow> cgtable \<Rightarrow> (int \<times> cgtable) outcome option" where
  "growproc kend pgdir p g n s =
    (let c = cgroups s g in
     if sint n > 0 \<and> enabled c Mem \<and> current_mem c + n > max_mem c then Some (Ret (- 1, s))
     else if sint n > 0 then
       (case allocuvm kend pgdir (psz s p) (psz s p + n) g s of
          None \<Rightarrow> None
        | Some (Panic msg) \<Rightarrow> Some (Panic msg)
        | Some (Ret (sz, s)) \<Rightarrow> if sz = 0 then Some (Ret (- 1, s)) else grow_commit p g n sz s)
     else if sint n < 0 then
       (case deallocuvm kend pgdir (psz s p) (psz s p + n) (cmem s) of
          None \<Rightarrow> None
        | Some (Panic msg) \<Rightarrow> Some (Panic msg)
        | Some (Ret (sz, k)) \<Rightarrow>
           let s = s\<lparr>cmem := k\<rparr> in
           if sz = 0 then Some (Ret (- 1, s)) else grow_commit p g n sz (update_protect_mem g (psz s p) sz s))
     else grow_commit p g n (psz s p) s)"

section \<open>Translation\<close>

text \<open>What the processor finds for a virtual address: the entry of its page, if present.\<close>

definition translate :: "mem \<Rightarrow> nat \<Rightarrow> u32 \<Rightarrow> u32 option" where
  "translate m pgdir va =
    (let pde = load32 m (pgdir + 4 * PDX va) in
     if bit pde 0 then
       let pte = load32 m (P2V (PTE_ADDR pde) + 4 * PTX va) in if bit pte 0 then Some pte else None
     else None)"

text \<open>
  A page directory the allocator knows nothing of: the directory and its page tables are different
  pages in use.
\<close>

definition table :: "mem \<Rightarrow> nat \<Rightarrow> nat \<Rightarrow> nat" where
  "table m pgdir i = P2V (PTE_ADDR (load32 m (pgdir + 4 * i)))"

definition vm_ok :: "nat \<Rightarrow> nat \<Rightarrow> kmem \<Rightarrow> bool" where
  "vm_ok kend pgdir k =
    (kmem_inv kend k \<and> managed kend pgdir \<and> pgdir \<notin> set (free_pages k) \<and>
     (\<forall>i<NPDENTRIES. bit (load32 (ram k) (pgdir + 4 * i)) 0 \<longrightarrow>
        managed kend (table (ram k) pgdir i) \<and> table (ram k) pgdir i \<notin> set (free_pages k) \<and> table (ram k) pgdir i \<noteq> pgdir) \<and>
     (\<forall>i<NPDENTRIES. \<forall>j<NPDENTRIES. bit (load32 (ram k) (pgdir + 4 * i)) 0 \<longrightarrow> bit (load32 (ram k) (pgdir + 4 * j)) 0 \<longrightarrow>
        table (ram k) pgdir i = table (ram k) pgdir j \<longrightarrow> i = j))"

lemma PDX_less [simp]: "PDX va < NPDENTRIES"
proof -
  have "unat va < 2 ^ 32" using unsigned_less [of va] by simp
  then show ?thesis unfolding PDX_eq NPDENTRIES_def by simp
qed

lemma PTX_less [simp]: "PTX va < 1024"
  by (simp add: PTX_eq)

lemma page_of_indices: "PDX a = PDX b \<and> PTX a = PTX b \<longleftrightarrow> drop_bit 12 a = drop_bit 12 b"
proof -
  have "PDX a = unat a div 4096 div 1024" for a by (simp add: PDX_eq div_mult2_eq [symmetric])
  then have "PDX a = PDX b \<and> PTX a = PTX b \<longleftrightarrow> unat a div 4096 = unat b div 4096"
    unfolding PTX_eq by (metis div_mult_mod_eq)
  also have "\<dots> \<longleftrightarrow> drop_bit 12 a = drop_bit 12 b" unfolding word_unat_eq_iff unat_drop_bit by simp
  finally show ?thesis .
qed

lemma and_not_flags: "unat f < 4096 \<Longrightarrow> (w OR f) AND NOT 0xFFF = w AND NOT 0xFFF" for w f :: u32
proof -
  assume "unat f < 4096"
  then have "f AND NOT 0xFFF = 0" unfolding word_unat_eq_iff unat_page_start by simp
  then show ?thesis unfolding bit.conj_disj_distrib2 by (metis or.right_neutral)
qed

lemma aligned_and_not: "4096 dvd unat w \<Longrightarrow> w AND NOT 0xFFF = w" for w :: u32
  unfolding word_unat_eq_iff unat_page_start by simp

lemma managed_V2P:
  assumes "managed kend r" "KERNBASE \<le> kend"
  shows "unat (of_nat (V2P r) :: u32) = r - KERNBASE" "4096 dvd unat (of_nat (V2P r) :: u32)" "P2V (of_nat (V2P r)) = r"
proof -
  have r: "KERNBASE \<le> r" "r < 2 ^ 32" "4096 dvd r" "r - KERNBASE < 2 ^ 32"
    using assms managed_bounds [OF assms] by (auto simp: managed_def PGSIZE_def mod_eq_0_iff_dvd)
  then have v: "V2P r = r - KERNBASE" by (simp add: V2P_eq)
  show u: "unat (of_nat (V2P r) :: u32) = r - KERNBASE" using r(4) by (simp add: v unsigned_of_nat take_bit_nat_eq_self_iff)
  show "4096 dvd unat (of_nat (V2P r) :: u32)" unfolding u using r(3) by (intro dvd_diff_nat) (auto simp: KERNBASE_def)
  have "unat (of_nat KERNBASE :: u32) = KERNBASE" by (simp add: KERNBASE_def)
  moreover have "unat (of_nat (V2P r) :: u32) + unat (of_nat KERNBASE :: u32) < 2 ^ LENGTH(32)" using u r by (simp add: KERNBASE_def)
  ultimately have "unat (of_nat (V2P r) + of_nat KERNBASE :: u32) = r - KERNBASE + KERNBASE"
    using u by (subst unat_add_lem [THEN iffD1]) simp_all
  then show "P2V (of_nat (V2P r)) = r" using r(1) by (simp add: P2V_def)
qed

lemma P2V_V2P:
  assumes "managed kend r" "KERNBASE \<le> kend"
  shows "P2V (PTE_ADDR (of_nat (V2P r) OR PTE_P OR PTE_W OR PTE_U)) = r"
proof -
  have f: "unat (PTE_P OR PTE_W OR PTE_U) < 4096" by (simp add: PTE_P_def PTE_W_def PTE_U_def)
  show ?thesis
    unfolding PTE_ADDR_def and_not_flags [OF f] aligned_and_not [OF managed_V2P(2) [OF assms]]
    by (rule managed_V2P(3) [OF assms])
qed

lemma slot_bounds: "managed kend q \<Longrightarrow> i < 1024 \<Longrightarrow> managed kend r \<Longrightarrow> q \<noteq> r \<Longrightarrow> q + 4 * i + 4 \<le> r \<or> r + PGSIZE \<le> q + 4 * i"
  using managed_apart [of kend q r] by (auto simp: PGSIZE_def)

text \<open>The memory after a new page table \<open>r\<close> is cleared and entered at index \<open>d\<close> of the directory.\<close>

definition with_table :: "mem \<Rightarrow> nat \<Rightarrow> nat \<Rightarrow> nat \<Rightarrow> mem" where
  "with_table m pgdir d r = store32 (memset m r 0 PGSIZE) (pgdir + 4 * d) (of_nat (V2P r) OR PTE_P OR PTE_W OR PTE_U)"

lemma with_table_mem:
  assumes "managed kend pgdir" "managed kend r" "r \<noteq> pgdir" "KERNBASE \<le> kend" "d < NPDENTRIES"
  shows "i < NPDENTRIES \<Longrightarrow> bit (load32 (with_table m pgdir d r) (pgdir + 4 * i)) 0 \<longleftrightarrow> i = d \<or> bit (load32 m (pgdir + 4 * i)) 0"
    "i < NPDENTRIES \<Longrightarrow> table (with_table m pgdir d r) pgdir i = (if i = d then r else table m pgdir i)"
    "managed kend q \<Longrightarrow> q \<noteq> pgdir \<Longrightarrow> j < 1024 \<Longrightarrow> load32 (with_table m pgdir d r) (q + 4 * j) = (if q = r then 0 else load32 m (q + 4 * j))"
    "managed kend q \<Longrightarrow> q \<noteq> pgdir \<Longrightarrow> q \<noteq> r \<Longrightarrow> x < PGSIZE \<Longrightarrow> with_table m pgdir d r (q + x) = m (q + x)"
proof -
  let ?w = "of_nat (V2P r) OR PTE_P OR PTE_W OR PTE_U :: u32"
  have dir: "load32 (with_table m pgdir d r) (pgdir + 4 * i) = (if i = d then ?w else load32 m (pgdir + 4 * i))" if i: "i < NPDENTRIES" for i
  proof -
    have far: "pgdir + 4 * i + 4 \<le> r \<or> r + PGSIZE \<le> pgdir + 4 * i"
      using slot_bounds [OF assms(1) _ assms(2)] assms(3) i by (simp add: NPDENTRIES_def)
    have "pgdir + 4 * d + 4 \<le> pgdir + 4 * i \<or> pgdir + 4 * i + 4 \<le> pgdir + 4 * d" if "i \<noteq> d" using that by linarith
    then show ?thesis using far by (auto simp: with_table_def load32_store32_other load32_memset)
  qed
  have "bit ?w 0" by (simp add: bit_or_iff PTE_P_def)
  then show "i < NPDENTRIES \<Longrightarrow> bit (load32 (with_table m pgdir d r) (pgdir + 4 * i)) 0 \<longleftrightarrow> i = d \<or> bit (load32 m (pgdir + 4 * i)) 0"
    using dir by auto
  show "i < NPDENTRIES \<Longrightarrow> table (with_table m pgdir d r) pgdir i = (if i = d then r else table m pgdir i)"
    using dir P2V_V2P [OF assms(2,4)] by (simp add: table_def)
  have d: "4 * d + 4 \<le> PGSIZE" using assms(5) by (simp add: NPDENTRIES_def PGSIZE_def)
  show "load32 (with_table m pgdir d r) (q + 4 * j) = (if q = r then 0 else load32 m (q + 4 * j))" if "managed kend q" "q \<noteq> pgdir" "j < 1024"
  proof -
    have "pgdir + 4 * d + 4 \<le> q + 4 * j \<or> q + 4 * j + 4 \<le> pgdir + 4 * d"
      using managed_apart [OF that(1) assms(1) that(2)] that(3) d by (auto simp: PGSIZE_def)
    then have "load32 (with_table m pgdir d r) (q + 4 * j) = load32 (memset m r 0 PGSIZE) (q + 4 * j)"
      by (simp add: with_table_def load32_store32_other)
    moreover have "q + 4 * j + 4 \<le> r \<or> r + PGSIZE \<le> q + 4 * j" if "q \<noteq> r"
      using slot_bounds [OF \<open>managed kend q\<close> \<open>j < 1024\<close> assms(2) that] .
    ultimately show ?thesis using that(3) by (auto simp: load32_memset load32_zeroed PGSIZE_def)
  qed
  show "with_table m pgdir d r (q + x) = m (q + x)" if "managed kend q" "q \<noteq> pgdir" "q \<noteq> r" "x < PGSIZE"
    using managed_apart [OF that(1) assms(1) that(2)] managed_apart [OF that(1) assms(2) that(3)] that(4) d
    by (auto simp: with_table_def memset_apply)
qed

text \<open>A new page table changes no translation.\<close>

lemma with_table_ok:
  assumes ok: "vm_ok kend pgdir k" and a: "kalloc k = (k1, r)" "r \<noteq> 0" and d: "d < NPDENTRIES" "\<not> bit (load32 (ram k) (pgdir + 4 * d)) 0"
  defines "k' \<equiv> k1\<lparr>ram := with_table (ram k1) pgdir d r\<rparr>"
  shows "vm_ok kend pgdir k'" "translate (ram k') pgdir va = translate (ram k) pgdir va" "table (ram k') pgdir d = r"
    "bit (load32 (ram k') (pgdir + 4 * d)) 0"
proof -
  have inv: "kmem_inv kend k" and pd: "managed kend pgdir" "pgdir \<notin> set (free_pages k)"
    and old: "\<And>i. i < NPDENTRIES \<Longrightarrow> bit (load32 (ram k) (pgdir + 4 * i)) 0 \<Longrightarrow> managed kend (table (ram k) pgdir i) \<and>
      table (ram k) pgdir i \<notin> set (free_pages k) \<and> table (ram k) pgdir i \<noteq> pgdir"
    and inj: "\<And>i j. i < NPDENTRIES \<Longrightarrow> j < NPDENTRIES \<Longrightarrow> bit (load32 (ram k) (pgdir + 4 * i)) 0 \<Longrightarrow>
      bit (load32 (ram k) (pgdir + 4 * j)) 0 \<Longrightarrow> table (ram k) pgdir i = table (ram k) pgdir j \<Longrightarrow> i = j"
    using ok by (auto simp: vm_ok_def)
  have k1: "kmem_inv kend k1" "free_pages k = r # free_pages k1" using kalloc_inv [OF inv a(1)] a(2) by (auto split: if_splits)
  have ram: "ram k1 = ram k" using kalloc_ram [OF a(1)] .
  have kend: "KERNBASE \<le> kend" and free: "\<forall>q\<in>set (free_pages k). managed kend q" "distinct (free_pages k)"
    using inv by (auto simp: kmem_inv_def Let_def list_all_iff)
  have r: "managed kend r" "r \<noteq> pgdir" "r \<notin> set (free_pages k1)" using free k1(2) pd by auto
  note wt = with_table_mem [OF pd(1) r(1,2) kend d(1), where m = "ram k"]
  have m: "ram k' = with_table (ram k) pgdir d r" by (simp add: k'_def ram)
  have k': "kmem_inv kend k' \<and> free_pages k' = free_pages k1" unfolding k'_def
  proof (rule kmem_inv_frame [OF k1(1)])
    fix q i assume q: "q \<in> set (free_pages k1)" "i < PGSIZE"
    have "managed kend q" "q \<noteq> pgdir" "q \<noteq> r" using q(1) free k1(2) pd(2) by auto
    then show "with_table (ram k1) pgdir d r (q + i) = ram k1 (q + i)" using wt(4) q(2) by (simp add: ram)
  qed
  have now: "table (ram k') pgdir i = (if i = d then r else table (ram k) pgdir i)"
    "bit (load32 (ram k') (pgdir + 4 * i)) 0 \<longleftrightarrow> i = d \<or> bit (load32 (ram k) (pgdir + 4 * i)) 0" if "i < NPDENTRIES" for i
    using wt(1,2) that by (simp_all add: m)
  have new: "table (ram k) pgdir i \<noteq> r" if "i < NPDENTRIES" "bit (load32 (ram k) (pgdir + 4 * i)) 0" for i
    using old [OF that] k1(2) by auto
  show "table (ram k') pgdir d = r" "bit (load32 (ram k') (pgdir + 4 * d)) 0" using now d(1) by simp_all
  have "managed kend (table (ram k') pgdir i) \<and> table (ram k') pgdir i \<notin> set (free_pages k') \<and> table (ram k') pgdir i \<noteq> pgdir"
    if "i < NPDENTRIES" "bit (load32 (ram k') (pgdir + 4 * i)) 0" for i
    using now [OF that(1)] old [OF that(1)] that(2) r k' k1(2) by auto
  moreover have "i = j" if "i < NPDENTRIES" "j < NPDENTRIES" "bit (load32 (ram k') (pgdir + 4 * i)) 0" "bit (load32 (ram k') (pgdir + 4 * j)) 0"
      "table (ram k') pgdir i = table (ram k') pgdir j" for i j
  proof -
    have b: "i = d \<or> bit (load32 (ram k) (pgdir + 4 * i)) 0" "j = d \<or> bit (load32 (ram k) (pgdir + 4 * j)) 0"
      using now(2) that(1-4) by blast+
    have t: "(if i = d then r else table (ram k) pgdir i) = (if j = d then r else table (ram k) pgdir j)"
      using now(1) that(1,2,5) by metis
    show ?thesis
    proof (cases "i = d \<or> j = d")
      case True
      then show ?thesis using t b new [OF that(1)] new [OF that(2)] by (auto split: if_splits)
    next
      case False
      then show ?thesis using inj [OF that(1,2)] b t by simp
    qed
  qed
  ultimately show "vm_ok kend pgdir k'" using k' pd k1(2) unfolding vm_ok_def by auto
  show "translate (ram k') pgdir va = translate (ram k) pgdir va"
  proof (cases "bit (load32 (ram k) (pgdir + 4 * PDX va)) 0")
    case True
    then have q: "managed kend (table (ram k) pgdir (PDX va))" "table (ram k) pgdir (PDX va) \<noteq> pgdir" "PDX va \<noteq> d"
      using old [OF PDX_less] d(2) by auto
    have "load32 (ram k') (table (ram k) pgdir (PDX va) + 4 * PTX va) = load32 (ram k) (table (ram k) pgdir (PDX va) + 4 * PTX va)"
      using wt(3) [OF q(1,2) PTX_less] new [OF PDX_less True] by (simp add: m)
    then show ?thesis using True now [OF PDX_less, of va] q(3) by (simp add: translate_def Let_def table_def)
  next
    case False
    have "load32 (ram k') (r + 4 * PTX va) = 0" using wt(3) [OF r(1,2) PTX_less] by (simp add: m)
    then show ?thesis using False now [OF PDX_less, of va] by (auto simp: translate_def Let_def table_def)
  qed
qed

lemma walkpgdir_alloc:
  assumes ok: "vm_ok kend pgdir k" and w: "walkpgdir pgdir va True k = (pte, k')" "pte \<noteq> 0"
  shows "vm_ok kend pgdir k' \<and> bit (load32 (ram k') (pgdir + 4 * PDX va)) 0 \<and> pte = table (ram k') pgdir (PDX va) + 4 * PTX va \<and>
    translate (ram k') pgdir va' = translate (ram k) pgdir va'"
proof (cases "bit (load32 (ram k) (pgdir + 4 * PDX va)) 0")
  case True
  then show ?thesis using ok w by (auto simp: walkpgdir_def Let_def table_def)
next
  case False
  obtain k1 r where a: "kalloc k = (k1, r)" by force
  then have "r \<noteq> 0" "k' = k1\<lparr>ram := with_table (ram k1) pgdir (PDX va) r\<rparr>" "pte = r + 4 * PTX va"
    using w False by (auto simp: walkpgdir_def Let_def with_table_def split: if_splits)
  then show ?thesis using with_table_ok [OF ok a _ PDX_less False] by simp
qed

text \<open>Storing an entry changes the translation of its page only.\<close>

lemma store_pte:
  fixes w :: u32
  assumes ok: "vm_ok kend pgdir k" and p: "bit (load32 (ram k) (pgdir + 4 * PDX va)) 0"
  defines "k' \<equiv> k\<lparr>ram := store32 (ram k) (table (ram k) pgdir (PDX va) + 4 * PTX va) w\<rparr>"
  shows "vm_ok kend pgdir k'"
    "translate (ram k') pgdir va' = (if drop_bit 12 va' = drop_bit 12 va then if bit w 0 then Some w else None else translate (ram k) pgdir va')"
proof -
  let ?t = "table (ram k) pgdir (PDX va)"
  have inv: "kmem_inv kend k" and pd: "managed kend pgdir" "pgdir \<notin> set (free_pages k)"
    and old: "\<And>i. i < NPDENTRIES \<Longrightarrow> bit (load32 (ram k) (pgdir + 4 * i)) 0 \<Longrightarrow> managed kend (table (ram k) pgdir i) \<and>
      table (ram k) pgdir i \<notin> set (free_pages k) \<and> table (ram k) pgdir i \<noteq> pgdir"
    and inj: "\<And>i j. i < NPDENTRIES \<Longrightarrow> j < NPDENTRIES \<Longrightarrow> bit (load32 (ram k) (pgdir + 4 * i)) 0 \<Longrightarrow>
      bit (load32 (ram k) (pgdir + 4 * j)) 0 \<Longrightarrow> table (ram k) pgdir i = table (ram k) pgdir j \<Longrightarrow> i = j"
    using ok by (auto simp: vm_ok_def)
  have t: "managed kend ?t" "?t \<notin> set (free_pages k)" "?t \<noteq> pgdir" using old [OF PDX_less p] by auto
  have x: "4 * PTX va + 4 \<le> PGSIZE" using PTX_less [of va] unfolding PGSIZE_def by linarith
  have m: "ram k' = store32 (ram k) (?t + 4 * PTX va) w" by (simp add: k'_def)
  have far: "ram k' (q + i) = ram k (q + i)" if "managed kend q" "q \<noteq> ?t" "i < PGSIZE" for q i
    using managed_apart [OF that(1) t(1) that(2)] that(3) x by (auto simp: m)
  have far32: "load32 (ram k') (q + 4 * i) = load32 (ram k) (q + 4 * i)" if "managed kend q" "q \<noteq> ?t" "i < 1024" for q i
    by (rule load32_cong) (use far [OF that(1,2)] that(3) in \<open>simp add: PGSIZE_def add.assoc\<close>)
  have dir: "load32 (ram k') (pgdir + 4 * i) = load32 (ram k) (pgdir + 4 * i)" if "i < NPDENTRIES" for i
    using far32 [OF pd(1) t(3) [symmetric]] that by (simp add: NPDENTRIES_def)
  have tab: "table (ram k') pgdir i = table (ram k) pgdir i" if "i < NPDENTRIES" for i using dir [OF that] by (simp add: table_def)
  have k': "kmem_inv kend k' \<and> free_pages k' = free_pages k" unfolding k'_def
  proof (rule kmem_inv_frame [OF inv])
    fix q i assume q: "q \<in> set (free_pages k)" "i < PGSIZE"
    have "managed kend q" "q \<noteq> ?t" using q(1) inv t(2) by (auto simp: kmem_inv_def Let_def list_all_iff)
    then show "store32 (ram k) (?t + 4 * PTX va) w (q + i) = ram k (q + i)" using far q(2) by (simp add: m)
  qed
  then show "vm_ok kend pgdir k'" using ok unfolding vm_ok_def by (simp add: dir tab)
  show "translate (ram k') pgdir va' = (if drop_bit 12 va' = drop_bit 12 va then if bit w 0 then Some w else None else translate (ram k) pgdir va')"
  proof (cases "bit (load32 (ram k) (pgdir + 4 * PDX va')) 0")
    case False
    then have "PDX va' \<noteq> PDX va" using p by auto
    then have "drop_bit 12 va' \<noteq> drop_bit 12 va" using page_of_indices by blast
    then show ?thesis using False dir [OF PDX_less, of va'] by (simp add: translate_def)
  next
    case True
    let ?q = "table (ram k) pgdir (PDX va')"
    have tr: "translate (ram k') pgdir va' = (let pte = load32 (ram k') (?q + 4 * PTX va') in if bit pte 0 then Some pte else None)"
      using True dir [OF PDX_less, of va'] by (simp add: translate_def table_def)
    show ?thesis
    proof (cases "PDX va' = PDX va")
      case eq: True
      have "?q + 4 * PTX va' + 4 \<le> ?t + 4 * PTX va \<or> ?t + 4 * PTX va + 4 \<le> ?q + 4 * PTX va'" if "PTX va' \<noteq> PTX va"
        unfolding eq using that by linarith
      then have "load32 (ram k') (?q + 4 * PTX va') = (if PTX va' = PTX va then w else load32 (ram k) (?q + 4 * PTX va'))"
        using eq by (auto simp: m load32_store32_other)
      then show ?thesis using tr eq page_of_indices [of va' va] True by (simp add: translate_def table_def)
    next
      case False
      then have "?q \<noteq> ?t" using inj [OF PDX_less PDX_less True p] by auto
      moreover have "drop_bit 12 va' \<noteq> drop_bit 12 va" using False page_of_indices by blast
      ultimately show ?thesis using tr True far32 [OF _ _ PTX_less] old [OF PDX_less True] by (simp add: translate_def table_def)
    qed
  qed
qed

section \<open>Mapping\<close>

lemma aligned_page_index:
  fixes a d :: u32
  assumes "4096 dvd unat a"
  shows "drop_bit 12 va = drop_bit 12 a \<longleftrightarrow> unat (va - a) div 4096 = 0"
proof -
  obtain q where q: "unat a = 4096 * q" using assms by (elim dvdE)
  have b: "unat va < 2 ^ 32" using unsigned_less [of va] by simp
  have l: "unat a < 2 ^ 32" using unsigned_less [of a] by simp
  have "unat (va - a) = (if unat a \<le> unat va then unat va - unat a else unat va + 2 ^ 32 - unat a)"
    by (simp add: unat_sub_if_size word_size)
  moreover have "unat va div 4096 = q \<longleftrightarrow> unat a \<le> unat va \<and> unat va - unat a < 4096" unfolding q by (auto simp: div_nat_eqI)
  moreover have "unat va + 2 ^ 32 - unat a \<ge> 4096" if "unat va < unat a" using that q l by (cases "q = 0") auto
  ultimately show ?thesis unfolding word_unat_eq_iff unat_drop_bit q by (auto split: if_splits)
qed

lemma next_page_index:
  fixes d :: u32
  shows "unat (d - 0x1000) div 4096 = (if unat d div 4096 = 0 then 2 ^ 20 - 1 else unat d div 4096 - 1)"
proof -
  have "unat (d - 0x1000) = (if 4096 \<le> unat d then unat d - 4096 else unat d + 2 ^ 32 - 4096)"
    by (simp add: unat_sub_if_size word_size)
  moreover have "(unat d + 2 ^ 32 - 4096) div 4096 = 2 ^ 20 - 1" if "unat d < 4096"
    by (rule div_nat_eqI) (use that in simp_all)
  moreover have "unat d div 4096 = Suc ((unat d - 4096) div 4096)" if "4096 \<le> unat d" using le_div_geq [OF _ that] by simp
  ultimately show ?thesis by (cases "4096 \<le> unat d") simp_all
qed

lemma walkpgdir_fail:
  assumes "vm_ok kend pgdir k" "walkpgdir pgdir va True k = (0, k')"
  shows "k' = k"
proof (cases "bit (load32 (ram k) (pgdir + 4 * PDX va)) 0")
  case True
  then have "managed kend (table (ram k) pgdir (PDX va))" "KERNBASE \<le> kend"
    using assms(1) PDX_less [of va] by (auto simp: vm_ok_def kmem_inv_def Let_def)
  then have "table (ram k) pgdir (PDX va) \<noteq> 0" using managed_bounds by blast
  then show ?thesis using assms(2) True by (auto simp: walkpgdir_def Let_def table_def)
next
  case False
  obtain k1 r where a: "kalloc k = (k1, r)" by force
  moreover have "k1 = k" if "r = 0" using kalloc_inv [of kend k k1 r] a that assms(1) by (auto simp: vm_ok_def split: if_splits)
  ultimately show ?thesis using assms(2) False by (auto simp: walkpgdir_def Let_def split: if_splits)
qed

text \<open>One round of the loop of \<open>mappages\<close>: it fails, or goes on with the entry stored.\<close>

lemma mappages_round:
  assumes "vm_ok kend pgdir k" "mappages_loop pgdir n a pa perm k = Ret (r, k')"
  obtains "r = - 1" "k' = k"
  | k1 where "vm_ok kend pgdir k1" "translate (ram k) pgdir a = None"
      "\<And>va. translate (ram k1) pgdir va = (if drop_bit 12 va = drop_bit 12 a then Some (pa OR perm OR PTE_P) else translate (ram k) pgdir va)"
      "(case n of 0 \<Rightarrow> Ret (0, k1) | Suc n \<Rightarrow> mappages_loop pgdir n (a + 0x1000) (pa + 0x1000) perm k1) = Ret (r, k')"
proof -
  obtain pte k0 where w: "walkpgdir pgdir a True k = (pte, k0)" by force
  show ?thesis
  proof (cases "pte = 0")
    case True
    then show ?thesis using that(1) assms(2) w walkpgdir_fail [OF assms(1)] by (auto simp: mappages_loop.simps [of pgdir n])
  next
    case False
    note wa = walkpgdir_alloc [OF assms(1) w False]
    let ?k = "k0\<lparr>ram := store32 (ram k0) pte (pa OR perm OR PTE_P)\<rparr>"
    have run: "\<not> bit (load32 (ram k0) pte) 0"
      "(case n of 0 \<Rightarrow> Ret (0, ?k) | Suc n \<Rightarrow> mappages_loop pgdir n (a + 0x1000) (pa + 0x1000) perm ?k) = Ret (r, k')"
      using assms(2) w False by (auto simp: mappages_loop.simps [of pgdir n] Let_def split: if_splits)
    have "bit (pa OR perm OR PTE_P) 0" by (simp add: bit_or_iff PTE_P_def)
    then have "vm_ok kend pgdir ?k" "translate (ram ?k) pgdir va =
        (if drop_bit 12 va = drop_bit 12 a then Some (pa OR perm OR PTE_P) else translate (ram k) pgdir va)" for va
      using store_pte [of kend pgdir k0 a "pa OR perm OR PTE_P"] wa by auto
    moreover have "translate (ram k) pgdir a = None"
      using wa [of a] run(1) by (auto simp: translate_def Let_def table_def)
    ultimately show ?thesis using that(2) run(2) by blast
  qed
qed

declare mappages_loop.simps [simp del]

lemma mappages_loop_spec:
  assumes "vm_ok kend pgdir k" "mappages_loop pgdir n a pa perm k = Ret (r, k')" "4096 dvd unat a" "n < 2 ^ 20"
  shows "vm_ok kend pgdir k' \<and> (r = 0 \<longrightarrow> (\<forall>va. translate (ram k') pgdir va =
    (if unat (va - a) div 4096 \<le> n then Some ((pa + of_nat (4096 * (unat (va - a) div 4096))) OR perm OR PTE_P) else translate (ram k) pgdir va)))"
  using assms
proof (induction n arbitrary: a pa k)
  case (0 a pa k)
  from 0(1,2) show ?case
    by (cases rule: mappages_round) (use 0 aligned_page_index [OF 0(3)] in auto)
next
  case (Suc n a pa k)
  from Suc.prems(1,2) show ?case
  proof (cases rule: mappages_round)
    case (2 k1)
    have al: "4096 dvd unat (a + 0x1000)"
    proof -
      have "unat (a + 0x1000) = (unat a + 4096) mod 2 ^ 32" by (simp add: unat_word_ariths)
      then show ?thesis using Suc.prems(3) by (simp add: dvd_mod)
    qed
    have run: "mappages_loop pgdir n (a + 0x1000) (pa + 0x1000) perm k1 = Ret (r, k')" using 2(4) by simp
    have IH: "vm_ok kend pgdir k'" "r = 0 \<Longrightarrow> translate (ram k') pgdir va = (if unat (va - (a + 0x1000)) div 4096 \<le> n
        then Some ((pa + 0x1000 + of_nat (4096 * (unat (va - (a + 0x1000)) div 4096))) OR perm OR PTE_P) else translate (ram k1) pgdir va)" for va
      using Suc.IH [OF 2(1) run al] Suc.prems(4) by auto
    have "translate (ram k') pgdir va = (if unat (va - a) div 4096 \<le> Suc n
        then Some ((pa + of_nat (4096 * (unat (va - a) div 4096))) OR perm OR PTE_P) else translate (ram k) pgdir va)" if "r = 0" for va
    proof -
      let ?i = "unat (va - a) div 4096"
      have j: "unat (va - (a + 0x1000)) div 4096 = (if ?i = 0 then 2 ^ 20 - 1 else ?i - 1)"
        using next_page_index [of "va - a"] by (simp add: diff_diff_eq)
      show ?thesis
      proof (cases "?i = 0")
        case True
        then have "drop_bit 12 va = drop_bit 12 a" using aligned_page_index [OF Suc.prems(3), of va] by simp
        moreover have "\<not> 2 ^ 20 - 1 \<le> n" using Suc.prems(4) by simp
        ultimately show ?thesis using IH(2) [OF that, of va] 2(3) [of va] True j by simp
      next
        case False
        then have "drop_bit 12 va \<noteq> drop_bit 12 a" using aligned_page_index [OF Suc.prems(3), of va] by simp
        moreover have "pa + 0x1000 + of_nat (4096 * (?i - 1)) = pa + of_nat (4096 * ?i)" using False by (cases ?i) simp_all
        ultimately show ?thesis using IH(2) [OF that, of va] 2(3) [of va] False j by (auto simp: Suc_le_eq)
      qed
    qed
    then show ?thesis using IH(1) by blast
  qed (use Suc.prems in simp)
qed

text \<open>
  Claim C32. \<open>mappages\<close> maps exactly the pages it is asked to. On a directory whose tables are separate
  pages, a call that returns 0 has entered, for the page of \<open>va\<close> and the pages after it up to the
  one of \<open>va + size - 1\<close>, consecutive physical pages with the given permissions; the
  translation of every other address is as before, also where new page tables were allocated.
  The directory stays well formed even when the call fails.
\<close>

theorem mappages_translates:
  assumes "vm_ok kend pgdir k" "mappages pgdir va sz pa perm k = Ret (r, k')"
  shows "vm_ok kend pgdir k' \<and> (r = 0 \<longrightarrow> (\<forall>v. translate (ram k') pgdir v =
    (let i = unat (v - PGROUNDDOWN va) div PGSIZE
     in if i \<le> unat (PGROUNDDOWN (va + sz - 1) - PGROUNDDOWN va) div PGSIZE
        then Some ((pa + of_nat (PGSIZE * i)) OR perm OR PTE_P) else translate (ram k) pgdir v)))"
proof -
  let ?a = "PGROUNDDOWN va" and ?n = "unat (PGROUNDDOWN (va + sz - 1) - PGROUNDDOWN va) div 4096"
  have "4096 dvd unat ?a" unfolding PGROUNDDOWN_def unat_page_start by simp
  moreover have "?n < 2 ^ 20"
  proof -
    have "unat (PGROUNDDOWN (va + sz - 1) - PGROUNDDOWN va) < 2 ^ 32" using unsigned_less [of "PGROUNDDOWN (va + sz - 1) - PGROUNDDOWN va"] by simp
    then show ?thesis by (simp add: div_less_dividend less_mult_imp_div_less)
  qed
  moreover have "mappages_loop pgdir ?n ?a pa perm k = Ret (r, k')" using assms(2) by (simp add: mappages_def Let_def PGSIZE_def)
  ultimately show ?thesis using mappages_loop_spec [OF assms(1)] by (simp add: Let_def PGSIZE_def)
qed

text \<open>A directory that was just allocated and cleared.\<close>

lemma fresh_directory:
  assumes "kmem_inv kend k" "kalloc k = (k1, r)" "r \<noteq> 0"
  defines "k' \<equiv> k1\<lparr>ram := memset (ram k1) r 0 PGSIZE\<rparr>"
  shows "vm_ok kend r k'" "i < NPDENTRIES \<Longrightarrow> load32 (ram k') (r + 4 * i) = 0" "free_pages k = r # free_pages k'"
    "page_cnt k' = page_cnt k - 1" "page_protect k' = page_protect k"
proof -
  have k1: "kmem_inv kend k1" "free_pages k = r # free_pages k1" "page_protect k1 = page_protect k"
    using kalloc_inv [OF assms(1,2)] assms(3) by (auto split: if_splits)
  have free: "\<forall>q\<in>set (free_pages k). managed kend q" "distinct (free_pages k)"
    using assms(1) by (auto simp: kmem_inv_def Let_def list_all_iff)
  have r: "managed kend r" "r \<notin> set (free_pages k1)" using free k1(2) by auto
  have k': "kmem_inv kend k' \<and> free_pages k' = free_pages k1" unfolding k'_def
  proof (rule kmem_inv_frame [OF k1(1)])
    fix q i assume q: "q \<in> set (free_pages k1)" "i < PGSIZE"
    have "managed kend q" "q \<noteq> r" using q(1) free k1(2) by auto
    then show "memset (ram k1) r 0 PGSIZE (q + i) = ram k1 (q + i)" using managed_disjoint [OF _ r(1) _ q(2), of q] by (auto simp: memset_apply)
  qed
  show z: "load32 (ram k') (r + 4 * i) = 0" if "i < NPDENTRIES" for i
    using that by (simp add: k'_def load32_zeroed NPDENTRIES_def PGSIZE_def)
  show "vm_ok kend r k'" using k' r z by (simp add: vm_ok_def)
  show "free_pages k = r # free_pages k'" "page_protect k' = page_protect k" using k' k1 by (auto simp: k'_def)
  show "page_cnt k' = page_cnt k - 1"
    using page_cnt_free_pages [OF assms(1)] page_cnt_free_pages [of kend k'] k' k1(2) by simp
qed

theorem mappages_translates_witness:
  "\<exists>k pgdir k'. vm_ok KERNBASE pgdir k \<and> mappages pgdir 0 0x1000 0x5000 PTE_W k = Ret (0, k') \<and>
     translate (ram k') pgdir 0 = Some (0x5000 OR PTE_W OR PTE_P) \<and> translate (ram k') pgdir 0x1000 = translate (ram k) pgdir 0x1000"
proof -
  obtain k where k: "kmem_inv KERNBASE k" "page_protect k = 0" "set (free_pages k) = {q. KERNBASE \<le> q \<and> q + PGSIZE \<le> KERNBASE + 2 * PGSIZE \<and> PGSIZE dvd q}"
    using kinit1_inv [of KERNBASE "KERNBASE + 2 * PGSIZE" "\<lambda>_. 0"] by (auto simp: PHYSTOP_def PGSIZE_def)
  have two: "{KERNBASE, KERNBASE + PGSIZE} \<subseteq> set (free_pages k)" unfolding k(3) by (auto simp: KERNBASE_def PGSIZE_def)
  then have "2 \<le> length (free_pages k)"
    using card_mono [OF _ two] card_length [of "free_pages k"] by (simp add: PGSIZE_def)
  then have cnt: "2 \<le> page_cnt k" using page_cnt_free_pages [OF k(1)] by simp
  obtain k1 r where a: "kalloc k = (k1, r)" by force
  then have r0: "r \<noteq> 0" using kalloc_inv [OF k(1) a] cnt k(2) two by (auto split: if_splits)
  let ?k = "k1\<lparr>ram := memset (ram k1) r 0 PGSIZE\<rparr>"
  note fd = fresh_directory [OF k(1) a r0]
  obtain pte k2 where w: "walkpgdir r 0 True ?k = (pte, k2)" by force
  have pte: "pte \<noteq> 0"
  proof -
    obtain k3 r2 where b: "kalloc ?k = (k3, r2)" by force
    have "free_pages ?k \<noteq> []" using fd(3) \<open>2 \<le> length (free_pages k)\<close> by auto
    then have "r2 \<noteq> 0" using kalloc_inv [OF _ b, of KERNBASE] fd(1,4,5) cnt k(2) by (auto simp: vm_ok_def split: if_splits)
    then show ?thesis using w b fd(2) [OF PDX_less [of 0]] by (auto simp: walkpgdir_def Let_def split: if_splits)
  qed
  note wa = walkpgdir_alloc [OF fd(1) w pte, of 0]
  have "translate (ram ?k) r 0 = None" using fd(2) [OF PDX_less [of 0]] by (simp add: translate_def)
  then have "\<not> bit (load32 (ram k2) pte) 0" using wa by (auto simp: translate_def Let_def table_def split: if_splits)
  then have "\<exists>k'. mappages r 0 0x1000 0x5000 PTE_W ?k = Ret (0, k')"
    using w pte by (simp add: mappages_def PGROUNDDOWN_def mappages_loop.simps Let_def)
  then obtain k' where m: "mappages r 0 0x1000 0x5000 PTE_W ?k = Ret (0, k')" by blast
  from mappages_translates [OF fd(1) m] have t: "\<forall>v. translate (ram k') r v = (if unat v div PGSIZE \<le> 0
    then Some (0x5000 + of_nat (PGSIZE * (unat v div PGSIZE)) OR PTE_W OR PTE_P) else translate (ram ?k) r v)"
    by (simp add: PGROUNDDOWN_def Let_def)
  have "translate (ram k') r 0 = Some (0x5000 OR PTE_W OR PTE_P)" "translate (ram k') r 0x1000 = translate (ram ?k) r 0x1000"
    using spec [OF t, of 0] spec [OF t, of "0x1000"] by (simp_all add: PGSIZE_def)
  with m fd(1) show ?thesis by blast
qed

section \<open>Freeing a user address space\<close>

text \<open>Both ways the loop of \<open>deallocuvm\<close> advances lead upwards while \<open>a\<close> is below the kernel.\<close>

lemma next_directory_entry:
  assumes "unat a < KERNBASE"
  shows "unat (PGADDR (of_nat (PDX a) + 1) 0 0 - 0x1000 + 0x1000) = (PDX a + 1) * 2 ^ 22"
proof -
  have p: "PDX a + 1 \<le> 512" using assms by (simp add: PDX_eq KERNBASE_def less_mult_imp_div_less Suc_le_eq)
  have "of_nat (PDX a) + 1 = (of_nat (PDX a + 1) :: u32)" by simp
  then have "PGADDR (of_nat (PDX a) + 1) 0 0 - 0x1000 + 0x1000 = of_nat (2 ^ 22 * (PDX a + 1))"
    by (simp add: PGADDR_def push_bit_eq_mult)
  moreover have "unat (of_nat (2 ^ 22 * (PDX a + 1)) :: u32) = 2 ^ 22 * (PDX a + 1)"
    using p unfolding unsigned_of_nat of_nat_id by (intro take_bit_nat_eq_self) simp
  ultimately show ?thesis by simp
qed

lemma deallocuvm_loop_returns:
  assumes "unat oldsz \<le> KERNBASE"
  shows "\<exists>x. deallocuvm_loop kend pgdir a oldsz k = Some x"
proof (induction "KERNBASE - unat a" arbitrary: a k rule: less_induct)
  case less
  show ?case
  proof (cases "a < oldsz")
    case False
    then show ?thesis by (simp add: deallocuvm_loop.simps)
  next
    case True
    then have a: "unat a < KERNBASE" using assms by (simp add: word_less_nat_alt)
    have "unat a < unat (PGADDR (of_nat (PDX a) + 1) 0 0 - 0x1000 + 0x1000)"
      unfolding next_directory_entry [OF a] using PDX_eq [of a] by (simp add: less_mult_imp_div_less)
    moreover have "unat a < unat (a + 0x1000)" using a by (simp add: KERNBASE_def unat_word_ariths)
    ultimately have "\<exists>x. deallocuvm_loop kend pgdir (PGADDR (of_nat (PDX a) + 1) 0 0 - 0x1000 + 0x1000) oldsz k' = Some x"
      "\<exists>x. deallocuvm_loop kend pgdir (a + 0x1000) oldsz k' = Some x" for k'
      using less [of "PGADDR (of_nat (PDX a) + 1) 0 0 - 0x1000 + 0x1000" k'] less [of "a + 0x1000" k'] a by simp_all
    then show ?thesis using True by (subst deallocuvm_loop.simps) (simp add: Let_def split: outcome.split)
  qed
qed

text \<open>So \<open>freevm\<close>, which starts at \<open>KERNBASE\<close>, always comes to an end, in a panic or with the pages freed.\<close>

lemma freevm_returns: "\<exists>x. freevm kend pgdir k = Some x"
  using deallocuvm_loop_returns [of "of_nat KERNBASE" kend pgdir _ k]
  by (auto simp: freevm_def deallocuvm_def KERNBASE_def)

section \<open>Shrinking a process by more than its size\<close>

lemma update_protect_mem_frame: "keeps s (update_protect_mem g a b s)"
  by (auto simp: update_protect_mem_def Let_def keeps_def core_def upd_cg_def)

text \<open>
  Claim C33. \<open>sbrk\<close> with a negative argument beyond the size of the process is not refused. The new
  size wraps around, \<open>deallocuvm\<close> takes it for growth and returns the old size, and \<open>growproc\<close>
  returns success: the size and the memory of the process are unchanged, but the argument is
  added to the memory counters of its group and all ancestors, which can then exceed their limit.
\<close>

theorem growproc_overdraw:
  assumes "cg_tree r s" "live s g" "sint n < 0" "psz s p \<noteq> 0" "psz s p \<le> psz s p + n"
  shows "\<exists>s'. growproc kend pgdir p g n s = Some (Ret (0, s')) \<and> psz s' = psz s \<and>
    (\<forall>a. current_mem (cgroups s' a) = (if above s a g then current_mem (cgroups s a) + n else current_mem (cgroups s a)))"
proof -
  let ?s = "update_protect_mem g (psz s p) (psz s p) s" and ?f = "\<lambda>c. c\<lparr>current_mem := current_mem c + n\<rparr>"
  have "deallocuvm kend pgdir (psz s p) (psz s p + n) (cmem s) = Some (Ret (psz s p, cmem s))"
    using assms(5) by (simp add: deallocuvm_def)
  then have run: "growproc kend pgdir p g n s = grow_commit p g n (psz s p) ?s"
    using assms(3,4) by (simp add: growproc_def Let_def)
  have k: "keeps s ?s" by (rule update_protect_mem_frame)
  let ?t = "?s\<lparr>psz := (psz ?s)(p := psz s p)\<rparr>"
  have t: "?t = ?s" using keepsD(11) [OF k] by simp
  have "cg_tree r ?s" "live ?s g" using assms(1,2) keepsD [OF k] by (simp_all add: cg_tree_def)
  then have "climb ?f (Some g) ?s = Some (climbed ?f g ?s)" by (rule climb_climbed) simp_all
  then have "growproc kend pgdir p g n s = Some (Ret (0, climbed ?f g ?s))" unfolding run grow_commit_def t by simp
  moreover have "psz (climbed ?f g ?s) = psz s" using keepsD(11) [OF k] by (simp add: climbed_def)
  moreover have "current_mem (cgroups (climbed ?f g ?s) a) = (if above s a g then current_mem (cgroups s a) + n else current_mem (cgroups s a))" for a
    using keepsD(2,10) [OF k] by (simp add: climbed_def)
  ultimately show ?thesis by blast
qed

theorem growproc_overdraw_witness:
  "\<exists>s'. growproc 0 0 1 0 (- 0x2000) ((zero_cgtable (boot_kmem (\<lambda>_. 0)))\<lparr>psz := (\<lambda>_. 0x1000)\<rparr>) = Some (Ret (0, s')) \<and>
     psz s' = (\<lambda>_. 0x1000) \<and> current_mem (cgroups s' 0) = - 0x2000"
proof -
  let ?s = "(zero_cgtable (boot_kmem (\<lambda>_. 0)))\<lparr>psz := (\<lambda>_. 0x1000)\<rparr>"
  have l: "live ?s g \<longleftrightarrow> g = 0" for g by (auto simp: live_def zero_cgtable_def zero_cgroup_def NPROC_def)
  have "cg_tree (\<lambda>_. 0) ?s" by (simp add: cg_tree_def l) (simp add: zero_cgtable_def zero_cgroup_def)
  from growproc_overdraw [OF this, of 0 "- 0x2000" 1 0 0] l show ?thesis
    by (auto simp: zero_cgtable_def zero_cgroup_def word_le_nat_alt)
qed

end
