(* ===== verification/Vfs_File.thy ===== *)
theory Vfs_File
  imports Native_Log Pipe Namespace Vm Native_Fs
begin

text \<open>
  Open files: the file table of \<open>kernel/fs/vfs_file.c\<close>, the pipes behind it (\<open>pipealloc\<close> of \<open>kernel/pipe.c\<close>) and the
  descriptors of the processes with the system calls of \<open>kernel/sysfile.c\<close> that work on them.

  \<open>ofile p fd\<close> is the descriptor table of process \<open>p\<close>; files, inodes and mounts are indices, a pipe is the address
  of its page. The references to inodes and mounts are counted as in \<open>Namespace\<close>. The
  operations of an inode are function pointers in the code and arguments here.
\<close>

section \<open>The file table\<close>

definition NFILE :: nat where "NFILE = 200"
definition NOFILE :: nat where "NOFILE = 16"

datatype fd_type = FD_NONE | FD_PIPE | FD_INODE | FD_CG | FD_PROC

record vfs_file =
  ftype :: fd_type
  fref :: int
  readable :: bool
  writable :: bool
  off :: u32
  fpipe :: nat
  fip :: "nat option"
  fmnt :: "nat option"
  fcgp :: nat
  cgfilename :: string

record files =
  ffile :: "nat \<Rightarrow> vfs_file"
  pipes :: "nat \<Rightarrow> pipe"
  fns :: nst
  fmem :: kmem
  ofile :: "nat \<Rightarrow> nat \<Rightarrow> nat option"

definition upd_file :: "nat \<Rightarrow> (vfs_file \<Rightarrow> vfs_file) \<Rightarrow> files \<Rightarrow> files" where
  "upd_file f h s = s\<lparr>ffile := (ffile s)(f := h (ffile s f))\<rparr>"

definition vfs_filealloc :: "files \<Rightarrow> nat option \<times> files" where
  "vfs_filealloc s =
    (case first_slot (\<lambda>f. fref (ffile s f) = 0) NFILE of
       Some f \<Rightarrow> (Some f, upd_file f (\<lambda>x. x\<lparr>fref := 1, fmnt := None\<rparr>) s)
     | None \<Rightarrow> (None, s))"

definition vfs_filedup :: "nat \<Rightarrow> files \<Rightarrow> files outcome" where
  "vfs_filedup f s = (if fref (ffile s f) < 1 then Panic ''vfs_filedup'' else Ret (upd_file f (\<lambda>x. x\<lparr>fref := fref x + 1\<rparr>) s))"

text \<open>\<open>vfs_fileclose\<close> up to the release of the lock: the file's contents when this was the last reference.\<close>

definition fileclose_ref :: "nat \<Rightarrow> files \<Rightarrow> (vfs_file option \<times> files) outcome" where
  "fileclose_ref f s =
    (if fref (ffile s f) < 1 then Panic ''vfs_fileclose''
     else if fref (ffile s f) - 1 > 0 then Ret (None, upd_file f (\<lambda>x. x\<lparr>fref := fref x - 1\<rparr>) s)
     else Ret (Some (ffile s f), upd_file f (\<lambda>x. x\<lparr>fref := 0, ftype := FD_NONE\<rparr>) s))"

definition pipe_close :: "nat \<Rightarrow> nat \<Rightarrow> bool \<Rightarrow> files \<Rightarrow> files outcome" where
  "pipe_close kend a w s =
    (case pipeclose (pipes s a) w of (p, gone) \<Rightarrow>
       let s = s\<lparr>pipes := (pipes s)(a := p)\<rparr> in
       if gone then bindO (kfree kend a (fmem s)) (\<lambda>k. Ret (s\<lparr>fmem := k\<rparr>)) else Ret s)"

text \<open>The rest of it, for the contents of a file that was closed for the last time.\<close>

definition release_file :: "nat \<Rightarrow> vfs_file \<Rightarrow> files \<Rightarrow> files outcome" where
  "release_file kend ff s =
    (case ftype ff of
       FD_PIPE \<Rightarrow> pipe_close kend (fpipe ff) (writable ff) s
     | FD_INODE \<Rightarrow>
         (case (fmnt ff, fip ff) of
            (Some m, Some i) \<Rightarrow> Ret (s\<lparr>fns := iput i (mntput m (fns s))\<rparr>)
          | _ \<Rightarrow> Panic ''null pointer'')
     | _ \<Rightarrow> Ret s)"

definition vfs_fileclose :: "nat \<Rightarrow> nat \<Rightarrow> files \<Rightarrow> files outcome" where
  "vfs_fileclose kend f s =
    bindO (fileclose_ref f s) (\<lambda>(closed, s). case closed of None \<Rightarrow> Ret s | Some ff \<Rightarrow> release_file kend ff s)"

definition pipealloc :: "nat \<Rightarrow> u8 list \<Rightarrow> files \<Rightarrow> ((nat \<times> nat) option \<times> files) outcome" where
  "pipealloc kend junk s =
    (case vfs_filealloc s of
       (None, s) \<Rightarrow> Ret (None, s)
     | (Some f0, s) \<Rightarrow>
         (case vfs_filealloc s of
            (None, s) \<Rightarrow> bindO (vfs_fileclose kend f0 s) (\<lambda>s. Ret (None, s))
          | (Some f1, s) \<Rightarrow>
              (case kalloc (fmem s) of (k, a) \<Rightarrow>
                 let s = s\<lparr>fmem := k\<rparr> in
                 if a = 0 then bindO (vfs_fileclose kend f0 s) (\<lambda>s. bindO (vfs_fileclose kend f1 s) (\<lambda>s. Ret (None, s)))
                 else
                   let s = s\<lparr>pipes := (pipes s)(a := pipe_init junk)\<rparr>;
                       s = upd_file f0 (\<lambda>x. x\<lparr>ftype := FD_PIPE, readable := True, writable := False, fpipe := a\<rparr>) s;
                       s = upd_file f1 (\<lambda>x. x\<lparr>ftype := FD_PIPE, readable := False, writable := True, fpipe := a\<rparr>) s
                   in Ret (Some (f0, f1), s))))"

section \<open>Reading and writing\<close>

text \<open>The inode operations the file layer calls, on the state \<open>'s\<close> of their file system.\<close>

record 's i_op =
  op_readi :: "nat \<Rightarrow> u32 \<Rightarrow> u32 \<Rightarrow> 's \<Rightarrow> (int \<times> u8 list \<times> 's) outcome"
  op_writei :: "nat \<Rightarrow> u8 list \<Rightarrow> u32 \<Rightarrow> 's \<Rightarrow> (int \<times> 's) outcome"
  op_stati :: "nat \<Rightarrow> 's \<Rightarrow> stat"

definition vfs_filestat :: "'s i_op \<Rightarrow> nat \<Rightarrow> files \<Rightarrow> 's \<Rightarrow> stat option" where
  "vfs_filestat op f s x =
    (case fip (ffile s f) of
       Some i \<Rightarrow> if ftype (ffile s f) = FD_INODE then Some (op_stati op i x) else None
     | None \<Rightarrow> None)"

text \<open>\<open>vfs_fileread\<close>: the result and the bytes, \<open>None\<close> when the caller sleeps in \<open>piperead\<close>.\<close>

definition vfs_fileread :: "'s i_op \<Rightarrow> bool \<Rightarrow> nat \<Rightarrow> u32 \<Rightarrow> files \<Rightarrow> 's \<Rightarrow> ((int \<times> u8 list) option \<times> files \<times> 's) outcome" where
  "vfs_fileread op killed f n s x =
    (let ff = ffile s f in
     if \<not> readable ff then Ret (Some (- 1, []), s, x)
     else case ftype ff of
       FD_PIPE \<Rightarrow>
         (case piperead killed (pipes s (fpipe ff)) (nat (sint n)) of (p, r) \<Rightarrow>
            let s = s\<lparr>pipes := (pipes s)(fpipe ff := p)\<rparr> in
            Ret (case r of RRet bs \<Rightarrow> Some (int (length bs), bs) | RFail \<Rightarrow> Some (- 1, []) | RSleep \<Rightarrow> None, s, x))
     | FD_INODE \<Rightarrow>
         (case fip ff of
            None \<Rightarrow> Panic ''null pointer''
          | Some i \<Rightarrow>
              bindO (op_readi op i (off ff) n x) (\<lambda>(r, bs, x).
              Ret (Some (r, bs), if r > 0 then upd_file f (\<lambda>g. g\<lparr>off := off g + of_int r\<rparr>) s else s, x)))
     | _ \<Rightarrow> Panic ''vfs_fileread'')"

definition max_write :: nat where "max_write = (MAXOPBLOCKS - 1 - 1 - 2) div 2 * 512"

text \<open>The loop of \<open>vfs_filewrite\<close> over the bytes left: whether all were written, the new offset and the state.\<close>

function filewrite_loop :: "(u8 list \<Rightarrow> u32 \<Rightarrow> 's \<Rightarrow> (int \<times> 's) outcome) \<Rightarrow> u8 list \<Rightarrow> u32 \<Rightarrow> 's \<Rightarrow> (bool \<times> u32 \<times> 's) outcome" where
  "filewrite_loop wr src o' x =
    (if src = [] then Ret (True, o', x)
     else
       let n1 = min (length src) max_write in
       bindO (wr (take n1 src) o' x) (\<lambda>(r, x).
       let o'' = (if r > 0 then o' + of_int r else o') in
       if r < 0 then Ret (False, o'', x)
       else if r \<noteq> int n1 then Panic ''short vfs_filewrite''
       else filewrite_loop wr (drop n1 src) o'' x))"
  by auto
termination by (relation "measure (\<lambda>(wr, src, o', x). length src)") (auto simp: max_write_def MAXOPBLOCKS_def)

definition vfs_filewrite :: "'s i_op \<Rightarrow> bool \<Rightarrow> nat \<Rightarrow> u8 list \<Rightarrow> files \<Rightarrow> 's \<Rightarrow> (int option \<times> files \<times> 's) outcome" where
  "vfs_filewrite op killed f src s x =
    (let ff = ffile s f in
     if \<not> writable ff then Ret (Some (- 1), s, x)
     else case ftype ff of
       FD_PIPE \<Rightarrow>
         (case pipewrite killed (pipes s (fpipe ff)) src of (p, r) \<Rightarrow>
            let s = s\<lparr>pipes := (pipes s)(fpipe ff := p)\<rparr> in
            Ret (case r of WRet \<Rightarrow> Some (int (length src)) | WFail \<Rightarrow> Some (- 1) | WSleep _ \<Rightarrow> None, s, x))
     | FD_INODE \<Rightarrow>
         (case fip ff of
            None \<Rightarrow> Panic ''null pointer''
          | Some i \<Rightarrow>
              bindO (filewrite_loop (op_writei op i) src (off ff) x) (\<lambda>(all, o', x).
              Ret (Some (if all then int (length src) else - 1), upd_file f (\<lambda>g. g\<lparr>off := o'\<rparr>) s, x)))
     | _ \<Rightarrow> Panic ''vfs_filewrite'')"

section \<open>Descriptors\<close>

definition set_fd :: "nat \<Rightarrow> nat \<Rightarrow> nat option \<Rightarrow> files \<Rightarrow> files" where
  "set_fd p fd x s = s\<lparr>ofile := (ofile s)(p := (ofile s p)(fd := x))\<rparr>"

definition argfd :: "nat \<Rightarrow> int \<Rightarrow> files \<Rightarrow> (nat \<times> nat) option" where
  "argfd p fd s = (if fd < 0 \<or> fd \<ge> int NOFILE then None else map_option (Pair (nat fd)) (ofile s p (nat fd)))"

definition fdalloc :: "nat \<Rightarrow> nat \<Rightarrow> files \<Rightarrow> nat option \<times> files" where
  "fdalloc p f s =
    (case first_slot (\<lambda>fd. ofile s p fd = None) NOFILE of
       Some fd \<Rightarrow> (Some fd, set_fd p fd (Some f) s)
     | None \<Rightarrow> (None, s))"

definition sys_dup :: "nat \<Rightarrow> int \<Rightarrow> files \<Rightarrow> (int \<times> files) outcome" where
  "sys_dup p fd s =
    (case argfd p fd s of
       None \<Rightarrow> Ret (- 1, s)
     | Some (_, f) \<Rightarrow>
         (case fdalloc p f s of
            (None, s) \<Rightarrow> Ret (- 1, s)
          | (Some fd', s) \<Rightarrow> bindO (vfs_filedup f s) (\<lambda>s. Ret (int fd', s))))"

text \<open>
  A file with a descriptor for it, as all routines that open one begin: \<open>vfs_filealloc\<close> and \<open>fdalloc\<close>, the file closed
  again when there is no descriptor left.
\<close>

definition new_fd :: "nat \<Rightarrow> nat \<Rightarrow> files \<Rightarrow> ((nat \<times> nat) option \<times> files) outcome" where
  "new_fd kend p s =
    (case vfs_filealloc s of
       (None, s) \<Rightarrow> Ret (None, s)
     | (Some f, s) \<Rightarrow>
         (case fdalloc p f s of
            (None, s) \<Rightarrow> bindO (vfs_fileclose kend f s) (\<lambda>s. Ret (None, s))
          | (Some fd, s) \<Rightarrow> Ret (Some (fd, f), s)))"

text \<open>The end of \<open>sys_open\<close>, once it has the inode \<open>ip\<close> reached through the mount \<open>m\<close>.\<close>

definition open_file :: "nat \<Rightarrow> nat \<Rightarrow> nat \<Rightarrow> nat \<Rightarrow> u32 \<Rightarrow> files \<Rightarrow> (int \<times> files) outcome" where
  "open_file kend p ip m omode s =
    bindO (new_fd kend p s) (\<lambda>(x, s).
    case x of
      None \<Rightarrow> Ret (- 1, s\<lparr>fns := mntput m (iput ip (fns s))\<rparr>)
    | Some (fd, f) \<Rightarrow>
        Ret (int fd, upd_file f (\<lambda>x. x\<lparr>ftype := FD_INODE, fip := Some ip, off := 0, fmnt := Some m,
               readable := \<not> bit omode 0, writable := bit omode 0 \<or> bit omode 1\<rparr>) s))"

definition sys_pipe :: "nat \<Rightarrow> u8 list \<Rightarrow> nat \<Rightarrow> files \<Rightarrow> ((nat \<times> nat) option \<times> files) outcome" where
  "sys_pipe kend junk p s =
    bindO (pipealloc kend junk s) (\<lambda>(fs, s).
    case fs of
      None \<Rightarrow> Ret (None, s)
    | Some (f0, f1) \<Rightarrow>
        (let close_both = (\<lambda>s. bindO (vfs_fileclose kend f0 s) (\<lambda>s. bindO (vfs_fileclose kend f1 s) (\<lambda>s. Ret (None, s)))) in
         case fdalloc p f0 s of
           (None, s) \<Rightarrow> close_both s
         | (Some fd0, s) \<Rightarrow>
             (case fdalloc p f1 s of
                (None, s) \<Rightarrow> close_both (set_fd p fd0 None s)
              | (Some fd1, s) \<Rightarrow> Ret (Some (fd0, fd1), s))))"

text \<open>The loops over the descriptors in \<open>fork\<close> and \<open>exit\<close>.\<close>

fun fork_files :: "nat \<Rightarrow> nat \<Rightarrow> nat list \<Rightarrow> files \<Rightarrow> files outcome" where
  "fork_files p q [] s = Ret s"
| "fork_files p q (fd # fds) s =
    (case ofile s p fd of
       None \<Rightarrow> fork_files p q fds s
     | Some f \<Rightarrow> bindO (vfs_filedup f s) (\<lambda>s. fork_files p q fds (set_fd q fd (Some f) s)))"

fun exit_files :: "nat \<Rightarrow> nat \<Rightarrow> nat list \<Rightarrow> files \<Rightarrow> files outcome" where
  "exit_files kend p [] s = Ret s"
| "exit_files kend p (fd # fds) s =
    (case ofile s p fd of
       None \<Rightarrow> exit_files kend p fds s
     | Some f \<Rightarrow> bindO (vfs_fileclose kend f s) (\<lambda>s. exit_files kend p fds (set_fd p fd None s)))"

declare filewrite_loop.simps [simp del]

section \<open>Writing in pieces\<close>

lemma two_writes:
  fixes b c d :: "nat \<Rightarrow> u8"
  assumes "\<forall>x<lim. c x = (if p \<le> x \<and> x < p + m then take m src ! (x - p) else b x)"
    and "\<forall>x<lim. d x = (if p + m \<le> x \<and> x < p + m + k then drop m src ! (x - (p + m)) else c x)"
    and "m \<le> length src"
  shows "\<forall>x<lim. d x = (if p \<le> x \<and> x < p + (m + k) then src ! (x - p) else b x)"
proof (intro allI impI)
  fix x assume x: "x < lim"
  note c = mp [OF spec [OF assms(1), of x] x] and d = mp [OF spec [OF assms(2), of x] x]
  show "d x = (if p \<le> x \<and> x < p + (m + k) then src ! (x - p) else b x)"
  proof (cases "p + m \<le> x \<and> x < p + m + k")
    case True
    then have "drop m src ! (x - (p + m)) = src ! (x - p)" using assms(3) by (simp add: nth_drop)
    then show ?thesis using d True by auto
  next
    case False
    then have "d x = c x" using d by auto
    then show ?thesis using c False by auto
  qed
qed

text \<open>
  What \<open>vfs_filewrite\<close> relies on: an inode whose \<open>writei\<close> either writes all bytes at the offset or fails and
  changes nothing.
\<close>

locale byte_file =
  fixes wr :: "u8 list \<Rightarrow> u32 \<Rightarrow> 's \<Rightarrow> (int \<times> 's) outcome"
    and ok :: "'s \<Rightarrow> bool"
    and byte :: "'s \<Rightarrow> nat \<Rightarrow> u8"
    and lim :: nat
  assumes wr_all: "ok s \<Longrightarrow> wr bs o' s = Ret (r, t) \<Longrightarrow> 0 \<le> r \<Longrightarrow> length bs < 2 ^ 32 \<Longrightarrow>
      ok t \<and> r = int (length bs) \<and> unat (o' + of_nat (length bs)) = unat o' + length bs \<and>
      (\<forall>x<lim. byte t x = (if unat o' \<le> x \<and> x < unat o' + length bs then bs ! (x - unat o') else byte s x))"
    and wr_fail: "ok s \<Longrightarrow> wr bs o' s = Ret (r, t) \<Longrightarrow> r < 0 \<Longrightarrow> length bs < 2 ^ 32 \<Longrightarrow> t = s"
begin

text \<open>The pieces written are a prefix of the bytes; all of them when the loop says so.\<close>

lemma loop_writes:
  assumes "filewrite_loop wr src o' s = Ret (all, o'', t)" "ok s"
  shows "\<exists>k\<le>length src. (all \<longleftrightarrow> k = length src) \<and> ok t \<and> unat o'' = unat o' + k \<and>
    (\<forall>x<lim. byte t x = (if unat o' \<le> x \<and> x < unat o' + k then src ! (x - unat o') else byte s x))"
  using assms
proof (induction src arbitrary: o' s rule: length_induct)
  case (1 src)
  show ?case
  proof (cases "src = []")
    case True
    have "filewrite_loop wr [] o' s = Ret (True, o', s)" by (subst filewrite_loop.simps) (rule if_P, rule refl)
    then have "all" "o'' = o'" "t = s" using "1.prems"(1) unfolding True by simp_all
    then show ?thesis using "1.prems"(2) unfolding True by (intro exI [of _ 0]) auto
  next
    case False
    let ?m = "min (length src) max_write"
    have m: "0 < ?m" "?m < 2 ^ 32" "?m \<le> length src" using False by (auto simp: max_write_def MAXOPBLOCKS_def)
    obtain r s1 where w: "wr (take ?m src) o' s = Ret (r, s1)"
      and rest: "(if r < 0 then Ret (False, if r > 0 then o' + of_int r else o', s1)
        else if r \<noteq> int ?m then Panic ''short vfs_filewrite''
        else filewrite_loop wr (drop ?m src) (if r > 0 then o' + of_int r else o') s1) = Ret (all, o'', t)"
      using "1.prems"(1) False by (subst (asm) filewrite_loop.simps) (auto simp: Let_def bindO_Ret_iff simp del: of_nat_min)
    show ?thesis
    proof (cases "r < 0")
      case True
      then have "s1 = s" using wr_fail [OF "1.prems"(2) w] m(2) by (simp add: min_absorb2)
      then show ?thesis using True rest "1.prems"(2) False by (intro exI [of _ 0]) auto
    next
      case pos: False
      let ?p = "o' + of_nat ?m"
      have a: "ok s1" "r = int ?m" "unat ?p = unat o' + ?m"
        "\<forall>x<lim. byte s1 x = (if unat o' \<le> x \<and> x < unat o' + ?m then take ?m src ! (x - unat o') else byte s x)"
        using wr_all [OF "1.prems"(2) w] pos m by (simp_all add: min_absorb2)
      have run: "filewrite_loop wr (drop ?m src) ?p s1 = Ret (all, o'', t)" using rest pos a(2) m(1) by simp
      have len: "length (drop ?m src) < length src" using m(1,3) by simp
      obtain k where k: "k \<le> length (drop ?m src)" "all \<longleftrightarrow> k = length (drop ?m src)" "ok t" "unat o'' = unat ?p + k"
        "\<forall>x<lim. byte t x = (if unat ?p \<le> x \<and> x < unat ?p + k then drop ?m src ! (x - unat ?p) else byte s1 x)"
        using "1.IH" [rule_format, OF len run a(1)] by blast
      have "\<forall>x<lim. byte t x = (if unat o' \<le> x \<and> x < unat o' + (?m + k) then src ! (x - unat o') else byte s x)"
        by (rule two_writes [OF a(4) k(5) [unfolded a(3)] m(3)])
      moreover have "?m + k \<le> length src" "all \<longleftrightarrow> ?m + k = length src" "unat o'' = unat o' + (?m + k)"
        using k(1,2,4) a(3) m(3) by auto
      ultimately show ?thesis using k(3) by blast
    qed
  qed
qed

text \<open>The loop panics only where \<open>writei\<close> itself does: it never sees a short write.\<close>

lemma loop_no_short_write:
  assumes "filewrite_loop wr src o' s = Panic msg" "ok s"
  shows "\<exists>bs o2 t. ok t \<and> wr bs o2 t = Panic msg"
  using assms
proof (induction src arbitrary: o' s rule: length_induct)
  case (1 src)
  let ?m = "min (length src) max_write"
  have "filewrite_loop wr [] o' s = Ret (True, o', s)" by (subst filewrite_loop.simps) (rule if_P, rule refl)
  then have ne: "src \<noteq> []" using "1.prems"(1) by auto
  then have m: "0 < ?m" "?m < 2 ^ 32" by (auto simp: max_write_def MAXOPBLOCKS_def)
  show ?case
  proof (cases "wr (take ?m src) o' s")
    case (Panic msg')
    then have "msg' = msg" using "1.prems"(1) ne by (subst (asm) filewrite_loop.simps) (simp add: Let_def)
    then show ?thesis using Panic "1.prems"(2) by blast
  next
    case (Ret rs)
    then obtain r s1 where w: "wr (take ?m src) o' s = Ret (r, s1)" by (cases rs) auto
    then have r: "0 \<le> r" using "1.prems"(1) ne by (subst (asm) filewrite_loop.simps) (auto simp: Let_def split: if_splits)
    have a: "ok s1" "r = int ?m" using wr_all [OF "1.prems"(2) w r] m by (simp_all add: min_absorb2)
    then have "filewrite_loop wr (drop ?m src) (o' + of_nat ?m) s1 = Panic msg"
      using "1.prems"(1) ne w m(1) by (subst (asm) filewrite_loop.simps) (simp add: Let_def)
    moreover have "length (drop ?m src) < length src" using m(1) ne by simp
    ultimately show ?thesis using "1.IH" a(1) by blast
  qed
qed

end

text \<open>A file of the native file system is such an inode.\<close>

lemma writei_fail: "itype (icache s i) \<noteq> T_DEV \<Longrightarrow> length bs < 2 ^ 32 \<Longrightarrow> writei dsw i bs o' s = Ret (r, t) \<Longrightarrow> r < 0 \<Longrightarrow> t = s"
proof -
  assume h: "itype (icache s i) \<noteq> T_DEV" "length bs < 2 ^ 32" "writei dsw i bs o' s = Ret (r, t)" "r < 0"
  let ?n = "of_nat (length bs) :: u32"
  show "t = s"
  proof (rule ccontr)
    assume "t \<noteq> s"
    then have c: "\<not> o' + ?n < o'" "unat (o' + ?n) \<le> MAXFILE * BSIZE" "r = sint ?n"
      using h(1,3) by (auto simp: writei_def Let_def bindO_Ret_iff split: if_splits)
    have "unat (o' + ?n) = unat o' + length bs" using c(1) of_nat_block [OF h(2)] by (metis linorder_not_le unat_plus_simple)
    then have "sint ?n = int (length bs)" using c(2) by (intro sint_small) (simp add: layout)
    then show False using c(3) h(4) by simp
  qed
qed

interpretation native_file: byte_file "writei dsw i"
  "\<lambda>s. file_ok s i \<and> dense s i \<and> itype (icache s i) \<noteq> T_DEV" "\<lambda>s. content s i" "MAXFILE * BSIZE" for dsw i
proof
  fix s t :: nfs and bs :: "u8 list" and o' :: u32 and r
  assume ok: "file_ok s i \<and> dense s i \<and> itype (icache s i) \<noteq> T_DEV"
    and w: "writei dsw i bs o' s = Ret (r, t)" and l: "length bs < 2 ^ 32"
  show "t = s" if "r < 0" using writei_fail [OF _ l w that] ok by simp
  assume "0 \<le> r"
  note sp = writei_spec [OF _ _ _ l w this]
  have "x div BSIZE < MAXFILE" if "x < MAXFILE * BSIZE" for x using that by (simp add: less_mult_imp_div_less)
  then show "(file_ok t i \<and> dense t i \<and> itype (icache t i) \<noteq> T_DEV) \<and> r = int (length bs) \<and>
      unat (o' + of_nat (length bs)) = unat o' + length bs \<and>
      (\<forall>x<MAXFILE * BSIZE. content t i x = (if unat o' \<le> x \<and> x < unat o' + length bs then bs ! (x - unat o') else content s i x))"
    using sp ok by auto
qed

text \<open>
  Claim C39. Writing in pieces is one write. \<open>vfs_filewrite\<close> splits a write into pieces that fit into a log transaction; on a file of the
  native file system it writes a prefix of the bytes at the file's offset, advances the offset by their
  number and changes no other byte. It returns the number of bytes when all were written and -1 otherwise.
\<close>

theorem filewrite_pieces:
  assumes "writable (ffile s f)" "ftype (ffile s f) = FD_INODE" "op_writei op = writei dsw" "fip (ffile s f) = Some i"
    and "file_ok x i" "dense x i" "itype (icache x i) \<noteq> T_DEV"
    and "vfs_filewrite op killed f src s x = Ret (r, s', x')"
  shows "\<exists>k\<le>length src. r = Some (if k = length src then int (length src) else - 1) \<and>
    unat (off (ffile s' f)) = unat (off (ffile s f)) + k \<and> file_ok x' i \<and> dense x' i \<and>
    (\<forall>z<MAXFILE * BSIZE. content x' i z = (if unat (off (ffile s f)) \<le> z \<and> z < unat (off (ffile s f)) + k
       then src ! (z - unat (off (ffile s f))) else content x i z))"
proof -
  obtain all o' where l: "filewrite_loop (writei dsw i) src (off (ffile s f)) x = Ret (all, o', x')"
    "r = Some (if all then int (length src) else - 1)" "s' = upd_file f (\<lambda>g. g\<lparr>off := o'\<rparr>) s"
    using assms(1-4,8) by (auto simp: vfs_filewrite_def Let_def bindO_Ret_iff)
  from native_file.loop_writes [OF l(1)] assms(5-7)
  obtain k where "k \<le> length src" "all \<longleftrightarrow> k = length src" "file_ok x' i \<and> dense x' i \<and> itype (icache x' i) \<noteq> T_DEV"
    "unat o' = unat (off (ffile s f)) + k"
    "\<forall>z<MAXFILE * BSIZE. content x' i z = (if unat (off (ffile s f)) \<le> z \<and> z < unat (off (ffile s f)) + k
       then src ! (z - unat (off (ffile s f))) else content x i z)" by blast
  then show ?thesis using l(2,3) by (intro exI [of _ k]) (simp add: upd_file_def)
qed

definition native_op :: "nfs i_op" where
  "native_op = \<lparr>op_readi = readi (\<lambda>_. no_device), op_writei = writei (\<lambda>_. no_device), op_stati = stati\<rparr>"

definition one_file :: files where
  "one_file = \<lparr>ffile = (\<lambda>_. \<lparr>ftype = FD_INODE, fref = 1, readable = True, writable = True, off = 0, fpipe = 0, fip = Some 0, fmnt = Some 0, fcgp = 0, cgfilename = []\<rparr>),
     pipes = (\<lambda>_. pipe_init []), fns = boot_nst, fmem = boot_kmem (\<lambda>_. 0), ofile = (\<lambda>_ _. None)\<rparr>"

theorem filewrite_pieces_witness:
  "\<exists>s' x'. vfs_filewrite native_op False 0 [7] one_file tiny_fs = Ret (Some 1, s', x') \<and> content x' 0 0 = 7"
proof -
  have d: "dense tiny_fs 0" "itype (icache tiny_fs 0) \<noteq> T_DEV" using tiny_slot [of 0 0] by (simp_all add: dense_def) (simp_all add: tiny_fs_def layout T_FILE_def T_DEV_def)
  have b: "bmap 0 0 tiny_fs = Ret (5, tiny_fs)" using bmap_present [of 0 tiny_fs 0] tiny_slot [of 0 0] by (simp add: layout)
  have sz: "isize (icache tiny_fs 0) = 1" by (simp add: tiny_fs_def)
  have "\<exists>t. writei_loop 0 0 [7] tiny_fs = Ret t"
    using b by (simp add: writei_loop.simps [of 0 0 "[7]"] writei_loop.simps [of _ _ "[]"] Let_def layout)
  then have "\<exists>t. writei (\<lambda>_. no_device) 0 [7] 0 tiny_fs = Ret (1, t)" using d(2) sz by (auto simp: writei_def Let_def layout)
  then obtain t where "writei (\<lambda>_. no_device) 0 [7] 0 tiny_fs = Ret (1, t)" by blast
  then have "filewrite_loop (writei (\<lambda>_. no_device) 0) [7] 0 tiny_fs = Ret (True, 1, t)"
    by (simp add: filewrite_loop.simps [of _ "[7]"] filewrite_loop.simps [of _ "[]"] Let_def max_write_def MAXOPBLOCKS_def)
  then have "vfs_filewrite native_op False 0 [7] one_file tiny_fs = Ret (Some 1, upd_file 0 (\<lambda>g. g\<lparr>off := 1\<rparr>) one_file, t)" (is "_ = Ret (_, ?s, _)")
    by (simp add: vfs_filewrite_def native_op_def one_file_def Let_def)
  from this filewrite_pieces [OF _ _ _ _ _ _ _ this, of "\<lambda>_. no_device"] show ?thesis
    using d tiny_file_ok [of 0] by (auto simp: one_file_def native_op_def layout upd_file_def split: if_splits)
qed

section \<open>References to open files\<close>

lemma upd_file_simps [simp]:
  "ffile (upd_file f h s) g = (if g = f then h (ffile s f) else ffile s g)" "ofile (upd_file f h s) = ofile s"
  by (simp_all add: upd_file_def)

lemma set_fd_simps [simp]: "ffile (set_fd p fd x s) = ffile s"
  "ofile (set_fd p fd x s) q e = (if q = p \<and> e = fd then x else ofile s q e)"
  by (simp_all add: set_fd_def)

interpretation ftab: ref_table NFILE "\<lambda>s f. fref (ffile s f)"
  "\<lambda>s. case vfs_filealloc s of (Some f, s') \<Rightarrow> Ret (f, s') | (None, _) \<Rightarrow> Panic ''no file''"
  vfs_filedup "\<lambda>f s. bindO (fileclose_ref f s) (\<lambda>(_, s). Ret s)"
  by unfold_locales
    (auto simp: vfs_filealloc_def vfs_filedup_def fileclose_ref_def first_slot_None dest!: first_slot_Some split: option.splits if_splits)

definition opt_mset :: "'a option \<Rightarrow> 'a multiset" where
  "opt_mset x = (case x of None \<Rightarrow> {#} | Some f \<Rightarrow> {#f#})"

text \<open>All descriptors of all processes, as the multiset of the files they stand for.\<close>

definition handles :: "files \<Rightarrow> nat multiset" where
  "handles s = (\<Sum>x\<in>{..<NPROC} \<times> {..<NOFILE}. opt_mset (ofile s (fst x) (snd x)))"

lemma handles_cong: "ofile t = ofile s \<Longrightarrow> handles t = handles s"
  by (simp add: handles_def)

lemma handles_set_fd:
  assumes "p < NPROC" "fd < NOFILE"
  shows "handles (set_fd p fd x s) + opt_mset (ofile s p fd) = handles s + opt_mset x"
proof -
  let ?A = "{..<NPROC} \<times> {..<NOFILE}" and ?h = "\<lambda>s x. opt_mset (ofile s (fst x) (snd x))"
  have m: "(p, fd) \<in> ?A" and f: "finite ?A" using assms by auto
  have "handles (set_fd p fd x s) = opt_mset x + sum (?h (set_fd p fd x s)) (?A - {(p, fd)})"
    unfolding handles_def using sum.remove [OF f m, of "?h (set_fd p fd x s)"] by simp
  also have "sum (?h (set_fd p fd x s)) (?A - {(p, fd)}) = sum (?h s) (?A - {(p, fd)})"
    by (rule sum.cong) auto
  finally have "handles (set_fd p fd x s) = opt_mset x + sum (?h s) (?A - {(p, fd)})" .
  moreover have "handles s = opt_mset (ofile s p fd) + sum (?h s) (?A - {(p, fd)})"
    unfolding handles_def using sum.remove [OF f m, of "?h s"] by simp
  ultimately show ?thesis by simp
qed

lemma handles_fill: "p < NPROC \<Longrightarrow> fd < NOFILE \<Longrightarrow> ofile s p fd = None \<Longrightarrow> handles (set_fd p fd (Some f) s) = add_mset f (handles s)"
  using handles_set_fd [of p fd "Some f" s] by (simp add: opt_mset_def)

lemma handles_clear: "p < NPROC \<Longrightarrow> fd < NOFILE \<Longrightarrow> ofile s p fd = Some f \<Longrightarrow> handles s = add_mset f (handles (set_fd p fd None s))"
  using handles_set_fd [of p fd None s] by (simp add: opt_mset_def)

lemma count_handles: "count (handles s) f = card {x \<in> {..<NPROC} \<times> {..<NOFILE}. ofile s (fst x) (snd x) = Some f}"
proof -
  have "count (opt_mset y) f = (if y = Some f then 1 else 0)" for y by (auto simp: opt_mset_def split: option.split)
  then have "count (handles s) f = (\<Sum>x\<in>{..<NPROC} \<times> {..<NOFILE}. if ofile s (fst x) (snd x) = Some f then 1 else 0)"
    by (simp add: handles_def count_sum)
  also have "\<dots> = card {x \<in> {..<NPROC} \<times> {..<NOFILE}. ofile s (fst x) (snd x) = Some f}"
    by (simp add: sum.If_cases Int_def)
  finally show ?thesis .
qed

text \<open>\<open>held s hs\<close>: the counts are those of the descriptors and of the references \<open>hs\<close> a running call has in hand.\<close>

definition held :: "files \<Rightarrow> nat multiset \<Rightarrow> bool" where
  "held s hs = ftab.counted s (handles s + hs)"

lemma held_cong: "ffile t = ffile s \<Longrightarrow> ofile t = ofile s \<Longrightarrow> held t hs = held s hs"
  by (simp add: held_def ftab.counted_def handles_cong [of t s])

lemma filealloc_held: "vfs_filealloc s = (Some f, t) \<Longrightarrow> held s hs \<Longrightarrow> held t (add_mset f hs)"
  using ftab.alloc_counted [of s "handles s + hs" f t] handles_cong [of t s]
  by (auto simp: held_def vfs_filealloc_def split: option.splits)

lemma filedup_held:
  assumes "held s hs" "f \<in># handles s + hs"
  obtains t where "vfs_filedup f s = Ret t" "held t (add_mset f hs)" "ofile t = ofile s"
proof -
  have "returns (vfs_filedup f s)" using ftab.dup_held assms by (auto simp: held_def)
  then obtain t where t: "vfs_filedup f s = Ret t" by (auto simp: returns_iff)
  then have o: "ofile t = ofile s" by (auto simp: vfs_filedup_def split: if_splits)
  have "held t (add_mset f hs)" using ftab.dup_counted [OF _ assms(2) t] assms(1) handles_cong [OF o] by (simp add: held_def)
  with that t o show thesis by blast
qed

lemma release_file_frame: "release_file kend ff s = Ret t \<Longrightarrow> ffile t = ffile s \<and> ofile t = ofile s"
  by (auto simp: release_file_def pipe_close_def Let_def bindO_Ret_iff split: fd_type.splits option.splits prod.splits if_splits)

lemma fileclose_counted:
  assumes "ftab.counted s hs" "f \<in># hs" "vfs_fileclose kend f s = Ret t"
  shows "ftab.counted t (hs - {#f#}) \<and> ofile t = ofile s"
proof -
  obtain c u where u: "fileclose_ref f s = Ret (c, u)" "ffile t = ffile u" "ofile t = ofile u"
    using assms(3) by (auto simp: vfs_fileclose_def bindO_Ret_iff dest: release_file_frame split: option.splits)
  have "ofile u = ofile s" using u(1) by (auto simp: fileclose_ref_def split: if_splits)
  moreover have "ftab.counted u (hs - {#f#})" using ftab.put_counted [OF assms(1,2), of u] u(1) by simp
  ultimately show ?thesis using u(2,3) by (simp add: ftab.counted_def)
qed

lemma fileclose_held:
  assumes "held s (add_mset f hs)" "vfs_fileclose kend f s = Ret t"
  shows "held t hs \<and> ofile t = ofile s"
  using fileclose_counted [of s "handles s + add_mset f hs" f kend t] assms handles_cong [of t s] by (simp add: held_def)

lemma fdalloc_held:
  assumes "held s (add_mset f hs)" "p < NPROC" "fdalloc p f s = (Some fd, t)"
  shows "held t hs \<and> ofile s p fd = None \<and> fd < NOFILE \<and> t = set_fd p fd (Some f) s"
proof -
  have t: "fd < NOFILE" "ofile s p fd = None" "t = set_fd p fd (Some f) s"
    using assms(3) by (auto simp: fdalloc_def dest!: first_slot_Some split: option.splits)
  then have "handles t + hs = handles s + add_mset f hs" using handles_fill [OF assms(2)] by simp
  then show ?thesis using assms(1) t by (simp add: held_def ftab.counted_def)
qed

lemma fdalloc_None: "fdalloc p f s = (None, t) \<Longrightarrow> t = s"
  by (auto simp: fdalloc_def split: option.splits)

lemma filealloc_None: "vfs_filealloc s = (None, t) \<Longrightarrow> t = s"
  by (auto simp: vfs_filealloc_def split: option.splits)

lemma held_update: "fref (h (ffile s f)) = fref (ffile s f) \<Longrightarrow> held (upd_file f h s) hs = held s hs"
  using handles_cong [of "upd_file f h s" s] by (auto simp: held_def ftab.counted_def)

lemma held_other [simp]:
  "held (s\<lparr>fns := n\<rparr>) hs = held s hs" "held (s\<lparr>fmem := k\<rparr>) hs = held s hs" "held (s\<lparr>pipes := q\<rparr>) hs = held s hs"
  by (auto intro!: held_cong)

text \<open>Every call keeps the counts right.\<close>

lemma argfd_Some: "argfd p fd s = Some (d, f) \<Longrightarrow> d < NOFILE \<and> ofile s p d = Some f"
  by (auto simp: argfd_def split: if_splits)

lemma sys_dup_held:
  assumes "held s L" "p < NPROC"
  shows "\<exists>r t. sys_dup p fd s = Ret (r, t) \<and> held t L"
proof (cases "argfd p fd s")
  case None
  then show ?thesis using assms(1) by (simp add: sys_dup_def)
next
  case (Some df)
  then obtain d f where df: "argfd p fd s = Some (d, f)" by (cases df) auto
  then have f: "f \<in># handles s" using handles_clear [OF assms(2), of d s f] argfd_Some by simp
  show ?thesis
  proof (cases "fdalloc p f s")
    case (Pair r t)
    show ?thesis
    proof (cases r)
      case None
      then show ?thesis using Pair df assms(1) fdalloc_None [of p f s t] by (simp add: sys_dup_def)
    next
      case (Some e)
      have t: "e < NOFILE" "ofile s p e = None" "t = set_fd p e (Some f) s"
        using Pair Some by (auto simp: fdalloc_def dest!: first_slot_Some split: option.splits)
      have fL: "f \<in># handles s + L" using f by simp
      have "ftab.counted t (handles s + L)" using assms(1) t(3) by (simp add: held_def ftab.counted_def)
      moreover from this obtain u where u: "vfs_filedup f t = Ret u" using ftab.dup_held [OF _ fL, of t] by (auto simp: returns_iff)
      ultimately have "ftab.counted u (add_mset f (handles s + L))" using ftab.dup_counted [OF _ fL u] by simp
      moreover have "handles u = add_mset f (handles s)"
        using u t handles_fill [OF assms(2) t(1,2)] handles_cong [of u t] by (auto simp: vfs_filedup_def split: if_splits)
      ultimately show ?thesis using Pair Some df u by (simp add: sys_dup_def held_def)
    qed
  qed
qed

lemma new_fd_held:
  assumes "held s L" "p < NPROC" "new_fd kend p s = Ret (x, t)"
  shows "held t L \<and> (\<forall>fd f. x = Some (fd, f) \<longrightarrow> fd < NOFILE \<and> f < NFILE \<and> ofile t p fd = Some f \<and> fref (ffile s f) = 0)"
proof (cases "vfs_filealloc s")
  case (Pair a s1)
  show ?thesis
  proof (cases a)
    case None
    then show ?thesis using assms(1,3) Pair filealloc_None [of s s1] by (auto simp: new_fd_def)
  next
    case (Some f)
    have f: "f < NFILE" "fref (ffile s f) = 0" using Pair Some by (auto simp: vfs_filealloc_def dest!: first_slot_Some split: option.splits)
    have s1: "held s1 (add_mset f L)" using filealloc_held [of s f s1 L] Pair Some assms(1) by simp
    show ?thesis
    proof (cases "fdalloc p f s1")
      case (Pair b s2)
      then show ?thesis
        using assms(3) \<open>vfs_filealloc s = (a, s1)\<close> Some s1 f fdalloc_None [of p f s1 s2] fileclose_held [OF s1, of kend] fdalloc_held [OF s1 assms(2)]
        by (cases b) (auto simp: new_fd_def bindO_Ret_iff)
    qed
  qed
qed

lemma open_file_held:
  assumes "held s L" "p < NPROC" "open_file kend p ip m om s = Ret (r, t)"
  shows "held t L"
  using assms(3) new_fd_held [OF assms(1,2)]
  by (auto simp: open_file_def bindO_Ret_iff held_update split: option.splits)

lemma close_two_held:
  assumes "held s (add_mset f (add_mset g L))" "bindO (vfs_fileclose kend f s) (\<lambda>s. bindO (vfs_fileclose kend g s) (\<lambda>s. Ret (None, s))) = Ret (r, t)"
  shows "held t L \<and> r = None"
  using assms(2) fileclose_held [OF assms(1)] fileclose_held [of _ g "L" kend t] by (auto simp: bindO_Ret_iff)

lemma pipealloc_held:
  assumes "held s L" "pipealloc kend junk s = Ret (r, t)"
  shows "held t (case r of None \<Rightarrow> L | Some (f, g) \<Rightarrow> add_mset f (add_mset g L))"
proof (cases "vfs_filealloc s")
  case s1: (Pair a s1)
  show ?thesis
  proof (cases a)
    case None
    then show ?thesis using assms s1 filealloc_None [of s s1] by (auto simp: pipealloc_def)
  next
    case (Some f)
    have h1: "held s1 (add_mset f L)" using filealloc_held [of s f s1 "L"] s1 Some assms(1) by simp
    show ?thesis
    proof (cases "vfs_filealloc s1")
      case s2: (Pair b s2)
      show ?thesis
      proof (cases b)
        case None
        then show ?thesis using assms(2) s1 s2 Some filealloc_None [of s1 s2] fileclose_held [OF h1, of kend]
          by (auto simp: pipealloc_def bindO_Ret_iff)
      next
        case g: (Some g)
        have h2: "held s2 (add_mset f (add_mset g L))" using filealloc_held [of s1 g s2 "add_mset f L"] s2 g h1 by (simp add: add_mset_commute)
        obtain k x where k: "kalloc (fmem s2) = (k, x)" by force
        show ?thesis
        proof (cases "x = 0")
          case True
          then show ?thesis using assms(2) s1 s2 Some g k close_two_held [of "s2\<lparr>fmem := k\<rparr>" f g L kend r t] h2
            by (simp add: pipealloc_def Let_def)
        next
          case False
          then show ?thesis using assms(2) s1 s2 Some g k h2 by (auto simp: pipealloc_def Let_def held_update)
        qed
      qed
    qed
  qed
qed

lemma sys_pipe_held:
  assumes "held s L" "p < NPROC" "sys_pipe kend junk p s = Ret (r, t)"
  shows "held t L"
proof -
  obtain x s1 where a: "pipealloc kend junk s = Ret (x, s1)" using assms(3) by (auto simp: sys_pipe_def bindO_Ret_iff)
  note h = pipealloc_held [OF assms(1) a]
  show ?thesis
  proof (cases x)
    case None
    then show ?thesis using h a assms(3) by (simp add: sys_pipe_def)
  next
    case (Some fg)
    then obtain f g where fg: "x = Some (f, g)" by (cases fg) auto
    then have h1: "held s1 (add_mset f (add_mset g L))" using h by simp
    show ?thesis
    proof (cases "fdalloc p f s1")
      case s2: (Pair c s2)
      show ?thesis
      proof (cases c)
        case None
        then show ?thesis using assms(3) a fg s2 fdalloc_None [of p f s1 s2] close_two_held [of s1 f g L kend r t] h1 by (auto simp: sys_pipe_def Let_def)
      next
        case d: (Some d)
        have h2: "held s2 (add_mset g L)" "d < NOFILE" "ofile s1 p d = None" "s2 = set_fd p d (Some f) s1" using fdalloc_held [of s1 f "add_mset g L" p d s2] s2 d h1 assms(2) by auto
        show ?thesis
        proof (cases "fdalloc p g s2")
          case s3: (Pair e s3)
          show ?thesis
          proof (cases e)
            case None
            then have "s3 = s2" using fdalloc_None [of p g s2] s3 by simp
            have "set_fd p d None s2 = s1" using h2(3,4) by (simp add: set_fd_def fun_upd_idem)
            then show ?thesis using assms(3) a fg s2 d s3 None \<open>s3 = s2\<close> close_two_held [of s1 f g L kend r t] h1 by (simp add: sys_pipe_def Let_def)
          next
            case (Some e')
            then show ?thesis using assms(3) a fg s2 d s3 fdalloc_held [OF h2(1) assms(2)] by (auto simp: sys_pipe_def Let_def)
          qed
        qed
      qed
    qed
  qed
qed

lemma fork_files_held:
  assumes "held s L" "p < NPROC" "q < NPROC" "p \<noteq> q" "\<forall>fd\<in>set fds. fd < NOFILE \<and> ofile s q fd = None" "distinct fds"
  shows "\<exists>t. fork_files p q fds s = Ret t \<and> held t L"
  using assms
proof (induction p q fds s rule: fork_files.induct)
  case (2 p q fd fds s)
  show ?case
  proof (cases "ofile s p fd")
    case None
    then show ?thesis using 2 by simp
  next
    case (Some f)
    have fd: "fd < NOFILE" using "2.prems"(5) by simp
    have "f \<in># handles s" using handles_clear [OF "2.prems"(2) fd Some] by simp
    then obtain t where t: "vfs_filedup f s = Ret t" "held t (add_mset f L)" "ofile t = ofile s" using filedup_held [of s "L" f] "2.prems"(1) by auto
    have "handles (set_fd q fd (Some f) t) = add_mset f (handles t)" using handles_fill [OF "2.prems"(3) fd, of t f] "2.prems"(5) t(3) by simp
    then have "held (set_fd q fd (Some f) t) L" using t(2) by (simp add: held_def ftab.counted_def)
    moreover have "\<forall>e\<in>set fds. e < NOFILE \<and> ofile (set_fd q fd (Some f) t) q e = None" using "2.prems"(5,6) t(3) by auto
    ultimately show ?thesis using "2.IH"(2) [OF Some, of t] "2.prems"(2,3,4,6) t(1) Some by simp
  qed
qed simp

lemma exit_files_held:
  assumes "held s L" "p < NPROC" "\<forall>fd\<in>set fds. fd < NOFILE" "exit_files kend p fds s = Ret t"
  shows "held t L"
  using assms
proof (induction kend p fds s rule: exit_files.induct)
  case (2 kend p fd fds s)
  show ?case
  proof (cases "ofile s p fd")
    case None
    then show ?thesis using 2 by simp
  next
    case (Some f)
    have fd: "fd < NOFILE" using "2.prems"(3) by simp
    obtain u where u: "vfs_fileclose kend f s = Ret u" "exit_files kend p fds (set_fd p fd None u) = Ret t"
      using "2.prems"(4) Some by (auto simp: bindO_Ret_iff)
    have h: "handles s = add_mset f (handles (set_fd p fd None s))" using handles_clear [OF "2.prems"(2) fd Some] .
    have c: "ftab.counted u (handles s + L - {#f#})" "ofile u = ofile s"
      using fileclose_counted [OF _ _ u(1), of "handles s + L"] "2.prems"(1) h by (auto simp: held_def)
    have "handles (set_fd p fd None u) = handles (set_fd p fd None s)" by (rule handles_cong) (simp add: set_fd_def c(2))
    then have "held (set_fd p fd None u) L" using c(1) h by (simp add: held_def ftab.counted_def)
    then show ?thesis using "2.IH"(2) [OF Some _ "2.prems"(2)] u "2.prems"(3) by auto
  qed
qed simp

end
