(* ===== verification/Open_Files.thy ===== *)
theory Open_Files
  imports Vfs_File
begin

text \<open>
  Opening and closing: \<open>sys_open\<close> and \<open>sys_close\<close> of \<open>kernel/sysfile.c\<close> with the two pseudo file systems \<open>sys_open\<close> tries
  first, the control group files of \<open>kernel/fs/cgfs.c\<close> and the files of \<open>kernel/fs/procfs.c\<close>, and the file
  table under all calls that take or give back a reference to a file.

  The values a pseudo file shows are copied into \<open>struct vfs_file\<close> when it is opened; they are not part of the model.
  Name resolution in the file systems proper (\<open>vfs_nameimount\<close>, \<open>createmount\<close>) is the argument \<open>look\<close>: it works on the inodes
  and mounts and has no access to the file table.
\<close>

section \<open>The pseudo file systems\<close>

record open_state =
  ofs :: files
  ocg :: cgtable
  procfs_root :: string

datatype cgroup_file_name_t =
  CGROUP_PROCS | CGROUP_SUBTREE_CONTROL | CGROUP_MAX_DESCENDANTS | CGROUP_MAX_DEPTH | CPU_WEIGHT | CPU_MAX | PID_MAX | SET_CPU
| SET_FRZ | MEM_MAX | MEM_MIN | CGROUP_CONTROLLERS | CGROUP_EVENTS | CGROUP_STAT | CPU_STAT | PID_CUR | MEM_CUR | MEM_STAT | IO_STAT

definition cg_file_name_constant :: "string \<Rightarrow> cgroup_file_name_t option" where
  "cg_file_name_constant filename = map_of
    [(''cgroup.procs'', CGROUP_PROCS), (''cgroup.subtree_control'', CGROUP_SUBTREE_CONTROL),
     (''cgroup.max.descendants'', CGROUP_MAX_DESCENDANTS), (''cgroup.max.depth'', CGROUP_MAX_DEPTH),
     (''cgroup.controllers'', CGROUP_CONTROLLERS), (''cgroup.events'', CGROUP_EVENTS), (''cgroup.stat'', CGROUP_STAT),
     (''cpu.weight'', CPU_WEIGHT), (''cpu.max'', CPU_MAX), (''cpu.stat'', CPU_STAT), (''pid.max'', PID_MAX),
     (''pid.current'', PID_CUR), (''cpuset.cpus'', SET_CPU), (''cgroup.freeze'', SET_FRZ), (''memory.current'', MEM_CUR),
     (''memory.max'', MEM_MAX), (''memory.min'', MEM_MIN), (''memory.stat'', MEM_STAT), (''io.stat'', IO_STAT)] filename"

text \<open>The enumeration lists the files that can be written before \<open>NON_WRITABLE\<close>.\<close>

definition is_file_writable :: "cgroup_file_name_t \<Rightarrow> bool" where
  "is_file_writable n = (n \<in> {CGROUP_PROCS, CGROUP_SUBTREE_CONTROL, CGROUP_MAX_DESCENDANTS, CGROUP_MAX_DEPTH, CPU_WEIGHT, CPU_MAX,
     PID_MAX, SET_CPU, SET_FRZ, MEM_MAX, MEM_MIN})"

text \<open>The cases of the switch in \<open>unsafe_cg_open_file\<close> that refuse the root group.\<close>

definition not_in_root :: "cgroup_file_name_t \<Rightarrow> bool" where
  "not_in_root n = (n \<in> {CPU_STAT, CPU_WEIGHT, CPU_MAX, PID_MAX, SET_CPU, SET_FRZ, MEM_MAX, MEM_MIN, MEM_STAT, IO_STAT})"

definition unsafe_cg_open_dir :: "nat \<Rightarrow> nat \<Rightarrow> nat \<Rightarrow> u32 \<Rightarrow> open_state \<Rightarrow> (int \<times> open_state) outcome" where
  "unsafe_cg_open_dir kend p cgp omode s =
    (if cgroup_dir_path (cgroups (ocg s) cgp) = [] then Ret (- 1, s)
     else
       bindO (new_fd kend p (ofs s)) (\<lambda>(x, t).
       case x of
         None \<Rightarrow> Ret (- 1, s\<lparr>ofs := t\<rparr>)
       | Some (fd, f) \<Rightarrow>
           Ret (int fd, s\<lparr>ofs := upd_file f (\<lambda>x. x\<lparr>ftype := FD_CG, off := 0, readable := \<not> bit omode 0, writable := False,
                            fcgp := cgp, cgfilename := []\<rparr>) t,
                          ocg := upd_cg cgp (\<lambda>c. c\<lparr>ref_count := ref_count c + 1\<rparr>) (ocg s)\<rparr>)))"

definition unsafe_cg_open_file :: "nat \<Rightarrow> nat \<Rightarrow> string \<Rightarrow> nat \<Rightarrow> u32 \<Rightarrow> open_state \<Rightarrow> (int \<times> open_state) outcome" where
  "unsafe_cg_open_file kend p filename cgp omode s =
    (case cg_file_name_constant filename of
       None \<Rightarrow> Ret (- 1, s)
     | Some n \<Rightarrow>
         bindO (new_fd kend p (ofs s)) (\<lambda>(x, t).
         case x of
           None \<Rightarrow> Ret (- 1, s\<lparr>ofs := t\<rparr>)
         | Some (fd, f) \<Rightarrow>
             if not_in_root n \<and> cgp = cgroup_root then Ret (- 1, s\<lparr>ofs := t\<rparr>)
             else
               Ret (int fd, s\<lparr>ofs := upd_file f (\<lambda>x. x\<lparr>ftype := FD_CG, off := 0, readable := \<not> bit omode 0,
                                writable := (bit omode 0 \<or> bit omode 1) \<and> is_file_writable n, fcgp := cgp, cgfilename := filename\<rparr>) t,
                              ocg := upd_cg cgp (\<lambda>c. c\<lparr>ref_count := ref_count c + 1\<rparr>) (ocg s)\<rparr>)))"

definition cg_sys_open :: "nat \<Rightarrow> string \<Rightarrow> nat \<Rightarrow> string \<Rightarrow> u32 \<Rightarrow> open_state \<Rightarrow> (int \<times> open_state) outcome" where
  "cg_sys_open kend cwdp p path omode s =
    (case unsafe_get_cgroup_by_path cwdp path (ocg s) of
       Some cgp \<Rightarrow> unsafe_cg_open_dir kend p cgp omode s
     | None \<Rightarrow>
         (case (get_dir_name cwdp path, get_base_name cwdp path) of
            (Some dir_path, Some file_name) \<Rightarrow>
              (case unsafe_get_cgroup_by_path cwdp dir_path (ocg s) of
                 Some cgp \<Rightarrow> unsafe_cg_open_file kend p file_name cgp omode s
               | None \<Rightarrow> Ret (- 1, s))
          | _ \<Rightarrow> Ret (- 1, s)))"

datatype proc_file_name_t = PROC_MEM | PROC_MOUNTS | PROC_DEVICES | PROC_CACHE

definition proc_file_name_constant :: "string \<Rightarrow> proc_file_name_t option" where
  "proc_file_name_constant filename =
    map_of [(''mem'', PROC_MEM), (''mounts'', PROC_MOUNTS), (''devices'', PROC_DEVICES), (''cache'', PROC_CACHE)] filename"

text \<open>Both routines count a reference more than the descriptor they return.\<close>

definition unsafe_proc_open_file :: "nat \<Rightarrow> nat \<Rightarrow> string \<Rightarrow> u32 \<Rightarrow> open_state \<Rightarrow> (int \<times> open_state) outcome" where
  "unsafe_proc_open_file kend p filename omode s =
    (case proc_file_name_constant filename of
       None \<Rightarrow> Ret (- 1, s)
     | Some n \<Rightarrow>
         bindO (new_fd kend p (ofs s)) (\<lambda>(x, t).
         case x of
           None \<Rightarrow> Ret (- 1, s\<lparr>ofs := t\<rparr>)
         | Some (fd, f) \<Rightarrow>
             Ret (int fd, s\<lparr>ofs := upd_file f (\<lambda>x. x\<lparr>off := 0, readable := \<not> bit omode 0,
                 writable := n = PROC_CACHE \<and> (bit omode 0 \<or> bit omode 1), fref := fref x + 1, ftype := FD_PROC\<rparr>) t\<rparr>)))"

definition unsafe_proc_open_dir :: "nat \<Rightarrow> nat \<Rightarrow> u32 \<Rightarrow> open_state \<Rightarrow> (int \<times> open_state) outcome" where
  "unsafe_proc_open_dir kend p omode s =
    (if procfs_root s = [] then Ret (- 1, s)
     else
       bindO (new_fd kend p (ofs s)) (\<lambda>(x, t).
       case x of
         None \<Rightarrow> Ret (- 1, s\<lparr>ofs := t\<rparr>)
       | Some (fd, f) \<Rightarrow>
           Ret (int fd, s\<lparr>ofs := upd_file f (\<lambda>x. x\<lparr>off := 0, readable := \<not> bit omode 0, writable := True,
               fref := fref x + 1, ftype := FD_PROC\<rparr>) t\<rparr>)))"

text \<open>The copy leaves behind what is longer than the new path.\<close>

definition unsafe_set_procfs_dir_path :: "string \<Rightarrow> string \<Rightarrow> open_state \<Rightarrow> open_state" where
  "unsafe_set_procfs_dir_path cwdp path s =
    (let fpath = format_path cwdp path in s\<lparr>procfs_root := fpath @ drop (length fpath) (procfs_root s)\<rparr>)"

text \<open>
  The comparison in \<open>proc_sys_open\<close>, behind the first character of both: what is left of the path when its first
  component is that of the root of procfs.
\<close>

fun match_root :: "string \<Rightarrow> string \<Rightarrow> string option" where
  "match_root [] r = (if r = [] then Some [] else None)"
| "match_root (c # p) r =
    (if c = CHR ''/'' then if r = [] then Some (c # p) else None
     else case r of [] \<Rightarrow> None | d # r \<Rightarrow> if c = d then match_root p r else None)"

text \<open>\<open>junk\<close> is what the buffer has behind the empty string, where \<open>format_path\<close> rejects a path and the comparison still runs.\<close>

definition proc_sys_open :: "nat \<Rightarrow> string \<Rightarrow> string \<Rightarrow> nat \<Rightarrow> string \<Rightarrow> u32 \<Rightarrow> open_state \<Rightarrow> (int \<times> open_state) outcome" where
  "proc_sys_open kend junk cwdp p path omode s =
    (if procfs_root s = [] then Ret (- 1, s)
     else case match_root (case format_path cwdp path of [] \<Rightarrow> junk | _ # q \<Rightarrow> q) (tl (procfs_root s)) of
       None \<Rightarrow> Ret (- 1, s)
     | Some [] \<Rightarrow> unsafe_proc_open_dir kend p omode s
     | Some (_ # name) \<Rightarrow> unsafe_proc_open_file kend p name omode s)"

section \<open>Opening and closing\<close>

text \<open>
  What name resolution finds: nothing, a file that \<open>O_EXCL\<close> refuses, or an inode with the mount it was reached
  through and whether it is a directory. \<open>open_found\<close> is \<open>sys_open\<close> from there on.
\<close>

datatype found = Missing | Exists | Found nat nat bool

definition open_found :: "nat \<Rightarrow> nat \<Rightarrow> u32 \<Rightarrow> found \<times> nst \<Rightarrow> open_state \<Rightarrow> (int \<times> open_state) outcome" where
  "open_found kend p omode x s =
    (case x of (r, n) \<Rightarrow>
       let t = (ofs s)\<lparr>fns := n\<rparr> in
       case r of
         Missing \<Rightarrow> Ret (- 1, s\<lparr>ofs := t\<rparr>)
       | Exists \<Rightarrow> Ret (- 2, s\<lparr>ofs := t\<rparr>)
       | Found i m dir \<Rightarrow>
           if \<not> bit omode 8 \<and> dir \<and> omode \<noteq> 0
           then Ret (- 1, s\<lparr>ofs := t\<lparr>fns := mntput m (iput i (fns t))\<rparr>\<rparr>)
           else bindO (open_file kend p i m omode t) (\<lambda>(fd, t). Ret (fd, s\<lparr>ofs := t\<rparr>)))"

definition sys_open ::
  "nat \<Rightarrow> string \<Rightarrow> (u32 \<Rightarrow> string \<Rightarrow> nst \<Rightarrow> found \<times> nst) \<Rightarrow> string \<Rightarrow> nat \<Rightarrow> string \<Rightarrow> u32 \<Rightarrow> open_state \<Rightarrow> (int \<times> open_state) outcome" where
  "sys_open kend junk look cwdp p path omode s =
    bindO (cg_sys_open kend cwdp p path omode s) (\<lambda>(fd, s).
    if 0 \<le> fd then Ret (fd, s)
    else
      bindO (proc_sys_open kend junk cwdp p path omode s) (\<lambda>(fd, s).
      if 0 \<le> fd then Ret (fd, s) else open_found kend p omode (look omode path (fns (ofs s))) s))"

text \<open>\<open>unsafe_cg_close\<close> reads the group from the file it has closed.\<close>

definition unsafe_cg_close :: "nat \<Rightarrow> nat \<Rightarrow> open_state \<Rightarrow> open_state outcome option" where
  "unsafe_cg_close kend f s =
    (case vfs_fileclose kend f (ofs s) of
       Panic msg \<Rightarrow> Some (Panic msg)
     | Ret t \<Rightarrow>
         let cgp = fcgp (ffile t f);
             c = upd_cg cgp (\<lambda>c. c\<lparr>ref_count := ref_count c - 1\<rparr>) (ocg s)
         in if ref_count (cgroups c cgp) = 0 \<and> cgroup_dir_path (cgroups c cgp) = []
            then map_option (\<lambda>c. Ret (s\<lparr>ofs := t, ocg := c\<rparr>)) (decrement_nr_dying_descendants (cparent (cgroups c cgp)) c)
            else Some (Ret (s\<lparr>ofs := t, ocg := c\<rparr>)))"

definition sys_close :: "nat \<Rightarrow> nat \<Rightarrow> int \<Rightarrow> open_state \<Rightarrow> (int \<times> open_state) outcome option" where
  "sys_close kend p fd s =
    (case argfd p fd (ofs s) of
       None \<Rightarrow> Some (Ret (- 1, s))
     | Some (d, f) \<Rightarrow>
         let s = s\<lparr>ofs := set_fd p d None (ofs s)\<rparr> in
         if ftype (ffile (ofs s) f) = FD_CG
         then map_option (\<lambda>r. bindO r (\<lambda>s. Ret (0, s))) (unsafe_cg_close kend f s)
         else Some (bindO (vfs_fileclose kend f (ofs s)) (\<lambda>t. Ret (0, s\<lparr>ofs := t\<rparr>))))"

section \<open>References\<close>

lemma held_clear:
  assumes "held s L" "p < NPROC" "d < NOFILE" "ofile s p d = Some f"
  shows "held (set_fd p d None s) (add_mset f L)"
  using assms(1) handles_clear [OF assms(2-4)] by (simp add: held_def ftab.counted_def)

lemma sys_close_held:
  assumes "held (ofs s) L" "p < NPROC" "sys_close kend p fd s = Some (Ret (r, t))"
  shows "held (ofs t) L"
proof (cases "argfd p fd (ofs s)")
  case None
  then show ?thesis using assms by (simp add: sys_close_def)
next
  case (Some df)
  then obtain d f where df: "argfd p fd (ofs s) = Some (d, f)" by (cases df) auto
  note c = held_clear [OF assms(1,2), of d f] argfd_Some [OF df]
  obtain u where "vfs_fileclose kend f (set_fd p d None (ofs s)) = Ret u" "ofs t = u"
    using assms(3) df by (auto simp: sys_close_def unsafe_cg_close_def bindO_Ret_iff Let_def split: if_splits outcome.splits)
  then show ?thesis using fileclose_held [of "set_fd p d None (ofs s)" f L kend u] c by auto
qed

lemma cg_open_held:
  assumes "held (ofs s) L" "p < NPROC"
  shows "unsafe_cg_open_dir kend p cgp omode s = Ret (r, t) \<Longrightarrow> held (ofs t) L"
    "unsafe_cg_open_file kend p name cgp omode s = Ret (r, t) \<Longrightarrow> held (ofs t) L"
  using assms(1) new_fd_held [OF assms, of kend]
  by (fastforce simp: unsafe_cg_open_dir_def unsafe_cg_open_file_def bindO_Ret_iff held_update split: option.splits prod.splits if_splits)+

lemma cg_sys_open_held:
  assumes "held (ofs s) L" "p < NPROC" "cg_sys_open kend cwdp p path omode s = Ret (r, t)"
  shows "held (ofs t) L"
  using assms(1,3) cg_open_held [OF assms(1,2)] by (auto simp: cg_sys_open_def split: option.splits)

text \<open>The file behind the descriptor a call returned.\<close>

definition opened :: "nat \<Rightarrow> int \<Rightarrow> open_state \<Rightarrow> nat multiset" where
  "opened p r t = (if 0 \<le> r then opt_mset (ofile (ofs t) p (nat r)) else {#})"

lemma held_extra: "held t L \<Longrightarrow> f < NFILE \<Longrightarrow> fref (h (ffile t f)) = fref (ffile t f) + 1 \<Longrightarrow> held (upd_file f h t) (add_mset f L)"
  using handles_cong [of "upd_file f h t" t] by (auto simp: held_def ftab.counted_def)

definition counted_open :: "nat \<Rightarrow> nat multiset \<Rightarrow> int \<Rightarrow> open_state \<Rightarrow> open_state \<Rightarrow> bool" where
  "counted_open p L r s t \<longleftrightarrow>
    held (ofs t) (opened p r t + L) \<and> (\<forall>f\<in>#opened p r t. f < NFILE \<and> fref (ffile (ofs s) f) = 0)"

lemma counted_open_fail: "held (ofs t) L \<Longrightarrow> counted_open p L (- 1) s t"
  by (simp add: counted_open_def opened_def)

lemma counted_open_extra:
  assumes "held (ofs s) L" "p < NPROC" "new_fd kend p (ofs s) = Ret (Some (fd, f), u)" "\<And>y. fref (h y) = fref y + 1"
  shows "counted_open p L (int fd) s (s\<lparr>ofs := upd_file f h u\<rparr>)"
proof -
  have f: "f < NFILE" "ofile u p fd = Some f" "fref (ffile (ofs s) f) = 0" "held u L" using new_fd_held [OF assms(1-3)] by auto
  then show ?thesis using held_extra [OF f(4,1), of h] assms(4) by (simp add: counted_open_def opened_def opt_mset_def)
qed

lemma proc_open_counted:
  assumes "held (ofs s) L" "p < NPROC"
  shows "unsafe_proc_open_dir kend p omode s = Ret (r, t) \<Longrightarrow> counted_open p L r s t"
    "unsafe_proc_open_file kend p name omode s = Ret (r, t) \<Longrightarrow> counted_open p L r s t"
  using assms(1) new_fd_held [OF assms, of kend]
  by (auto simp: unsafe_proc_open_dir_def unsafe_proc_open_file_def bindO_Ret_iff split: option.splits prod.splits if_splits
      intro!: counted_open_extra [OF assms] counted_open_fail)

lemma proc_sys_open_counted:
  assumes "held (ofs s) L" "p < NPROC" "proc_sys_open kend junk cwdp p path omode s = Ret (r, t)"
  shows "counted_open p L r s t"
  using assms(1,3) proc_open_counted [OF assms(1,2)]
  by (auto simp: proc_sys_open_def counted_open_fail split: option.splits list.splits if_splits)

text \<open>The file a call of \<open>sys_open\<close> opened in procfs.\<close>

definition leaked :: "nat \<Rightarrow> int \<Rightarrow> open_state \<Rightarrow> nat multiset" where
  "leaked p r t = filter_mset (\<lambda>f. ftype (ffile (ofs t) f) = FD_PROC) (opened p r t)"

lemma opened_neg: "r < 0 \<Longrightarrow> opened p r t = {#}" "r < 0 \<Longrightarrow> leaked p r t = {#}"
  by (simp_all add: opened_def leaked_def)

lemma opened_fd: "ofile (ofs t) p fd = Some f \<Longrightarrow> opened p (int fd) t = {#f#}"
  by (simp add: opened_def opt_mset_def)

lemma leaked_fd: "ofile (ofs t) p fd = Some f \<Longrightarrow> leaked p (int fd) t = (if ftype (ffile (ofs t) f) = FD_PROC then {#f#} else {#})"
  by (simp add: leaked_def opened_fd)

lemma new_fd_ofile: "held s L \<Longrightarrow> p < NPROC \<Longrightarrow> new_fd kend p s = Ret (Some (fd, f), t) \<Longrightarrow> ofile t p fd = Some f"
  using new_fd_held by blast

lemma cg_open_kind:
  assumes "held (ofs s) L" "p < NPROC"
  shows "unsafe_cg_open_dir kend p cgp omode s = Ret (r, t) \<Longrightarrow> leaked p r t = {#}"
    "unsafe_cg_open_file kend p name cgp omode s = Ret (r, t) \<Longrightarrow> leaked p r t = {#}"
  using new_fd_ofile [OF assms, of kend]
  by (fastforce simp: opened_neg leaked_fd unsafe_cg_open_dir_def unsafe_cg_open_file_def bindO_Ret_iff split: option.splits prod.splits if_splits)+

lemma cg_sys_open_kind:
  assumes "held (ofs s) L" "p < NPROC" "cg_sys_open kend cwdp p path omode s = Ret (r, t)"
  shows "leaked p r t = {#}"
  using assms(3) cg_open_kind [OF assms(1,2)] by (auto simp: cg_sys_open_def opened_neg split: option.splits)

lemma open_file_kind:
  assumes "held s L" "p < NPROC" "open_file kend p i m omode s = Ret (r, t)"
  shows "leaked p r (x\<lparr>ofs := t\<rparr>) = {#}"
  using assms(3) new_fd_ofile [OF assms(1,2), of kend]
  by (auto simp: opened_neg leaked_fd open_file_def bindO_Ret_iff split: option.splits prod.splits if_splits)

lemma proc_open_kind:
  assumes "held (ofs s) L" "p < NPROC"
  shows "unsafe_proc_open_dir kend p omode s = Ret (r, t) \<Longrightarrow> leaked p r t = opened p r t"
    "unsafe_proc_open_file kend p name omode s = Ret (r, t) \<Longrightarrow> leaked p r t = opened p r t"
  using new_fd_ofile [OF assms, of kend]
  by (auto simp: opened_neg leaked_fd opened_fd unsafe_proc_open_dir_def unsafe_proc_open_file_def bindO_Ret_iff
      split: option.splits prod.splits if_splits)

lemma proc_sys_open_kind:
  assumes "held (ofs s) L" "p < NPROC" "proc_sys_open kend junk cwdp p path omode s = Ret (r, t)"
  shows "leaked p r t = opened p r t"
  using assms(3) proc_open_kind [OF assms(1,2)]
  by (auto simp: proc_sys_open_def opened_neg split: option.splits list.splits if_splits)

text \<open>\<open>leaks_ok s L\<close>: the files of \<open>L\<close>, each once, are counted one reference above their descriptors.\<close>

definition leaks_ok :: "open_state \<Rightarrow> nat multiset \<Rightarrow> bool" where
  "leaks_ok s L \<longleftrightarrow> held (ofs s) L \<and> (\<forall>f. count L f \<le> 1) \<and> (\<forall>f\<in>#L. f < NFILE)"

lemma leaks_ok_I: "leaks_ok s L \<Longrightarrow> held (ofs t) L \<Longrightarrow> leaks_ok t L"
  by (simp add: leaks_ok_def)

lemma held_fref: "held s L \<Longrightarrow> f < NFILE \<Longrightarrow> fref (ffile s f) = int (count (handles s) f) + int (count L f)"
  by (simp add: held_def ftab.counted_def)

lemma counted_open_ok:
  assumes "leaks_ok s L" "counted_open p L r s t"
  shows "leaks_ok t (opened p r t + L)"
proof -
  have fresh: "count L f = 0 \<and> f < NFILE" if "f \<in># opened p r t" for f
    using assms that held_fref [of "ofs s" L f] by (auto simp: leaks_ok_def counted_open_def)
  have one: "count (opened p r t) f \<le> 1" for f by (auto simp: opened_def opt_mset_def split: option.split)
  have "count (opened p r t + L) f \<le> 1" for f
  proof (cases "f \<in># opened p r t")
    case True
    then show ?thesis using fresh [OF True] one [of f] by simp
  next
    case False
    then show ?thesis using assms(1) by (simp add: leaks_ok_def not_in_iff)
  qed
  then show ?thesis using assms fresh by (auto simp: leaks_ok_def counted_open_def)
qed

lemma look_end_ok:
  assumes "leaks_ok s L" "p < NPROC" "open_found kend p omode x s = Ret (r, t)"
  shows "leaks_ok t L \<and> leaked p r t = {#}"
proof (cases x)
  case (Pair q n)
  have h: "held ((ofs s)\<lparr>fns := n\<rparr>) L" using assms(1) by (simp add: leaks_ok_def)
  show ?thesis
  proof (cases q)
    case (Found i m d)
    have "leaks_ok t L \<and> leaked p r t = {#}" if "bindO (open_file kend p i m omode ((ofs s)\<lparr>fns := n\<rparr>)) (\<lambda>(fd, t). Ret (fd, s\<lparr>ofs := t\<rparr>)) = Ret (r, t)"
      using that open_file_held [OF h assms(2)] open_file_kind [OF h assms(2)] assms(1) by (auto simp: bindO_Ret_iff leaks_ok_def)
    then show ?thesis using assms(1,3) Pair Found by (auto simp: open_found_def Let_def leaks_ok_def opened_neg split: if_splits)
  qed (use assms(1,3) Pair in \<open>auto simp: open_found_def Let_def leaks_ok_def opened_neg\<close>)
qed

lemma sys_open_ok:
  assumes "leaks_ok s L" "p < NPROC" "sys_open kend junk look cwdp p path omode s = Ret (r, t)"
  shows "leaks_ok t (leaked p r t + L)"
proof -
  obtain a u where u: "cg_sys_open kend cwdp p path omode s = Ret (a, u)" using assms(3) by (auto simp: sys_open_def bindO_Ret_iff)
  have hs: "held (ofs s) L" using assms(1) by (simp add: leaks_ok_def)
  have hu: "leaks_ok u L" "held (ofs u) L" using cg_sys_open_held [OF hs assms(2) u] assms(1) by (auto simp: leaks_ok_def)
  show ?thesis
  proof (cases "0 \<le> a")
    case True
    then show ?thesis using assms(3) u hu cg_sys_open_kind [OF hs assms(2) u] by (simp add: sys_open_def)
  next
    case False
    then obtain b v where v: "proc_sys_open kend junk cwdp p path omode u = Ret (b, v)"
      using assms(3) u by (auto simp: sys_open_def bindO_Ret_iff)
    have lv: "leaks_ok v (opened p b v + L)" using counted_open_ok [OF hu(1) proc_sys_open_counted [OF hu(2) assms(2) v]] .
    show ?thesis
    proof (cases "0 \<le> b")
      case True
      then show ?thesis using assms(3) u v False lv proc_sys_open_kind [OF hu(2) assms(2) v] by (simp add: sys_open_def)
    next
      case neg: False
      then have lv: "leaks_ok v L" "held (ofs v) L" using lv by (auto simp: opened_def leaks_ok_def)
      obtain q n where n: "look omode path (fns (ofs v)) = (q, n)" by force
      then show ?thesis using assms(3) u v False neg look_end_ok [OF lv(1) assms(2), of kend omode "(q, n)" r t]
        by (simp add: sys_open_def)
    qed
  qed
qed

section \<open>The file table in use\<close>

text \<open>
  The calls of different processes, in any order. The second component collects the files opened in procfs. \<open>fork\<close> has a
  fresh process, whose descriptors are all closed. \<open>other\<close> is whatever the kernel does between the calls, reading and
  writing included: it leaves the counts and the descriptors alone.
\<close>

inductive fd_step :: "nat \<Rightarrow> open_state \<times> nat multiset \<Rightarrow> open_state \<times> nat multiset \<Rightarrow> bool" for kend where
  open_ok: "p < NPROC \<Longrightarrow> sys_open kend junk look cwdp p path omode s = Ret (r, t) \<Longrightarrow> fd_step kend (s, L) (t, leaked p r t + L)"
| dup: "p < NPROC \<Longrightarrow> sys_dup p fd (ofs s) = Ret (r, t) \<Longrightarrow> fd_step kend (s, L) (s\<lparr>ofs := t\<rparr>, L)"
| close: "p < NPROC \<Longrightarrow> sys_close kend p fd s = Some (Ret (r, t)) \<Longrightarrow> fd_step kend (s, L) (t, L)"
| pipe: "p < NPROC \<Longrightarrow> sys_pipe kend bytes p (ofs s) = Ret (x, t) \<Longrightarrow> fd_step kend (s, L) (s\<lparr>ofs := t\<rparr>, L)"
| fork: "p < NPROC \<Longrightarrow> q < NPROC \<Longrightarrow> p \<noteq> q \<Longrightarrow> \<forall>fd<NOFILE. ofile (ofs s) q fd = None \<Longrightarrow>
    fork_files p q [0..<NOFILE] (ofs s) = Ret t \<Longrightarrow> fd_step kend (s, L) (s\<lparr>ofs := t\<rparr>, L)"
| exit: "p < NPROC \<Longrightarrow> exit_files kend p [0..<NOFILE] (ofs s) = Ret t \<Longrightarrow> fd_step kend (s, L) (s\<lparr>ofs := t\<rparr>, L)"
| mount_proc: "fd_step kend (s, L) (unsafe_set_procfs_dir_path cwdp path s, L)"
| other: "ofile (ofs t) = ofile (ofs s) \<Longrightarrow> \<forall>f. fref (ffile (ofs t) f) = fref (ffile (ofs s) f) \<Longrightarrow> fd_step kend (s, L) (t, L)"

lemma fd_step_ok: "fd_step kend x y \<Longrightarrow> leaks_ok (fst x) (snd x) \<Longrightarrow> leaks_ok (fst y) (snd y)"
proof (induction rule: fd_step.induct)
  case (open_ok p junk look cwdp path omode s r t L)
  then show ?case using sys_open_ok [of s L p] by simp
next
  case (dup p fd s r t L)
  then show ?case using sys_dup_held [of "ofs s" L p fd] by (auto simp: leaks_ok_def)
next
  case (close p fd s r t L)
  then show ?case using sys_close_held [of s L p] by (auto simp: leaks_ok_def)
next
  case (pipe p bytes s x t L)
  then show ?case using sys_pipe_held [of "ofs s" L p] by (auto simp: leaks_ok_def)
next
  case (fork p q s t L)
  then show ?case using fork_files_held [of "ofs s" L p q "[0..<NOFILE]"] by (auto simp: leaks_ok_def)
next
  case (exit p s t L)
  then show ?case using exit_files_held [of "ofs s" L p "[0..<NOFILE]" kend t] by (auto simp: leaks_ok_def)
next
  case (mount_proc s L cwdp path)
  then show ?case by (simp add: leaks_ok_def unsafe_set_procfs_dir_path_def Let_def)
next
  case (other t s L)
  then show ?case using handles_cong [of "ofs t" "ofs s"] by (auto simp: leaks_ok_def held_def ftab.counted_def)
qed

definition boot_files :: files where
  "boot_files = one_file\<lparr>ffile := (\<lambda>_. \<lparr>ftype = FD_NONE, fref = 0, readable = False, writable = False, off = 0, fpipe = 0,
     fip = None, fmnt = None, fcgp = 0, cgfilename = []\<rparr>)\<rparr>"

definition boot_open :: open_state where
  "boot_open = \<lparr>ofs = boot_files, ocg = zero_cgtable (boot_kmem (\<lambda>_. 0)), procfs_root = []\<rparr>"

lemma boot_open_ok: "leaks_ok boot_open {#}"
proof -
  have "handles boot_files = {#}" by (simp add: handles_def boot_files_def one_file_def opt_mset_def)
  then show ?thesis by (simp add: leaks_ok_def held_def ftab.counted_def boot_open_def) (simp add: boot_files_def)
qed

lemma reachable_leaks_ok: "(fd_step kend)\<^sup>*\<^sup>* (boot_open, {#}) x \<Longrightarrow> leaks_ok (fst x) (snd x)"
  by (induction rule: rtranclp_induct) (auto intro: boot_open_ok fd_step_ok)

lemma leaks_full:
  assumes "leaks_ok s L" "size L = NFILE"
  shows "vfs_filealloc (ofs s) = (None, ofs s)"
proof -
  have "size L = card (set_mset L)"
  proof -
    have "count L f = 1" if "f \<in># L" for f using assms(1) that by (simp add: leaks_ok_def le_antisym Suc_leI)
    then have "(\<Sum>f\<in>set_mset L. count L f) = (\<Sum>f\<in>set_mset L. 1)" by (rule sum.cong [OF refl])
    then show ?thesis by (simp add: size_multiset_overloaded_eq)
  qed
  then have "set_mset L = {..<NFILE}" using assms by (intro card_subset_eq) (auto simp: leaks_ok_def)
  then have "fref (ffile (ofs s) f) \<noteq> 0" if "f < NFILE" for f
  proof -
    have "0 < count L f" using \<open>set_mset L = {..<NFILE}\<close> that by (simp only: count_greater_zero_iff lessThan_iff)
    moreover have "held (ofs s) L" using assms(1) by (simp add: leaks_ok_def)
    ultimately show ?thesis using held_fref [of "ofs s" L f] that by linarith
  qed
  then have "first_slot (\<lambda>f. fref (ffile (ofs s) f) = 0) NFILE = None" by (auto simp: first_slot_None)
  then show ?thesis by (simp add: vfs_filealloc_def)
qed

text \<open>
  Claim C38. The file table never loses count. However opens in the control group, proc and real file systems, duplications, closes, pipes,
  forks and exits of the processes follow each other, the reference count of every file is the number of
  descriptors that stand for it, and one more exactly for the files opened in procfs, whose extra reference is
  never given back. So \<open>dup\<close> never panics, no file in use is handed out again, and a file outside procfs is
  free again with its last descriptor. After \<open>NFILE\<close> opens in procfs no file can be opened any more, all closed or not.
\<close>

theorem file_refs_exact:
  assumes "(fd_step kend)\<^sup>*\<^sup>* (boot_open, {#}) (s, L)"
  shows "(\<forall>f<NFILE. fref (ffile (ofs s) f) =
      int (card {x \<in> {..<NPROC} \<times> {..<NOFILE}. ofile (ofs s) (fst x) (snd x) = Some f}) + (if f \<in># L then 1 else 0)) \<and>
    (\<forall>p<NPROC. \<forall>fd. returns (sys_dup p fd (ofs s))) \<and>
    (\<forall>p<NPROC. \<forall>fd<NOFILE. \<forall>f g t. ofile (ofs s) p fd = Some f \<longrightarrow> vfs_filealloc (ofs s) = (Some g, t) \<longrightarrow> g \<noteq> f) \<and>
    (size L = NFILE \<longrightarrow> fst (vfs_filealloc (ofs s)) = None)"
proof -
  have ok: "leaks_ok s L" using reachable_leaks_ok [OF assms] by simp
  then have h: "held (ofs s) L" and one: "\<And>f. count L f = (if f \<in># L then 1 else 0)"
    by (auto simp: leaks_ok_def not_in_iff le_antisym Suc_leI)
  have c: "fref (ffile (ofs s) f) = int (count (handles (ofs s)) f) + (if f \<in># L then 1 else 0)" if "f < NFILE" for f
    using held_fref [OF h that] one [of f] by simp
  have "g \<noteq> f" if "p < NPROC" "fd < NOFILE" "ofile (ofs s) p fd = Some f" "vfs_filealloc (ofs s) = (Some g, t)" for p fd f g t
  proof -
    have "0 < count (handles (ofs s)) f" using handles_clear [OF that(1,2,3)] by simp
    then have "f < NFILE \<Longrightarrow> 0 < fref (ffile (ofs s) f)" using c [of f] by (cases "f \<in># L") simp_all
    moreover have "fref (ffile (ofs s) g) = 0" "g < NFILE" using that(4) by (auto simp: vfs_filealloc_def dest!: first_slot_Some split: option.splits)
    ultimately show ?thesis by auto
  qed
  moreover have "returns (sys_dup p fd (ofs s))" if "p < NPROC" for p fd using sys_dup_held [OF h that, of fd] by (auto simp: returns_iff)
  moreover have "fst (vfs_filealloc (ofs s)) = None" if "size L = NFILE" using leaks_full [OF ok that] by simp
  ultimately show ?thesis using c by (auto simp: count_handles)
qed

text \<open>Procfs is mounted at \<open>/proc\<close> and process 0 opens \<open>/proc/mem\<close>: one descriptor, two references.\<close>

lemma boot_proc_fields:
  "procfs_root (unsafe_set_procfs_dir_path ''/'' ''/proc'' boot_open) = ''/proc''"
  "ofs (unsafe_set_procfs_dir_path ''/'' ''/proc'' boot_open) = boot_files"
  "ocg (unsafe_set_procfs_dir_path ''/'' ''/proc'' boot_open) = zero_cgtable (boot_kmem (\<lambda>_. 0))"
proof -
  have "format_path ''/'' ''/proc'' = ''/proc''" by code_simp
  then show "procfs_root (unsafe_set_procfs_dir_path ''/'' ''/proc'' boot_open) = ''/proc''"
    "ofs (unsafe_set_procfs_dir_path ''/'' ''/proc'' boot_open) = boot_files"
    "ocg (unsafe_set_procfs_dir_path ''/'' ''/proc'' boot_open) = zero_cgtable (boot_kmem (\<lambda>_. 0))"
    by (simp_all add: unsafe_set_procfs_dir_path_def boot_open_def)
qed

lemma no_cgroup_path: "unsafe_get_cgroup_by_path cwdp path (zero_cgtable k) = None"
  by (auto simp: unsafe_get_cgroup_by_path_def Let_def zero_cgtable_def zero_cgroup_def first_slot_None)

lemma boot_new_fd: "\<exists>t. new_fd kend 0 boot_files = Ret (Some (0, 0), t) \<and> ofile t 0 0 = Some 0"
proof -
  have "vfs_filealloc boot_files = (Some 0, upd_file 0 (\<lambda>x. x\<lparr>fref := 1, fmnt := None\<rparr>) boot_files)"
    by (simp add: vfs_filealloc_def first_slot_def NFILE_def upt_rec [of 0] boot_files_def)
  moreover have "ofile (upd_file 0 h boot_files) 0 0 = None" for h by (simp add: boot_files_def one_file_def)
  ultimately show ?thesis by (simp add: new_fd_def fdalloc_def first_slot_def NOFILE_def upt_rec [of 0])
qed

lemma open_proc_mem:
  "\<exists>t. sys_open 0 [] look ''/'' 0 ''/proc/mem'' 0 (unsafe_set_procfs_dir_path ''/'' ''/proc'' boot_open) = Ret (0, t) \<and>
     ofile (ofs t) 0 0 = Some 0 \<and> leaked 0 0 t = {#0#}"
proof -
  let ?s = "unsafe_set_procfs_dir_path ''/'' ''/proc'' boot_open"
  obtain u where u: "new_fd 0 0 boot_files = Ret (Some (0, 0), u)" "ofile u 0 0 = Some 0" using boot_new_fd by blast
  have cg: "cg_sys_open 0 ''/'' 0 ''/proc/mem'' 0 ?s = Ret (- 1, ?s)"
    by (auto simp: cg_sys_open_def boot_proc_fields no_cgroup_path split: option.split)
  have "format_path ''/'' ''/proc/mem'' = ''/proc/mem''" by code_simp
  then have "\<exists>t. proc_sys_open 0 [] ''/'' 0 ''/proc/mem'' 0 ?s = Ret (0, t) \<and> ofile (ofs t) 0 0 = Some 0 \<and> ftype (ffile (ofs t) 0) = FD_PROC"
    using u by (simp add: proc_sys_open_def unsafe_proc_open_file_def proc_file_name_constant_def boot_proc_fields)
  then obtain t where t: "proc_sys_open 0 [] ''/'' 0 ''/proc/mem'' 0 ?s = Ret (0, t)" "ofile (ofs t) 0 0 = Some 0"
    "ftype (ffile (ofs t) 0) = FD_PROC" by blast
  then have "leaked 0 0 t = {#0#}" using leaked_fd [of t 0 0 0] by simp
  then show ?thesis using cg t by (simp add: sys_open_def)
qed

theorem file_refs_exact_witness:
  "\<exists>s. (fd_step 0)\<^sup>*\<^sup>* (boot_open, {#}) (s, {#0#}) \<and> ofile (ofs s) 0 0 = Some 0 \<and> 2 \<le> fref (ffile (ofs s) 0) \<and> returns (sys_dup 0 0 (ofs s))"
proof -
  let ?s = "unsafe_set_procfs_dir_path ''/'' ''/proc'' boot_open"
  obtain t where t: "sys_open 0 [] (\<lambda>_ _ n. (Missing, n)) ''/'' 0 ''/proc/mem'' 0 ?s = Ret (0, t)"
    "ofile (ofs t) 0 0 = Some 0" "leaked 0 0 t = {#0#}" using open_proc_mem by blast
  have "fd_step 0 (boot_open, {#}) (?s, {#})" by (rule fd_step.mount_proc)
  moreover have "fd_step 0 (?s, {#}) (t, {#0#})" using fd_step.open_ok [OF _ t(1), of "{#}"] t(3) by (simp add: NPROC_def)
  ultimately have r: "(fd_step 0)\<^sup>*\<^sup>* (boot_open, {#}) (t, {#0#})" by (meson rtranclp.rtrancl_refl rtranclp.rtrancl_into_rtrancl)
  let ?D = "{x \<in> {..<NPROC} \<times> {..<NOFILE}. ofile (ofs t) (fst x) (snd x) = Some 0}"
  have "finite ?D" "(0, 0) \<in> ?D" using t(2) by (auto simp: NPROC_def NOFILE_def)
  then have "0 < card ?D" by (auto simp: card_gt_0_iff)
  then have "2 \<le> fref (ffile (ofs t) 0)" "returns (sys_dup 0 0 (ofs t))" using file_refs_exact [OF r] by (simp_all add: NPROC_def NFILE_def)
  with r t(2) show ?thesis by blast
qed

end
