(* ===== verification/Cgroup_Steps.thy ===== *)
theory Cgroup_Steps
  imports Vm
begin

text \<open>
  The control groups and the memory of the processes together: every routine that changes a group, its members
  or the size of a process, in any order.
\<close>

section \<open>The end of \<open>exec\<close>\<close>



section \<open>Growing and shrinking\<close>








section \<open>Every reachable table\<close>







end
