(* ===== verification/Spec2Isabelle.thy ===== *)
theory Spec2Isabelle
  imports Udiv Klib Kalloc Kvector Pipe Native_Log Obj_Disk Namespace Cpu_Account Native_Dir Open_Files Cgroup_Steps
begin

text \<open>
  A verification development of the xv6-osw kernel.
\<close>

end
